(* ===== verification/Prelude.thy ===== *)
theory Prelude
  imports Main "HOL-Library.Word" "HOL-Library.Monad_Syntax"
begin

text \<open>
  Shared vocabulary of the development: the widths of Rust's integer types, indexing that fails
  where Rust panics, Rust characters and strings, and the lemma collections the component theories
  add to.  A \<open>usize\<close> that counts elements of a slice is a \<open>nat\<close>: it is bounded by the slice's
  length and never wraps.  An integer whose wrap-around the code relies on keeps its width.
\<close>

section \<open>Integer widths\<close>

type_synonym u8 = "8 word"
type_synonym u16 = "16 word"
type_synonym u32 = "32 word"
type_synonym u64 = "64 word"

text \<open>A two's complement \<open>i32\<close> or \<open>i64\<close> is a word of its width read with \<open>sint\<close>.\<close>

type_synonym i32 = "32 word"
type_synonym i64 = "64 word"

type_synonym bytes = "8 word list"

section \<open>Lemma collections\<close>

named_theorems index_simps \<open>reads and writes of a vector at an index\<close>
named_theorems step_mono \<open>a reader step moves forward and stays inside its input\<close>

section \<open>Indexing that may panic\<close>

text \<open>
  \<open>xs[i]\<close> and \<open>xs[i] = v\<close> panic out of range: \<open>None\<close> is the panic.  \<open>slice::get\<close> is the same
  function, with \<open>None\<close> as its value.
\<close>

definition idx :: "'a list \<Rightarrow> nat \<Rightarrow> 'a option" where
  "idx xs i = (if i < length xs then Some (xs ! i) else None)"

definition put :: "'a list \<Rightarrow> nat \<Rightarrow> 'a \<Rightarrow> 'a list option" where
  "put xs i v = (if i < length xs then Some (xs[i := v]) else None)"

lemma idx_Some [index_simps]: "i < length xs \<Longrightarrow> idx xs i = Some (xs ! i)"
  by (simp add: idx_def)

lemma idx_None [index_simps]: "length xs \<le> i \<Longrightarrow> idx xs i = None"
  by (simp add: idx_def)

lemma put_Some [index_simps]: "i < length xs \<Longrightarrow> put xs i v = Some (xs[i := v])"
  by (simp add: put_def)

lemma put_length: "put xs i v = Some ys \<Longrightarrow> length ys = length xs"
  by (auto simp: put_def split: if_splits)

lemma idx_eq_Some: "idx xs i = Some x \<longleftrightarrow> i < length xs \<and> xs ! i = x"
  by (auto simp: idx_def)

text \<open>A buffer filled from the left: writing at its fill mark appends.\<close>

lemma put_append [index_simps]:
  "j = length pre \<Longrightarrow> put (pre @ x # rest) j v = Some (pre @ v # rest)"
  by (simp add: put_def list_update_append)

section \<open>Results\<close>

text \<open>
  Rust's \<open>Result\<close>, with the panic as a third outcome.  \<open>rbind m k\<close> is \<open>let x = m?; k\<close>:
  an error leaves the function, and a panic the program.
\<close>

datatype ('a, 'e) result = Ok 'a | Err 'e | Panic

fun rbind :: "('a, 'e) result \<Rightarrow> ('a \<Rightarrow> ('b, 'e) result) \<Rightarrow> ('b, 'e) result" where
  "rbind (Ok x) k = k x"
| "rbind (Err e) k = Err e"
| "rbind Panic k = Panic"

definition ok_or :: "'e \<Rightarrow> 'a option \<Rightarrow> ('a, 'e) result" where
  "ok_or e m = (case m of None \<Rightarrow> Err e | Some x \<Rightarrow> Ok x)"

text \<open>A call whose model is \<open>None\<close> when it panics.\<close>

definition unwrap :: "'a option \<Rightarrow> ('a, 'e) result" where
  "unwrap m = (case m of None \<Rightarrow> Panic | Some x \<Rightarrow> Ok x)"

lemma ok_or_simps [simp]: "ok_or e None = Err e" "ok_or e (Some x) = Ok x"
  by (simp_all add: ok_or_def)

lemma unwrap_simps [simp]: "unwrap None = Panic" "unwrap (Some x) = Ok x"
  by (simp_all add: unwrap_def)

lemma rbind_eq_Ok: "rbind m k = Ok y \<longleftrightarrow> (\<exists>x. m = Ok x \<and> k x = Ok y)"
  by (cases m) auto

lemma rbind_eq_Panic: "rbind m k = Panic \<longleftrightarrow> m = Panic \<or> (\<exists>x. m = Ok x \<and> k x = Panic)"
  by (cases m) auto

lemma ok_or_eq_Ok [simp]: "ok_or e m = Ok x \<longleftrightarrow> m = Some x"
  by (cases m) auto

lemma ok_or_not_Panic [simp]: "ok_or e m \<noteq> Panic"
  by (cases m) auto

lemma rbind_ok_or_not_Panic: "rbind (ok_or e m) k \<noteq> Panic \<longleftrightarrow> (\<forall>x. m = Some x \<longrightarrow> k x \<noteq> Panic)"
  by (cases m) auto

section \<open>Characters and strings\<close>

text \<open>
  A Rust \<open>char\<close> is a Unicode scalar value; a \<open>str\<close> is modelled as the list of its characters.
  Byte offsets into a \<open>str\<close> are sums of the UTF-8 widths of the characters before them.
\<close>

type_synonym rchar = nat
type_synonym str = "nat list"

definition is_scalar :: "nat \<Rightarrow> bool" where
  "is_scalar u \<longleftrightarrow> u < 0xD800 \<or> (0xE000 \<le> u \<and> u < 0x110000)"

text \<open>\<open>char::from_u32\<close>\<close>

definition char_from_u32 :: "nat \<Rightarrow> rchar option" where
  "char_from_u32 u = (if is_scalar u then Some u else None)"

definition len_utf8 :: "rchar \<Rightarrow> nat" where
  "len_utf8 c = (if c < 0x80 then 1 else if c < 0x800 then 2 else if c < 0x10000 then 3 else 4)"

fun str_len :: "str \<Rightarrow> nat" where
  "str_len [] = 0"
| "str_len (c # cs) = len_utf8 c + str_len cs"

text \<open>An ASCII literal of the source.\<close>

definition lit :: "string \<Rightarrow> str" where
  "lit s = map of_char s"

abbreviation chr :: "char \<Rightarrow> rchar" where
  "chr c \<equiv> of_char c"

definition is_ascii_digit :: "rchar \<Rightarrow> bool" where
  "is_ascii_digit c \<longleftrightarrow> 0x30 \<le> c \<and> c \<le> 0x39"

definition is_ascii_alphabetic :: "rchar \<Rightarrow> bool" where
  "is_ascii_alphabetic c \<longleftrightarrow> (0x41 \<le> c \<and> c \<le> 0x5A) \<or> (0x61 \<le> c \<and> c \<le> 0x7A)"

definition is_ascii_alphanumeric :: "rchar \<Rightarrow> bool" where
  "is_ascii_alphanumeric c \<longleftrightarrow> is_ascii_digit c \<or> is_ascii_alphabetic c"

lemma len_utf8_pos [simp]: "0 < len_utf8 c"
  by (simp add: len_utf8_def)

lemma str_len_append [simp]: "str_len (xs @ ys) = str_len xs + str_len ys"
  by (induction xs) auto

lemma str_len_eq_0 [simp]: "str_len s = 0 \<longleftrightarrow> s = []"
  by (cases s) auto

lemma lit_simps [simp]: "lit [] = []" "lit (c # cs) = of_char c # lit cs" "length (lit s) = length s"
  by (simp_all add: lit_def)

lemma is_scalar_small [simp]: "u < 0xD800 \<Longrightarrow> is_scalar u"
  by (simp add: is_scalar_def)

section \<open>Slices of a string\<close>

text \<open>
  \<open>split_bytes n s\<close> cuts \<open>s\<close> after \<open>n\<close> bytes: \<open>None\<close> where \<open>n\<close> is past the end or inside a
  character, which is where \<open>s.get(..n)\<close> is \<open>None\<close> and \<open>&s[..n]\<close> and \<open>&s[n..]\<close> panic.
\<close>

fun split_bytes :: "nat \<Rightarrow> str \<Rightarrow> (str \<times> str) option" where
  "split_bytes n [] = (if n = 0 then Some ([], []) else None)"
| "split_bytes n (c # cs) =
     (if n = 0 then Some ([], c # cs)
      else if n < len_utf8 c then None
      else map_option (\<lambda>(a, b). (c # a, b)) (split_bytes (n - len_utf8 c) cs))"

lemma split_bytes_Some: "split_bytes n s = Some (a, b) \<longleftrightarrow> s = a @ b \<and> str_len a = n"
proof (induction s arbitrary: n a b)
  case Nil
  then show ?case by auto
next
  case (Cons c cs)
  show ?case
  proof (cases a)
    case Nil
    then show ?thesis by (auto simp: Cons.IH)
  next
    case (Cons d a')
    have "(n \<noteq> 0 \<and> \<not> n < len_utf8 c \<and> d = c \<and> cs = a' @ b \<and> str_len a' = n - len_utf8 c) \<longleftrightarrow>
      (d = c \<and> cs = a' @ b \<and> len_utf8 c + str_len a' = n)"
      by auto
    then show ?thesis
      using Cons.IH [of "n - len_utf8 c" a' b] Cons by (auto simp: local.Cons.IH)
  qed
qed

text \<open>\<open>char::to_digit(16)\<close> and \<open>from_str_radix(s, 16)\<close> of an unsigned type with maximum \<open>m\<close>.\<close>

definition hex_digit :: "rchar \<Rightarrow> nat option" where
  "hex_digit c =
     (if 0x30 \<le> c \<and> c \<le> 0x39 then Some (c - 0x30)
      else if 0x41 \<le> c \<and> c \<le> 0x46 then Some (c - 0x41 + 10)
      else if 0x61 \<le> c \<and> c \<le> 0x66 then Some (c - 0x61 + 10)
      else None)"

fun hex_digits :: "nat \<Rightarrow> nat \<Rightarrow> str \<Rightarrow> nat option" where
  "hex_digits m v [] = Some v"
| "hex_digits m v (c # cs) =
     (case hex_digit c of
        None \<Rightarrow> None
      | Some d \<Rightarrow> if m < v * 16 + d then None else hex_digits m (v * 16 + d) cs)"

definition from_hex :: "nat \<Rightarrow> str \<Rightarrow> nat option" where
  "from_hex m s =
     (case s of
        [] \<Rightarrow> None
      | c # cs \<Rightarrow>
          if c = chr CHR ''+'' then (if cs = [] then None else hex_digits m 0 cs)
          else hex_digits m 0 s)"

section \<open>Searching a string, and its bytes\<close>

text \<open>\<open>str::strip_prefix\<close>\<close>

fun strip_prefix :: "str \<Rightarrow> str \<Rightarrow> str option" where
  "strip_prefix [] s = Some s"
| "strip_prefix (c # p) [] = None"
| "strip_prefix (c # p) (d # s) = (if c = d then strip_prefix p s else None)"

abbreviation starts_with :: "str \<Rightarrow> str \<Rightarrow> bool" where
  "starts_with s p \<equiv> strip_prefix p s \<noteq> None"

lemma strip_prefix_Some: "strip_prefix p s = Some b \<longleftrightarrow> s = p @ b"
  by (induction p s rule: strip_prefix.induct) auto

text \<open>\<open>str::contains\<close>\<close>

fun str_contains :: "str \<Rightarrow> str \<Rightarrow> bool" where
  "str_contains [] p = (p = [])"
| "str_contains (c # s) p = (starts_with (c # s) p \<or> str_contains s p)"

text \<open>\<open>s.as_bytes()\<close>: UTF-8.\<close>

definition utf8_char :: "rchar \<Rightarrow> bytes" where
  "utf8_char c =
     (if c < 0x80 then [of_nat c]
      else if c < 0x800 then [of_nat (0xC0 + c div 64), of_nat (0x80 + c mod 64)]
      else if c < 0x10000 then [of_nat (0xE0 + c div 4096), of_nat (0x80 + c div 64 mod 64), of_nat (0x80 + c mod 64)]
      else [of_nat (0xF0 + c div 262144), of_nat (0x80 + c div 4096 mod 64), of_nat (0x80 + c div 64 mod 64),
            of_nat (0x80 + c mod 64)])"

definition as_bytes :: "str \<Rightarrow> bytes" where
  "as_bytes s = concat (map utf8_char s)"

text \<open>\<open>s.find(ch)\<close>: the byte offset of the first \<open>ch\<close>.\<close>

fun find_char :: "str \<Rightarrow> rchar \<Rightarrow> nat option" where
  "find_char [] ch = None"
| "find_char (c # s) ch = (if c = ch then Some 0 else map_option ((+) (len_utf8 c)) (find_char s ch))"

text \<open>\<open>s[a..b]\<close>, which panics where \<open>a\<close> or \<open>b\<close> is inside a character or they are out of order.\<close>

definition slice_str :: "str \<Rightarrow> nat \<Rightarrow> nat \<Rightarrow> str option" where
  "slice_str s a b =
     (if b < a then None
      else do {
        (_, t) \<leftarrow> split_bytes a s;
        (u, _) \<leftarrow> split_bytes (b - a) t;
        Some u
      })"

lemma utf8_char_length: "length (utf8_char c) = len_utf8 c"
  by (simp add: utf8_char_def len_utf8_def)

lemma as_bytes_simps: "as_bytes [] = []" "as_bytes (c # s) = utf8_char c @ as_bytes s" "length (as_bytes s) = str_len s"
  by (induction s) (simp_all add: as_bytes_def utf8_char_length)

lemma find_char_split: "find_char s ch = Some n \<Longrightarrow> \<exists>rest. s = takeWhile (\<lambda>c. c \<noteq> ch) s @ ch # rest \<and> str_len (takeWhile (\<lambda>c. c \<noteq> ch) s) = n"
  by (induction s arbitrary: n) (auto split: if_splits)

lemma find_char_None: "find_char s ch = None \<longleftrightarrow> ch \<notin> set s"
  by (induction s) auto

lemma slice_str_Some: "slice_str s a b = Some u \<longleftrightarrow> (\<exists>x y. s = x @ u @ y \<and> str_len x = a \<and> str_len u = b - a) \<and> a \<le> b"
  by (auto simp: slice_str_def Option.bind_eq_Some_conv split_bytes_Some)

text \<open>Two slices that meet.\<close>

lemma prefix_same_len: "x @ u = y @ v \<Longrightarrow> str_len x = str_len y \<Longrightarrow> x = y \<and> u = v"
proof (induction x arbitrary: y)
  case Nil
  then show ?case using str_len_eq_0 [of y] by simp
next
  case (Cons c x)
  then show ?case using len_utf8_pos [of c] by (cases y) auto
qed

lemma slice_slice:
  assumes "slice_str s a b = Some u" "slice_str s b d = Some v"
  shows "slice_str s a d = Some (u @ v)"
proof -
  obtain x y where x: "s = x @ u @ y" "str_len x = a" "str_len u = b - a" "a \<le> b" using assms(1) by (auto simp: slice_str_Some)
  obtain z w where z: "s = z @ v @ w" "str_len z = b" "str_len v = d - b" "b \<le> d" using assms(2) by (auto simp: slice_str_Some)
  have "x @ u = z \<and> y = v @ w" using prefix_same_len [of "x @ u" y z "v @ w"] x z by simp
  then show ?thesis using x z unfolding slice_str_Some by (intro conjI exI [of _ x] exI [of _ w]) auto
qed

lemma slice_end: "slice_str s a b = Some u \<Longrightarrow> slice_str s b b = Some []"
  unfolding slice_str_Some by (elim conjE exE) (rule conjI, rule_tac x = "x @ u" in exI, auto)

end
