(* ===== verification/Codec.thy ===== *)
theory Codec
  imports Prelude
begin

text \<open>
  \<open>crates/pickle/src/codec.rs\<close>: the SID-10 byte codec that carries a pickle through a Java string.
  The source unrolls both loops seven bytes at a time and decodes in place; the definitions keep
  the unrolled statements, the buffer and its indices, with \<open>None\<close> where an index would panic.
  \<open>enc7\<close> and \<open>dec7\<close> are list functions used to state what the loops compute.
\<close>

unbundle bit_operations_syntax

text \<open>nsc's \<open>PickleFormat.MajorVersion\<close> and \<open>MinorVersion\<close>.\<close>

definition MAJOR :: nat where
  "MAJOR = 5"

definition MINOR :: nat where
  "MINOR = 2"

section \<open>Encoding\<close>

text \<open>\<open>src[i] as i32\<close> and \<open>x as u8\<close>; \<open>>>\<close> on an \<open>i32\<close> is the arithmetic shift.\<close>

definition rd32 :: "bytes \<Rightarrow> nat \<Rightarrow> i32 option" where
  "rd32 src i = map_option ucast (idx src i)"

definition sar :: "nat \<Rightarrow> 'a::len word \<Rightarrow> 'a word" where
  "sar n x = signed_drop_bit n x"

text \<open>The unrolled body of \<open>encode8to7\<close>'s loop: seven source bytes become eight.\<close>

definition enc_block :: "bytes \<Rightarrow> bytes \<Rightarrow> nat \<Rightarrow> nat \<Rightarrow> bytes option" where
  "enc_block src dst i j = do {
     inp \<leftarrow> rd32 src i;
     dst \<leftarrow> put dst j (ucast (inp AND 0x7f));
     let out = sar 7 inp;
     inp \<leftarrow> rd32 src (i + 1);
     dst \<leftarrow> put dst (j + 1) (ucast (out OR (push_bit 1 inp AND 0x7f)));
     let out = sar 6 inp;
     inp \<leftarrow> rd32 src (i + 2);
     dst \<leftarrow> put dst (j + 2) (ucast (out OR (push_bit 2 inp AND 0x7f)));
     let out = sar 5 inp;
     inp \<leftarrow> rd32 src (i + 3);
     dst \<leftarrow> put dst (j + 3) (ucast (out OR (push_bit 3 inp AND 0x7f)));
     let out = sar 4 inp;
     inp \<leftarrow> rd32 src (i + 4);
     dst \<leftarrow> put dst (j + 4) (ucast (out OR (push_bit 4 inp AND 0x7f)));
     let out = sar 3 inp;
     inp \<leftarrow> rd32 src (i + 5);
     dst \<leftarrow> put dst (j + 5) (ucast (out OR (push_bit 5 inp AND 0x7f)));
     let out = sar 2 inp;
     inp \<leftarrow> rd32 src (i + 6);
     dst \<leftarrow> put dst (j + 6) (ucast (out OR (push_bit 6 inp AND 0x7f)));
     let out = sar 1 inp;
     put dst (j + 7) (ucast out)
   }"

text \<open>
  The nested conditionals after the loop, for the last one to six bytes.  \<open>enc_tail k\<close> is the
  nested conditional that reads the byte at \<open>i + k\<close>; it returns the buffer, \<open>j\<close> and \<open>out\<close>.
\<close>

function enc_tail :: "nat \<Rightarrow> bytes \<Rightarrow> bytes \<Rightarrow> nat \<Rightarrow> nat \<Rightarrow> i32 \<Rightarrow> (bytes \<times> nat \<times> i32) option" where
  "enc_tail k src dst i j out =
     (if k \<le> 5 \<and> i + k < length src then do {
        inp \<leftarrow> rd32 src (i + k);
        dst \<leftarrow> put dst j (ucast (out OR (push_bit k inp AND 0x7f)));
        enc_tail (Suc k) src dst i (j + 1) (sar (7 - k) inp)
      } else Some (dst, j, out))"
  by pat_completeness auto
termination
  by (relation "measure (\<lambda>(k, src, dst, i, j, out). 6 - k)") auto

declare enc_tail.simps [simp del]

function enc_loop :: "bytes \<Rightarrow> bytes \<Rightarrow> nat \<Rightarrow> nat \<Rightarrow> bytes option" where
  "enc_loop src dst i j =
     (if i + 6 < length src then do {
        dst \<leftarrow> enc_block src dst i j;
        enc_loop src dst (i + 7) (j + 8)
      } else if i < length src then do {
        (dst, j, out) \<leftarrow> enc_tail 0 src dst i j 0;
        if j < length dst then put dst j (ucast out) else Some dst
      } else Some dst)"
  by pat_completeness auto
termination
  by (relation "measure (\<lambda>(src, dst, i, j). length src - i)") auto

declare enc_loop.simps [simp del]

definition encode8to7 :: "bytes \<Rightarrow> bytes option" where
  "encode8to7 src =
     (let dstlen = (length src * 8 + 6) div 7 in enc_loop src (replicate dstlen 0) 0 0)"

definition avoid_zero :: "bytes \<Rightarrow> bytes" where
  "avoid_zero src = map (\<lambda>inp. if inp = 0x7f then 0 else inp + 1) src"

definition encode_bytes :: "bytes \<Rightarrow> bytes option" where
  "encode_bytes src = map_option avoid_zero (encode8to7 src)"

text \<open>\<open>char::from(u8)\<close>: the Latin-1 character of a byte.\<close>

definition encode_to_annotation_string :: "bytes \<Rightarrow> str option" where
  "encode_to_annotation_string src = map_option (map unat) (encode_bytes src)"

section \<open>Decoding\<close>

text \<open>
  \<open>regenerate_zero\<close> rewrites the buffer in place: \<open>i\<close> reads, \<open>j\<close> writes.  It returns the
  buffer and the number of bytes written.
\<close>

function regen_loop :: "bytes \<Rightarrow> nat \<Rightarrow> nat \<Rightarrow> (bytes \<times> nat) option" where
  "regen_loop src i j =
     (if i < length src then do {
        inp \<leftarrow> idx src i;
        (if inp = 0xc0 \<and> i + 1 < length src \<and> src ! (i + 1) = 0x80 then do {
           src \<leftarrow> put src j 0x7f;
           regen_loop src (i + 2) (j + 1)
         } else if inp = 0 then do {
           src \<leftarrow> put src j 0x7f;
           regen_loop src (i + 1) (j + 1)
         } else do {
           src \<leftarrow> put src j (inp - 1);
           regen_loop src (i + 1) (j + 1)
         })
      } else Some (src, j))"
  by pat_completeness auto
termination
  by (relation "measure (\<lambda>(src, i, j). length src - i)") (auto dest: put_length)

declare regen_loop.simps [simp del]

definition regenerate_zero :: "bytes \<Rightarrow> (bytes \<times> nat) option" where
  "regenerate_zero src = regen_loop src 0 0"

definition dec_block :: "bytes \<Rightarrow> nat \<Rightarrow> nat \<Rightarrow> bytes option" where
  "dec_block src i j = do {
     out \<leftarrow> rd32 src i;
     inp \<leftarrow> rd32 src (i + 1);
     src \<leftarrow> put src j (ucast (out OR push_bit 7 (inp AND 0x01)));
     let out = sar 1 inp;
     inp \<leftarrow> rd32 src (i + 2);
     src \<leftarrow> put src (j + 1) (ucast (out OR push_bit 6 (inp AND 0x03)));
     let out = sar 2 inp;
     inp \<leftarrow> rd32 src (i + 3);
     src \<leftarrow> put src (j + 2) (ucast (out OR push_bit 5 (inp AND 0x07)));
     let out = sar 3 inp;
     inp \<leftarrow> rd32 src (i + 4);
     src \<leftarrow> put src (j + 3) (ucast (out OR push_bit 4 (inp AND 0x0f)));
     let out = sar 4 inp;
     inp \<leftarrow> rd32 src (i + 5);
     src \<leftarrow> put src (j + 4) (ucast (out OR push_bit 3 (inp AND 0x1f)));
     let out = sar 5 inp;
     inp \<leftarrow> rd32 src (i + 6);
     src \<leftarrow> put src (j + 5) (ucast (out OR push_bit 2 (inp AND 0x3f)));
     let out = sar 6 inp;
     inp \<leftarrow> rd32 src (i + 7);
     put src (j + 6) (ucast (out OR push_bit 1 inp))
   }"

text \<open>
  The nested conditionals after the loop: \<open>dec_tail k\<close> reads the byte at \<open>i + k\<close>.  The mask
  is \<open>0x01, 0x03, \<dots>, 0x3f\<close> for \<open>k = 1, \<dots>, 6\<close>.  The innermost conditional does not assign
  \<open>out\<close>, so after six bytes \<open>out\<close> keeps the value of the fifth.
\<close>

function dec_tail :: "nat \<Rightarrow> bytes \<Rightarrow> nat \<Rightarrow> nat \<Rightarrow> nat \<Rightarrow> i32 \<Rightarrow> (bytes \<times> nat \<times> i32) option" where
  "dec_tail k src srclen i j out =
     (if 1 \<le> k \<and> k \<le> 6 \<and> i + k < srclen then do {
        inp \<leftarrow> rd32 src (i + k);
        src \<leftarrow> put src j (ucast (out OR push_bit (8 - k) (inp AND (2 ^ k - 1))));
        dec_tail (Suc k) src srclen i (j + 1) (if k = 6 then out else sar k inp)
      } else Some (src, j, out))"
  by pat_completeness auto
termination
  by (relation "measure (\<lambda>(k, src, srclen, i, j, out). 7 - k)") auto

declare dec_tail.simps [simp del]

function dec_loop :: "bytes \<Rightarrow> nat \<Rightarrow> nat \<Rightarrow> nat \<Rightarrow> nat \<Rightarrow> bytes option" where
  "dec_loop src srclen dstlen i j =
     (if i + 7 < srclen then do {
        src \<leftarrow> dec_block src i j;
        dec_loop src srclen dstlen (i + 8) (j + 7)
      } else if i < srclen then do {
        out \<leftarrow> rd32 src i;
        (src, j, out) \<leftarrow> dec_tail 1 src srclen i j out;
        if j < dstlen then put src j (ucast out) else Some src
      } else Some src)"
  by pat_completeness auto
termination
  by (relation "measure (\<lambda>(src, srclen, dstlen, i, j). srclen - i)") auto

declare dec_loop.simps [simp del]

definition decode7to8 :: "bytes \<Rightarrow> nat \<Rightarrow> (bytes \<times> nat) option" where
  "decode7to8 src srclen =
     (let dstlen = (srclen * 7) div 8
      in map_option (\<lambda>src. (src, dstlen)) (dec_loop src srclen dstlen 0 0))"

text \<open>\<open>c as u8\<close> keeps the low eight bits of the code point.\<close>

definition decode_annotation_string :: "str \<Rightarrow> bytes option" where
  "decode_annotation_string s = do {
     let buf = map of_nat s;
     (buf, len) \<leftarrow> regenerate_zero buf;
     (buf, n) \<leftarrow> decode7to8 buf len;
     Some (take (min n (length buf)) buf)
   }"

section \<open>The streams the loops implement\<close>

text \<open>
  \<open>enc7 k p cs\<close> encodes \<open>cs\<close> when the top \<open>k\<close> bits of the byte \<open>p\<close> are still to be written;
  \<open>dec7 k p cs\<close> decodes \<open>cs\<close> when the low \<open>8 - k\<close> bits of the next byte are in \<open>p\<close>.
\<close>

definition mix7 :: "nat \<Rightarrow> u8 \<Rightarrow> u8 \<Rightarrow> u8" where
  "mix7 k p c = drop_bit (8 - k) p OR (push_bit k c AND 0x7f)"

fun enc7 :: "nat \<Rightarrow> u8 \<Rightarrow> bytes \<Rightarrow> bytes" where
  "enc7 k p [] = (if k = 0 then [] else [drop_bit (8 - k) p])"
| "enc7 k p (c # cs) =
     mix7 k p c # (if k = 6 then drop_bit 1 c # enc7 0 0 cs else enc7 (Suc k) c cs)"

fun dec7 :: "nat \<Rightarrow> u8 \<Rightarrow> bytes \<Rightarrow> bytes" where
  "dec7 k p [] = []"
| "dec7 k p (c # cs) =
     (if k = 0 then dec7 1 c cs
      else (p OR push_bit (8 - k) c) # (if k = 7 then dec7 0 0 cs else dec7 (Suc k) (drop_bit k c) cs))"

lemma mask7: "(0x7f :: 8 word) = mask 7"
  by (simp add: mask_eq_exp_minus_1)

lemma mix7_low: "k \<le> 6 \<Longrightarrow> 1 \<le> k \<Longrightarrow> (p AND mask (8 - k)) OR push_bit (8 - k) (mix7 k p c) = p"
proof (rule bit_word_eqI)
  fix n
  assume k: "k \<le> 6" "1 \<le> k" and n: "n < LENGTH(8)"
  show "bit ((p AND mask (8 - k)) OR push_bit (8 - k) (mix7 k p c)) n = bit p n"
  proof (cases "n < 8 - k")
    case True
    with n show ?thesis by (simp add: bit_simps mix7_def mask7)
  next
    case False
    with n have "8 + (n + k - 8) - k = n" "8 - k \<le> n" "n < 8" by simp_all
    with k show ?thesis by (auto simp: bit_simps mix7_def mask7)
  qed
qed

lemma mix7_high: "k \<le> 6 \<Longrightarrow> drop_bit k (mix7 k p c) = c AND mask (7 - k)"
  unfolding mix7_def mask7
  by (rule bit_word_eqI) (auto simp: bit_simps)

lemma last_bits:
  fixes p :: u8
  assumes "1 \<le> k" "k \<le> 7"
  shows "(p AND mask (8 - k)) OR push_bit (8 - k) (drop_bit (8 - k) p) = p"
proof (rule bit_word_eqI)
  fix n
  assume n: "n < LENGTH(8)"
  show "bit ((p AND mask (8 - k)) OR push_bit (8 - k) (drop_bit (8 - k) p)) n = bit p n"
    using assms n by (cases "n < 8 - k") (auto simp: bit_simps)
qed

lemma dec7_enc7: "k \<le> 6 \<Longrightarrow> dec7 k (if k = 0 then 0 else p AND mask (8 - k)) (enc7 k p cs) = (if k = 0 then cs else p # cs)"
proof (induction cs arbitrary: k p)
  case Nil
  then show ?case by (auto simp: last_bits)
next
  case (Cons c cs)
  have m0: "mix7 0 p c = c AND mask 7"
    using mix7_high [of 0 p c] by simp
  have s: "dec7 0 0 (enc7 0 0 cs) = cs" using Cons.IH [of 0 0] by simp
  show ?case
  proof (cases "k = 6")
    case True
    have "drop_bit 6 (mix7 6 p c) = c AND mask 1" using mix7_high [of 6 p c] by simp
    with True s last_bits [of 7 c] mix7_low [of 6 p c] show ?thesis
      by simp
  next
    case False
    then have k: "Suc k \<le> 6" using Cons.prems by simp
    show ?thesis
      using Cons.IH [OF k, of c] k mix7_low [of k p c] mix7_high [of k p c] m0
      by (auto simp: eval_nat_numeral)
  qed
qed

lemma put_offset:
  "j = length pre + n \<Longrightarrow> put (pre @ ys) j v = map_option ((@) pre) (put ys n v)"
  by (auto simp: put_def list_update_append)


lemma sar_ucast: "sar n (ucast (p :: u8) :: i32) = ucast (drop_bit n p)"
  unfolding sar_def by (rule bit_word_eqI) (auto simp: bit_simps dest: bit_imp_le_length)

lemma cast_drop: "ucast (ucast (p :: u8) :: i32) = p"
  by (rule bit_word_eqI) (auto simp: bit_simps)

lemma cast_mix: "ucast ((ucast (drop_bit (8 - k) p) :: i32) OR (push_bit k (ucast c) AND 0x7f)) = mix7 k p c"
  unfolding mix7_def by (rule bit_word_eqI) (auto simp: bit_simps)

lemma enc_block_eq:
  assumes "i + 6 < length src"
  shows "enc_block src (pre @ x0 # x1 # x2 # x3 # x4 # x5 # x6 # x7 # rest) i (length pre) =
    Some (pre @ mix7 0 0 (src ! i) # mix7 1 (src ! i) (src ! (i + 1)) # mix7 2 (src ! (i + 1)) (src ! (i + 2))
      # mix7 3 (src ! (i + 2)) (src ! (i + 3)) # mix7 4 (src ! (i + 3)) (src ! (i + 4))
      # mix7 5 (src ! (i + 4)) (src ! (i + 5)) # mix7 6 (src ! (i + 5)) (src ! (i + 6))
      # drop_bit 1 (src ! (i + 6)) # rest)"
  using assms cast_mix [of 0 0]
  apply (simp add: enc_block_def rd32_def idx_def put_offset put_offset [where n = 0, simplified] put_def
     sar_ucast cast_mix [of 1, simplified] cast_mix [of 2, simplified] cast_mix [of 3, simplified] cast_mix [of 4, simplified] cast_mix [of 5, simplified] cast_mix [of 6, simplified] cast_drop)
  apply (simp add: list_update_append eval_nat_numeral)
  done


lemma enc7_length: "k \<le> 6 \<Longrightarrow> length (enc7 k p cs) = (8 * length cs + k + 6) div 7"
proof (induction cs arbitrary: k p)
  case Nil
  then have "k = 0 \<or> k = 1 \<or> k = 2 \<or> k = 3 \<or> k = 4 \<or> k = 5 \<or> k = 6" by arith
  then show ?case by auto
next
  case (Cons c cs)
  show ?case
  proof (cases "k = 6")
    case True
    with Cons.IH [of 0 0] show ?thesis by simp
  next
    case False
    with Cons have "length (enc7 (Suc k) c cs) = (8 * length cs + Suc k + 6) div 7" by simp
    with False show ?thesis by simp
  qed
qed

lemma enc7_block:
  "enc7 0 0 (a # b # c # d # e # f # g # cs) =
    [mix7 0 0 a, mix7 1 a b, mix7 2 b c, mix7 3 c d, mix7 4 d e, mix7 5 e f, mix7 6 f g, drop_bit 1 g]
    @ enc7 0 0 cs"
  by (simp add: eval_nat_numeral)

text \<open>The buffer while the tail is written: what is done, then the zeros that are left.\<close>



lemma enc_tail_eq:
  assumes "src = s0 @ cs" "length s0 = i + k" "length cs + k \<le> 6" "1 \<le> k \<or> cs \<noteq> []"
  shows "\<exists>ys out. enc_tail k src (pre @ replicate (length cs + m) 0) i (length pre) (ucast (drop_bit (8 - k) p))
     = Some (pre @ ys @ replicate m 0, length pre + length cs, ucast out) \<and>
     length ys = length cs \<and> enc7 k p cs = ys @ [out]"
  using assms
proof (induction cs arbitrary: k p pre s0)
  case Nil
  then show ?case by (auto simp: enc_tail.simps)
next
  case (Cons c cs)
  have c: "src ! (i + k) = c" "i + k < length src"
    using Cons.prems by (auto simp: nth_append)
  obtain ys out where "enc_tail (Suc k) src ((pre @ [mix7 k p c]) @ replicate (length cs + m) 0) i
       (length (pre @ [mix7 k p c])) (ucast (drop_bit (8 - Suc k) c))
     = Some ((pre @ [mix7 k p c]) @ ys @ replicate m 0, length (pre @ [mix7 k p c]) + length cs, ucast out)"
     "length ys = length cs" "enc7 (Suc k) c cs = ys @ [out]"
    using Cons.IH [of "s0 @ [c]" "Suc k" "pre @ [mix7 k p c]" c] Cons.prems by auto
  then show ?case
    using Cons.prems c
    by (intro exI [of _ "mix7 k p c # ys"] exI [of _ out], subst enc_tail.simps)
       (simp add: rd32_def idx_def put_append cast_mix sar_ucast)
qed

lemma length_ge_7: "7 \<le> length cs \<Longrightarrow> \<exists>a b c d e f g rest. cs = a # b # c # d # e # f # g # rest"
  by (auto simp: numeral_eq_Suc Suc_le_length_iff)

lemma enc_loop_eq:
  assumes "src = s0 @ cs"
  shows "enc_loop src (pre @ replicate (length (enc7 0 0 cs)) 0) (length s0) (length pre) = Some (pre @ enc7 0 0 cs)"
  using assms
proof (induction "length cs" arbitrary: cs s0 pre rule: less_induct)
  case less
  consider "7 \<le> length cs" | "cs \<noteq> []" "length cs \<le> 6" | "cs = []"
    by fastforce
  then show ?case
  proof cases
    case 1
    then obtain a b c d e f g rest where cs: "cs = a # b # c # d # e # f # g # rest"
      using length_ge_7 by blast
    let ?out = "[mix7 0 0 a, mix7 1 a b, mix7 2 b c, mix7 3 c d, mix7 4 d e, mix7 5 e f, mix7 6 f g, drop_bit 1 g]"
    have "enc_loop src ((pre @ ?out) @ replicate (length (enc7 0 0 rest)) 0) (length (s0 @ [a,b,c,d,e,f,g])) (length (pre @ ?out))
      = Some ((pre @ ?out) @ enc7 0 0 rest)"
      by (rule less.hyps) (use less.prems cs in auto)
    moreover have "enc_block src (pre @ replicate (length (enc7 0 0 cs)) 0) (length s0) (length pre)
      = Some ((pre @ ?out) @ replicate (length (enc7 0 0 rest)) 0)"
      using less.prems enc_block_eq [of "length s0" src pre 0 0 0 0 0 0 0 0 "replicate (length (enc7 0 0 rest)) 0"]
      by (simp add: cs enc7_block nth_append)
    ultimately show ?thesis
      using 1 less.prems by (subst enc_loop.simps) (simp add: cs enc7_block add.commute eval_nat_numeral)
  next
    case 2
    obtain ys out where t: "enc_tail 0 src (pre @ replicate (length cs + 1) 0) (length s0) (length pre) (ucast (drop_bit 8 (0::u8)))
     = Some (pre @ ys @ replicate 1 0, length pre + length cs, ucast out)"
     "length ys = length cs" "enc7 0 0 cs = ys @ [out]"
      using enc_tail_eq [of src s0 cs "length s0" 0 pre 1 0] 2 less.prems by auto
    show ?thesis
      using 2 t less.prems
      by (subst enc_loop.simps) (auto simp: put_offset put_def list_update_append cast_drop replicate_append_same)
  next
    case 3
    then show ?thesis using less.prems by (simp add: enc_loop.simps)
  qed
qed

lemma encode8to7_eq: "encode8to7 src = Some (enc7 0 0 src)"
  using enc_loop_eq [of src "[]" src "[]"] by (simp add: encode8to7_def enc7_length mult.commute)


lemma cast_dec:
  "k \<le> 8 \<Longrightarrow> ucast ((ucast (p :: u8) :: i32) OR push_bit (8 - k) (ucast c AND (2 ^ k - 1))) = p OR push_bit (8 - k) (c :: u8)"
  unfolding mask_eq_exp_minus_1 [symmetric]
  by (rule bit_word_eqI) (auto simp: bit_simps)

lemma cast_dec_last: "ucast ((ucast (p :: u8) :: i32) OR push_bit k (ucast c)) = p OR push_bit k (c :: u8)"
  by (rule bit_word_eqI) (auto simp: bit_simps)

lemma dec_block_eq:
  assumes "j \<le> i" "i + 7 < length src"
  shows "dec_block src i j = Some (src[j := src ! i OR push_bit 7 (src ! (i + 1)),
    j + 1 := drop_bit 1 (src ! (i + 1)) OR push_bit 6 (src ! (i + 2)),
    j + 2 := drop_bit 2 (src ! (i + 2)) OR push_bit 5 (src ! (i + 3)),
    j + 3 := drop_bit 3 (src ! (i + 3)) OR push_bit 4 (src ! (i + 4)),
    j + 4 := drop_bit 4 (src ! (i + 4)) OR push_bit 3 (src ! (i + 5)),
    j + 5 := drop_bit 5 (src ! (i + 5)) OR push_bit 2 (src ! (i + 6)),
    j + 6 := drop_bit 6 (src ! (i + 6)) OR push_bit 1 (src ! (i + 7))])"
  using assms
  by (simp add: dec_block_def rd32_def idx_def put_def sar_ucast cast_dec [of 1, simplified] cast_dec [of 2, simplified] cast_dec [of 3, simplified] cast_dec [of 4, simplified] cast_dec [of 5, simplified] cast_dec [of 6, simplified] cast_dec_last [of _ 1, simplified])

lemma dec7_length: "k \<le> 7 \<Longrightarrow> length (dec7 k p cs) = (7 * length cs + (if k = 0 then 0 else 8 - k)) div 8"
proof (induction cs arbitrary: k p)
  case Nil
  then show ?case by auto
next
  case (Cons c cs)
  consider "k = 0" | "k = 7" | "1 \<le> k" "k < 7" using Cons.prems by linarith
  then show ?case
    using Cons.IH [of 1] Cons.IH [of 0 0] Cons.IH [of "Suc k" "drop_bit k c"] by cases (auto)
qed

lemma dec_tail_step:
  assumes "1 \<le> k" "k \<le> 6" "i + k < n" "n \<le> length buf" "j < length buf"
  shows "dec_tail k buf n i j (ucast p) =
    dec_tail (Suc k) (buf[j := p OR push_bit (8 - k) (buf ! (i + k))]) n i (j + 1)
      (ucast (if k = 6 then p else drop_bit k (buf ! (i + k))))"
  using assms cast_dec [of k p "buf ! (i + k)"]
  by (subst dec_tail.simps) (auto simp: rd32_def idx_def put_def sar_ucast simp del: push_bit_and)

lemma dec_tail_eq:
  assumes "1 \<le> k" "k + length cs \<le> 7" "j < i + k" "n = i + k + length cs" "n \<le> length buf"
    "take (length cs) (drop (i + k) buf) = cs"
  shows "\<exists>buf' q. dec_tail k buf n i j (ucast p) = Some (buf', j + length cs, ucast (q :: u8)) \<and>
    length buf' = length buf \<and> take (j + length cs) buf' = take j buf @ dec7 k p cs"
  using assms
proof (induction cs arbitrary: k j buf p)
  case Nil
  then show ?case by (auto simp: dec_tail.simps)
next
  case (Cons c cs)
  have c: "buf ! (i + k) = c" "take (length cs) (drop (i + Suc k) buf) = cs" "i + k < length buf"
    using Cons.prems by (auto simp: Cons_nth_drop_Suc [symmetric])
  let ?v = "p OR push_bit (8 - k) c"
  let ?q = "if k = 6 then p else drop_bit k c"
  obtain buf' q where r: "dec_tail (Suc k) (buf[j := ?v]) n i (j + 1) (ucast ?q) = Some (buf', j + 1 + length cs, ucast (q :: u8))"
    "length buf' = length buf" "take (j + 1 + length cs) buf' = take (j + 1) (buf[j := ?v]) @ dec7 (Suc k) ?q cs"
    using Cons.IH [of "Suc k" "j + 1" "buf[j := ?v]" ?q] Cons.prems c by auto
  have d: "dec7 (Suc k) ?q cs = dec7 (Suc k) (drop_bit k c) cs" if "k \<le> 6"
    using that Cons.prems by (cases cs) auto
  have t: "take (j + 1) (buf[j := ?v]) = take j buf @ [?v]"
    using Cons.prems by (simp add: take_Suc_conv_app_nth)
  show ?case
    using Cons.prems c r d t dec_tail_step [of k i n buf j p]
    by (intro exI [of _ buf'] exI [of _ q]) auto
qed

lemma dec7_block:
  "dec7 0 0 (a # b # c # d # e # f # g # h # cs) =
    [a OR push_bit 7 b, drop_bit 1 b OR push_bit 6 c, drop_bit 2 c OR push_bit 5 d, drop_bit 3 d OR push_bit 4 e,
     drop_bit 4 e OR push_bit 3 f, drop_bit 5 f OR push_bit 2 g, drop_bit 6 g OR push_bit 1 h] @ dec7 0 0 cs"
  by (simp add: eval_nat_numeral)

lemma length_ge_8: "8 \<le> length cs \<Longrightarrow> \<exists>a b c d e f g h rest. cs = a # b # c # d # e # f # g # h # rest"
  by (auto simp: numeral_eq_Suc Suc_le_length_iff)

lemma nth_of_take_drop: "take m (drop i xs) = cs \<Longrightarrow> k < length cs \<Longrightarrow> xs ! (i + k) = cs ! k"
  by auto

lemma take_updates_7:
  assumes "j + 7 \<le> length buf"
  shows "take (j + 7) (buf[j := x0, j + 1 := x1, j + 2 := x2, j + 3 := x3, j + 4 := x4, j + 5 := x5, j + 6 := x6])
    = take j buf @ [x0, x1, x2, x3, x4, x5, x6]"
proof -
  have "7 \<le> length (drop j buf)" using assms by simp
  then obtain a b c d e f g rest where "drop j buf = a # b # c # d # e # f # g # rest"
    using length_ge_7 by blast
  moreover obtain pre where "pre = take j buf" "length pre = j" using assms by simp
  ultimately have "buf = pre @ a # b # c # d # e # f # g # rest" "length pre = j"
    by (metis append_take_drop_id)+
  then show ?thesis by (auto simp: list_update_append eval_nat_numeral)
qed

lemma dec_loop_eq:
  assumes "j \<le> i" "n = i + length cs" "n \<le> length buf" "take (length cs) (drop i buf) = cs"
    "dl = j + 7 * length cs div 8"
  shows "\<exists>buf'. dec_loop buf n dl i j = Some buf' \<and> length buf' = length buf \<and>
    take dl buf' = take j buf @ dec7 0 0 cs"
  using assms
proof (induction "length cs" arbitrary: cs i j buf rule: less_induct)
  case less
  consider "8 \<le> length cs" | "cs \<noteq> []" "length cs \<le> 7" | "cs = []"
    by fastforce
  then show ?case
  proof cases
    case 1
    then obtain a b c d e f g h rest where cs: "cs = a # b # c # d # e # f # g # h # rest"
      using length_ge_8 by blast
    have nth: "buf ! (i + k) = cs ! k" if "k < 8" for k
      by (rule nth_of_take_drop [OF less.prems(4)]) (use that 1 in simp)
    let ?buf = "buf[j := a OR push_bit 7 b, j + 1 := drop_bit 1 b OR push_bit 6 c,
      j + 2 := drop_bit 2 c OR push_bit 5 d, j + 3 := drop_bit 3 d OR push_bit 4 e,
      j + 4 := drop_bit 4 e OR push_bit 3 f, j + 5 := drop_bit 5 f OR push_bit 2 g,
      j + 6 := drop_bit 6 g OR push_bit 1 h]"
    have blk: "dec_block buf i j = Some ?buf"
      using dec_block_eq [of j i buf] less.prems nth [of 0] nth [of 1] nth [of 2] nth [of 3] nth [of 4]
        nth [of 5] nth [of 6] nth [of 7] by (simp add: cs)
    have "rest = drop 8 (take (length cs) (drop i buf))"
      unfolding less.prems(4) by (simp add: cs)
    then have "take (length rest) (drop (i + 8) buf) = rest"
      by (simp add: drop_take cs add.commute)
    then have rest: "take (length rest) (drop (i + 8) ?buf) = rest"
      using less.prems(1) by simp
    have "\<exists>buf'. dec_loop ?buf n dl (i + 8) (j + 7) = Some buf' \<and> length buf' = length ?buf \<and>
      take dl buf' = take (j + 7) ?buf @ dec7 0 0 rest"
    proof (rule less.hyps [OF _ _ _ _ rest])
      show "length rest < length cs" by (simp add: cs)
      show "j + 7 \<le> i + 8" using less.prems(1) by simp
      show "n = i + 8 + length rest" using less.prems(2) by (simp add: cs)
      show "n \<le> length ?buf" using less.prems(3) by simp
      show "dl = j + 7 + 7 * length rest div 8" using less.prems(5) by (simp add: cs)
    qed
    then obtain buf' where r: "dec_loop ?buf n dl (i + 8) (j + 7) = Some buf'" "length buf' = length ?buf"
      "take dl buf' = take (j + 7) ?buf @ dec7 0 0 rest"
      by blast
    have t: "take (j + 7) ?buf = take j buf @ [a OR push_bit 7 b, drop_bit 1 b OR push_bit 6 c,
      drop_bit 2 c OR push_bit 5 d, drop_bit 3 d OR push_bit 4 e, drop_bit 4 e OR push_bit 3 f,
      drop_bit 5 f OR push_bit 2 g, drop_bit 6 g OR push_bit 1 h]"
      by (rule take_updates_7) (use less.prems in \<open>simp add: cs\<close>)
    show ?thesis
      using r t blk less.prems unfolding cs dec7_block
      by (subst dec_loop.simps) simp
  next
    case 2
    then obtain c cs' where cs: "cs = c # cs'" by (cases cs) auto
    have c: "buf ! i = c" "take (length cs') (drop (i + 1) buf) = cs'" "i < length buf"
      using less.prems by (auto simp: cs Cons_nth_drop_Suc [symmetric])
    have dl: "dl = j + length cs'" using less.prems(5) 2 by (simp add: cs)
    obtain buf' q where t: "dec_tail 1 buf n i j (ucast c) = Some (buf', j + length cs', ucast (q :: u8))"
      "length buf' = length buf" "take (j + length cs') buf' = take j buf @ dec7 1 c cs'"
      using dec_tail_eq [of 1 cs' j i n buf c] less.prems 2 c by (auto simp: cs)
    show ?thesis
      using 2 t c less.prems by (subst dec_loop.simps) (auto simp: cs dl rd32_def idx_def)
  next
    case 3
    then show ?thesis using less.prems by (simp add: dec_loop.simps)
  qed
qed

lemma decode7to8_eq:
  assumes "n \<le> length buf"
  shows "\<exists>buf'. decode7to8 buf n = Some (buf', n * 7 div 8) \<and> length buf' = length buf \<and>
    take (n * 7 div 8) buf' = dec7 0 0 (take n buf)"
  using dec_loop_eq [of 0 0 n "take n buf" buf "n * 7 div 8"] assms
  by (auto simp: decode7to8_def mult.commute min_absorb2 Let_def)

lemma regen_loop_plain:
  assumes "j \<le> i" "\<forall>b \<in> set (drop i buf). b < 0x80"
  shows "\<exists>buf' n. regen_loop buf i j = Some (buf', n) \<and> length buf' = length buf \<and>
    n = j + (length buf - i) \<and>
    take n buf' = take j buf @ map (\<lambda>b. if b = 0 then 0x7f else b - 1) (drop i buf)"
  using assms
proof (induction "length buf - i" arbitrary: i j buf)
  case 0
  then show ?case by (auto simp: regen_loop.simps)
next
  case (Suc m)
  have i: "i < length buf" "drop i buf = buf ! i # drop (Suc i) buf"
    using Suc.hyps(2) by (auto simp: Cons_nth_drop_Suc)
  let ?v = "if buf ! i = 0 then 0x7f else buf ! i - 1"
  have m: "m = length (buf[j := ?v]) - (i + 1)" using Suc.hyps(2) by simp
  have small: "buf ! i \<noteq> 0xc0"
    using Suc.prems i by auto
  obtain buf' n where r: "regen_loop (buf[j := ?v]) (i + 1) (j + 1) = Some (buf', n)" "length buf' = length buf"
    "n = j + 1 + (length buf - (i + 1))"
    "take n buf' = take (j + 1) (buf[j := ?v]) @ map (\<lambda>b. if b = 0 then 0x7f else b - 1) (drop (i + 1) buf)"
    using Suc.hyps(1) [OF m, of "j + 1"] Suc.prems i by auto
  have t: "take (j + 1) (buf[j := ?v]) = take j buf @ [?v]"
    using Suc.prems i by (simp add: take_Suc_conv_app_nth)
  have "n = j + (length buf - i)" using r(3) i(1) Suc.prems(1) by simp
  with r t i small Suc.prems show ?case
    by (subst regen_loop.simps) (auto simp: idx_def put_def)
qed

lemma small_iff: "x < 0x80 \<longleftrightarrow> x AND mask 7 = (x :: u8)"
  by (simp add: mask_eq_iff word_less_def)

lemma mix7_small: "k \<le> 7 \<Longrightarrow> 1 \<le> k \<or> p = 0 \<Longrightarrow> mix7 k p c < 0x80"
  unfolding small_iff mix7_def mask7 by (rule bit_word_eqI) (auto simp: bit_simps dest: bit_imp_le_length)

lemma drop_small: "1 \<le> k \<Longrightarrow> drop_bit k (c :: u8) < 0x80"
  unfolding small_iff by (rule bit_word_eqI) (auto simp: bit_simps dest: bit_imp_le_length)

lemma enc7_small: "k \<le> 6 \<Longrightarrow> 1 \<le> k \<or> p = 0 \<Longrightarrow> \<forall>b \<in> set (enc7 k p cs). b < 0x80"
proof (induction cs arbitrary: k p)
  case Nil
  then show ?case by (auto simp: drop_small)
next
  case (Cons c cs)
  then show ?case 
    using Cons.IH [of 0 0] Cons.IH [of "Suc k" c] mix7_small [of k p c] drop_small [of 1 c] by (cases "k = 6") auto
qed

lemma avoid_zero_small: "\<forall>b \<in> set cs. b < 0x80 \<Longrightarrow> \<forall>b \<in> set (avoid_zero cs). b < 0x80"
proof -
  have "b + 1 < 0x80" if "b < 0x80" "b \<noteq> 0x7f" for b :: u8
    using that by unat_arith
  then show "\<forall>b \<in> set cs. b < 0x80 \<Longrightarrow> \<forall>b \<in> set (avoid_zero cs). b < 0x80"
    by (auto simp: avoid_zero_def)
qed

lemma avoid_zero_inverse: "\<forall>b \<in> set cs. b < 0x80 \<Longrightarrow> map (\<lambda>b. if b = 0 then 0x7f else b - 1) (avoid_zero cs) = cs"
  by (induction cs) (auto simp: avoid_zero_def eq_neg_iff_add_eq_0 [symmetric])


lemma map_unat_of_nat: "map of_nat (map unat (bs :: bytes)) = bs"
  by (simp add: comp_def)

definition bits_lsb :: "nat \<Rightarrow> u8 \<Rightarrow> bool list" where
  "bits_lsb n w = map (bit w) [0..<n]"

lemma bits_mix7:
  "k \<le> 6 \<Longrightarrow> bits_lsb 7 (mix7 k p c) = map (bit p) [8 - k..<8] @ map (bit c) [0..<7 - k]"
  by (rule nth_equalityI) (auto simp: bits_lsb_def mix7_def mask7 bit_simps nth_append dest: bit_imp_le_length)

lemma bits_drop: "k \<le> 7 \<Longrightarrow> bits_lsb 7 (drop_bit (8 - k) p) = map (bit p) [8 - k..<8] @ replicate (7 - k) False"
  by (rule nth_equalityI) (auto simp: bits_lsb_def bit_simps nth_append dest: bit_imp_le_length)

lemma bits_split: "k \<le> 8 \<Longrightarrow> bits_lsb 8 c = map (bit c) [0..<k] @ map (bit c) [k..<8]"
  using upt_add_eq_append [of 0 k "8 - k"] by (simp add: bits_lsb_def map_append [symmetric] del: map_append)

lemma bits_enc7:
  "k \<le> 6 \<Longrightarrow> \<exists>r < 7. concat (map (bits_lsb 7) (enc7 k p cs)) =
     map (bit p) [8 - k..<8] @ concat (map (bits_lsb 8) cs) @ replicate r False"
proof (induction cs arbitrary: k p)
  case Nil
  then show ?case
    by (cases "k = 0") (auto simp: bits_drop intro: exI [of _ "7 - k"])
next
  case (Cons c cs)
  show ?case
  proof (cases "k = 6")
    case True
    then show ?thesis
      using Cons.IH [of 0 0] bits_mix7 [of 6 p c] bits_drop [of 7 c] bits_split [of 1 c] by auto
  next
    case False
    then show ?thesis
      using Cons.IH [of "Suc k" c] Cons.prems bits_mix7 [of k p c] bits_split [of "7 - k" c] by auto
  qed
qed

lemma regen_loop_total:
  assumes "j \<le> i" "i \<le> length buf"
  shows "\<exists>buf' n. regen_loop buf i j = Some (buf', n) \<and> length buf' = length buf \<and> n \<le> length buf"
  using assms
proof (induction "length buf - i" arbitrary: i j buf rule: less_induct)
  case less
  show ?case
  proof (cases "i < length buf")
    case False
    with less.prems show ?thesis by (simp add: regen_loop.simps)
  next
    case True
    then have step: "\<exists>buf' n. regen_loop (buf[j := v]) (i + d) (j + 1) = Some (buf', n) \<and>
        length buf' = length buf \<and> n \<le> length buf" if "1 \<le> d" "i + d \<le> length buf" for v d
      using less.hyps [of "buf[j := v]" "i + d" "j + 1"] less.prems that by auto
    show ?thesis
      using True less.prems step [of 1] step [of 2]
      by (subst regen_loop.simps) (auto simp: idx_def put_def)
  qed
qed

lemma decode_annotation_bounded: "\<exists>bs. decode_annotation_string s = Some bs \<and> length bs \<le> length s"
proof -
  obtain buf n where r: "regenerate_zero (map of_nat s) = Some (buf, n)" "length buf = length s" "n \<le> length s"
    using regen_loop_total [of 0 0 "map of_nat s"] by (auto simp: regenerate_zero_def)
  obtain buf' where d: "decode7to8 buf n = Some (buf', n * 7 div 8)" "length buf' = length buf"
    using decode7to8_eq [of n buf] r by auto
  have "n * 7 div 8 \<le> length s" using r by simp
  with r d show ?thesis by (simp add: decode_annotation_string_def)
qed

section \<open>Properties\<close>

text \<open>
  C8: \<open>encode8to7\<close> never indexes out of range, and its output is the input's bit stream, least
  significant bit first, cut into seven-bit groups and padded with fewer than seven zero bits; every
  byte it writes is below \<open>0x80\<close> and it writes \<open>ceil (8 n / 7)\<close> of them.
\<close>

theorem encode8to7_bit_stream:
  "\<exists>dst r. encode8to7 src = Some dst \<and> r < 7 \<and>
     concat (map (bits_lsb 7) dst) = concat (map (bits_lsb 8) src) @ replicate r False \<and>
     list_all (\<lambda>b. b < 0x80) dst \<and> length dst = (8 * length src + 6) div 7"
  using bits_enc7 [of 0 0 src] enc7_small [of 0 0 src] enc7_length [of 0 0 src]
  by (auto simp: encode8to7_eq list_all_iff)

lemma decode_encode:
  "\<exists>s. encode_to_annotation_string src = Some s \<and> decode_annotation_string s = Some src"
proof -
  let ?e = "avoid_zero (enc7 0 0 src)"
  have small: "\<forall>b \<in> set (enc7 0 0 src). b < 0x80" by (rule enc7_small) auto
  have e: "encode_to_annotation_string src = Some (map unat ?e)"
    by (simp add: encode_to_annotation_string_def encode_bytes_def encode8to7_eq)
  obtain buf where buf: "regenerate_zero ?e = Some (buf, length ?e)" "length buf = length ?e" "buf = enc7 0 0 src"
    using regen_loop_plain [of 0 0 ?e] avoid_zero_small [OF small] avoid_zero_inverse [OF small]
    by (auto simp: regenerate_zero_def)
  obtain buf' where b: "decode7to8 buf (length ?e) = Some (buf', length ?e * 7 div 8)" "length buf' = length buf"
    "take (length ?e * 7 div 8) buf' = src"
    using decode7to8_eq [of "length ?e" buf] dec7_enc7 [of 0 0 src] buf by auto
  have "length ?e * 7 div 8 \<le> length buf'" using b buf by simp
  with e b buf show ?thesis
    by (simp add: decode_annotation_string_def map_unat_of_nat min_absorb1 del: map_map)
qed

lemma encode_ascii: "encode_to_annotation_string src = Some s \<Longrightarrow> list_all (\<lambda>c. c < 0x80) s"
  using avoid_zero_small [of "enc7 0 0 src"] enc7_small [of 0 0 src]
  by (auto simp: encode_to_annotation_string_def encode_bytes_def encode8to7_eq list_all_iff word_less_nat_alt)

text \<open>
  C2: what \<open>encode_to_annotation_string\<close> writes into the annotation, \<open>decode_annotation_string\<close>
  reads back: both functions return for every byte string (no index is ever out of range) and the
  pickle survives the eight-to-seven recoding, the zero avoidance and the in-place decoder.
\<close>

theorem annotation_roundtrip:
  "\<exists>s. encode_to_annotation_string src = Some s \<and> decode_annotation_string s = Some src"
  by (rule decode_encode)

text \<open>
  C9: decoding is total: for every annotation string, also one no encoder wrote, the in-place
  passes stay inside their buffer and return.
\<close>

theorem decode_annotation_string_total:
  "\<exists>bs. decode_annotation_string s = Some bs \<and> length bs \<le> length s"
  by (rule decode_annotation_bounded)

end
