(* ===== verification/Names.thy ===== *)
theory Names
  imports JavaParts
begin

text \<open>
  \<open>crates/pickle/src/names.rs\<close>: Scala's \<open>NameTransformer\<close>.  \<open>encode_method_name\<close> makes an
  operator name a JVM identifier, \<open>decode_method_name\<close> undoes it, and \<open>nested_to_dotted\<close> turns
  the dollars that nesting introduced into dots.  A slice \<open>&s[n..]\<close> panics inside a character:
  the operations that slice return an option, \<open>None\<close> for the panic.
\<close>

section \<open>The operator table\<close>

definition OPERATORS :: "(rchar \<times> str) list" where
  "OPERATORS =
    [(chr CHR ''~'', lit ''$tilde''),
     (chr CHR ''='', lit ''$eq''),
     (chr CHR ''<'', lit ''$less''),
     (chr CHR ''>'', lit ''$greater''),
     (chr CHR ''!'', lit ''$bang''),
     (chr CHR ''#'', lit ''$hash''),
     (chr CHR ''%'', lit ''$percent''),
     (chr CHR ''^'', lit ''$up''),
     (chr CHR ''&'', lit ''$amp''),
     (chr CHR ''|'', lit ''$bar''),
     (chr CHR ''*'', lit ''$times''),
     (chr CHR ''/'', lit ''$div''),
     (chr CHR ''+'', lit ''$plus''),
     (chr CHR ''-'', lit ''$minus''),
     (chr CHR '':'', lit ''$colon''),
     (chr CHR 0x5C, lit ''$bslash''),
     (chr CHR ''?'', lit ''$qmark''),
     (chr CHR ''@'', lit ''$at'')]"

section \<open>Encoding\<close>

text \<open>\<open>{unit:04X}\<close> of a \<open>u16\<close>, and \<open>char::encode_utf16\<close>.\<close>

definition hex_upper :: "nat \<Rightarrow> rchar" where
  "hex_upper d = (if d < 10 then 0x30 + d else 0x41 + (d - 10))"

definition fmt_04X :: "nat \<Rightarrow> str" where
  "fmt_04X u = [hex_upper (u div 4096), hex_upper (u div 256 mod 16), hex_upper (u div 16 mod 16), hex_upper (u mod 16)]"

definition encode_utf16 :: "rchar \<Rightarrow> nat list" where
  "encode_utf16 c =
     (if c < 0x10000 then [c]
      else [0xD800 + (c - 0x10000) div 1024, 0xDC00 + (c - 0x10000) mod 1024])"

definition encode_char :: "rchar \<Rightarrow> str" where
  "encode_char c =
     (case find (\<lambda>(ch, _). ch = c) OPERATORS of
        Some (_, code) \<Rightarrow> code
      | None \<Rightarrow>
          if is_java_identifier_part c then [c]
          else concat (map (\<lambda>unit. lit ''$u'' @ fmt_04X unit) (encode_utf16 c)))"

definition encode_method_name :: "str \<Rightarrow> str" where
  "encode_method_name name =
     (if name = lit ''<init>'' \<or> name = lit ''<clinit>'' then name
      else if list_all (\<lambda>c. is_ascii_alphanumeric c \<or> c = chr CHR ''_'' \<or> c = chr CHR ''$'') name then name
      else concat (map encode_char name))"

section \<open>Decoding\<close>

definition escape_unit :: "str \<Rightarrow> nat option" where
  "escape_unit s = do {
     rest \<leftarrow> strip_prefix (lit ''$u'') s;
     (hex, _) \<leftarrow> split_bytes 4 rest;
     (if is_ascii_digit (hd hex) \<or> (chr CHR ''A'' \<le> hd hex \<and> hd hex \<le> chr CHR ''F'')
      then from_hex 0xFFFF hex else None)
   }"

text \<open>The character of a high and a low surrogate, with the length of both escapes.\<close>

definition surrogate_pair :: "nat \<Rightarrow> nat \<Rightarrow> (rchar \<times> nat) option" where
  "surrogate_pair first second =
     (if 0xD800 \<le> first \<and> first \<le> 0xDBFF \<and> 0xDC00 \<le> second \<and> second \<le> 0xDFFF then do {
        c \<leftarrow> char_from_u32 (0x10000 + ((first - 0xD800) * 1024 + (second - 0xDC00)));
        Some (c, 12)
      } else None)"

definition decode_unicode_escape :: "str \<Rightarrow> (rchar \<times> nat) option" where
  "decode_unicode_escape s = do {
     first \<leftarrow> escape_unit s;
     (case char_from_u32 first of
        Some c \<Rightarrow> Some (c, 6)
      | None \<Rightarrow> do {
          (_, rest) \<leftarrow> split_bytes 6 s;
          second \<leftarrow> escape_unit rest;
          surrogate_pair first second
        })
   }"

text \<open>The expression both scanners test at the head of what is left.\<close>

definition encoded_chunk :: "str \<Rightarrow> (rchar \<times> nat) option" where
  "encoded_chunk rest =
     (case decode_unicode_escape rest of
        Some r \<Rightarrow> Some r
      | None \<Rightarrow>
          map_option (\<lambda>(c, code). (c, str_len code)) (find (\<lambda>(c, code). starts_with rest code) OPERATORS))"

lemma split_bytes_append [simp]: "split_bytes (str_len a) (a @ b) = Some (a, b)"
  by (simp add: split_bytes_Some)

text \<open>An escape or an operator code is a nonempty prefix that ends between two characters.\<close>

lemma escape_unit_Some:
  "escape_unit s = Some u \<Longrightarrow>
    \<exists>hex b. s = lit ''$u'' @ hex @ b \<and> str_len hex = 4 \<and> from_hex 0xFFFF hex = Some u \<and>
      (is_ascii_digit (hd hex) \<or> (chr CHR ''A'' \<le> hd hex \<and> hd hex \<le> chr CHR ''F''))"
  by (auto simp: escape_unit_def Option.bind_eq_Some_conv strip_prefix_Some split_bytes_Some
      split: if_splits)

lemma decode_unicode_escape_prefix:
  "decode_unicode_escape s = Some (c, n) \<Longrightarrow> \<exists>a b. s = a @ b \<and> str_len a = n \<and> a \<noteq> []"
proof -
  assume s: "decode_unicode_escape s = Some (c, n)"
  then obtain u where u: "escape_unit s = Some u"
    by (auto simp: decode_unicode_escape_def Option.bind_eq_Some_conv)
  then obtain hex b where h: "s = lit ''$u'' @ hex @ b" "str_len hex = 4"
    by (blast dest: escape_unit_Some)
  show ?thesis
  proof (cases "char_from_u32 u")
    case (Some d)
    with s u h show ?thesis
      by (intro exI [of _ "lit ''$u'' @ hex"] exI [of _ b]) (auto simp: decode_unicode_escape_def len_utf8_def)
  next
    case None
    have "split_bytes 6 s = Some (lit ''$u'' @ hex, b)"
      using h by (simp add: split_bytes_Some len_utf8_def)
    with None s u obtain v where v: "escape_unit b = Some v" "n = 12"
      by (auto simp: decode_unicode_escape_def surrogate_pair_def Option.bind_eq_Some_conv split: if_splits)
    then obtain hex' b' where h': "b = lit ''$u'' @ hex' @ b'" "str_len hex' = 4"
      by (blast dest: escape_unit_Some)
    with h v show ?thesis
      by (intro exI [of _ "lit ''$u'' @ hex @ lit ''$u'' @ hex'"] exI [of _ b']) (auto simp: len_utf8_def)
  qed
qed

lemma operator_codes:
  "list_all (\<lambda>(c, code). \<exists>d ds. code = 0x24 # d # ds) OPERATORS"
  by (simp add: OPERATORS_def)

lemma encoded_chunk_prefix:
  "encoded_chunk s = Some (c, n) \<Longrightarrow> \<exists>a b. s = a @ b \<and> str_len a = n \<and> a \<noteq> []"
proof (cases "decode_unicode_escape s")
  case None
  assume "encoded_chunk s = Some (c, n)"
  with None obtain code where code: "(c, code) \<in> set OPERATORS" "starts_with s code" "n = str_len code"
    by (auto simp: encoded_chunk_def find_Some_iff dest!: nth_mem)
  then have "code \<noteq> []" using operator_codes by (auto simp: list_all_iff)
  with code show ?thesis by (auto simp: strip_prefix_Some)
next
  case (Some p)
  assume "encoded_chunk s = Some (c, n)"
  with Some show ?thesis by (auto simp: encoded_chunk_def dest: decode_unicode_escape_prefix)
qed

lemma chunk_split_shorter:
  "encoded_chunk s = Some (c, n) \<Longrightarrow> split_bytes n s = Some (a, b) \<Longrightarrow> length b < length s"
  using encoded_chunk_prefix [of s c n] by (auto simp: split_bytes_Some)

function decode_loop :: "str \<Rightarrow> str option" where
  "decode_loop rest =
     (case rest of
        [] \<Rightarrow> Some []
      | c # cs \<Rightarrow>
          (case encoded_chunk rest of
             Some (d, n) \<Rightarrow>
               (case split_bytes n rest of
                  None \<Rightarrow> None
                | Some (_, rest') \<Rightarrow> map_option ((#) d) (decode_loop rest'))
           | None \<Rightarrow> map_option ((#) c) (decode_loop cs)))"
  by pat_completeness auto
termination
  by (relation "measure length") (auto simp del: split_bytes.simps dest: chunk_split_shorter)

declare decode_loop.simps [simp del]

definition decode_method_name :: "str \<Rightarrow> str option" where
  "decode_method_name name = (if chr CHR ''$'' \<notin> set name then Some name else decode_loop name)"

section \<open>Nesting separators\<close>

text \<open>\<open>separator_loop\<close> is the loop of \<open>last_nesting_separator\<close> at byte \<open>offset\<close>, with \<open>rest\<close> left.\<close>

function separator_loop :: "nat option \<Rightarrow> nat \<Rightarrow> str \<Rightarrow> nat option option" where
  "separator_loop sep offset rest =
     (case rest of
        [] \<Rightarrow> Some sep
      | c # cs \<Rightarrow>
          (case encoded_chunk rest of
             Some (_, n) \<Rightarrow>
               (case split_bytes n rest of
                  None \<Rightarrow> None
                | Some (_, rest') \<Rightarrow> separator_loop sep (offset + n) rest')
           | None \<Rightarrow>
               separator_loop (if c = chr CHR ''$'' then Some offset else sep) (offset + len_utf8 c) cs))"
  by pat_completeness auto
termination
  by (relation "measure (\<lambda>(sep, offset, rest). length rest)")
     (auto simp del: split_bytes.simps dest: chunk_split_shorter)

declare separator_loop.simps [simp del]

definition last_nesting_separator :: "str \<Rightarrow> nat option option" where
  "last_nesting_separator name = separator_loop None 0 name"

lemma separator_loop_bound:
  "separator_loop sep offset rest = Some (Some i) \<Longrightarrow> sep = Some i \<or> (offset \<le> i \<and> i < offset + str_len rest)"
proof (induction sep offset rest rule: separator_loop.induct)
  case (1 sep offset rest)
  show ?case
  proof (cases rest)
    case Nil
    with 1 show ?thesis by (simp add: separator_loop.simps)
  next
    case (Cons c cs)
    show ?thesis
    proof (cases "encoded_chunk rest")
      case None
      have "separator_loop sep offset rest =
          separator_loop (if c = chr CHR ''$'' then Some offset else sep) (offset + len_utf8 c) cs"
        using Cons None by (subst separator_loop.simps) simp
      with 1(1) [OF Cons None] 1(3) Cons show ?thesis
        using len_utf8_pos [of c] by (auto split: if_splits)
    next
      case (Some p)
      then obtain d n where p: "encoded_chunk rest = Some (d, n)" by (cases p) auto
      obtain a b where ab: "rest = a @ b" "str_len a = n" using encoded_chunk_prefix [OF p] by auto
      then have s: "split_bytes n rest = Some (a, b)" by auto
      have "separator_loop sep offset rest = separator_loop sep (offset + n) b"
        using Cons p s by (subst separator_loop.simps) simp
      with 1(2) [OF Cons p refl s refl] 1(3) ab show ?thesis by auto
    qed
  qed
qed

text \<open>\<open>replace_range(i..i + 1, ".")\<close>\<close>

definition replace_byte :: "nat \<Rightarrow> str \<Rightarrow> str option" where
  "replace_byte i s = do {
     (a, b) \<leftarrow> split_bytes i s;
     (_, c) \<leftarrow> split_bytes 1 b;
     Some (a @ lit ''.'' @ c)
   }"

text \<open>The loop of \<open>nested_to_dotted\<close>: \<open>out\<close> is the string, \<open>end\<close> the bytes still to be examined.\<close>

function nested_loop :: "str \<Rightarrow> nat \<Rightarrow> str option" where
  "nested_loop out end =
     (case split_bytes end out of
        None \<Rightarrow> None
      | Some (pre, _) \<Rightarrow>
          (case last_nesting_separator pre of
             None \<Rightarrow> None
           | Some None \<Rightarrow> Some out
           | Some (Some i) \<Rightarrow>
               (case replace_byte i out of None \<Rightarrow> None | Some out \<Rightarrow> nested_loop out i)))"
  by pat_completeness auto
termination
  by (relation "measure snd") (auto simp: split_bytes_Some last_nesting_separator_def dest!: separator_loop_bound)

declare nested_loop.simps [simp del]

definition nested_to_dotted :: "str \<Rightarrow> str option" where
  "nested_to_dotted name = nested_loop name (str_len name)"

section \<open>Decoding what encoding wrote\<close>

lemma hex_digit_upper: "d < 16 \<Longrightarrow> hex_digit (hex_upper d) = Some d"
  by (auto simp: hex_digit_def hex_upper_def)

lemma hex_upper_first: "d < 16 \<Longrightarrow> is_ascii_digit (hex_upper d) \<or> (0x41 \<le> hex_upper d \<and> hex_upper d \<le> 0x46)"
  by (auto simp: is_ascii_digit_def hex_upper_def)

lemma hex_upper_ascii: "d < 16 \<Longrightarrow> hex_upper d < 0x80 \<and> hex_upper d \<noteq> 0x2B"
  by (auto simp: hex_upper_def)

lemma from_hex_digits:
  assumes "a < 16" "b < 16" "c < 16" "d < 16"
  shows "from_hex 0xFFFF [hex_upper a, hex_upper b, hex_upper c, hex_upper d] =
    Some (((a * 16 + b) * 16 + c) * 16 + d)"
proof -
  have "hex_upper a \<noteq> 0x2B" using hex_upper_ascii [OF assms(1)] by simp
  moreover have "\<not> 0xFFFF < a * 16 + b" "\<not> 0xFFFF < (a * 16 + b) * 16 + c" "\<not> 0xFFFF < ((a * 16 + b) * 16 + c) * 16 + d"
    using assms by simp_all
  ultimately show ?thesis
    using assms by (simp add: from_hex_def hex_digit_upper)
qed

lemma from_hex_fmt: "u < 0x10000 \<Longrightarrow> from_hex 0xFFFF (fmt_04X u) = Some u"
proof -
  assume u: "u < 0x10000"
  have "(u div 4096 * 16 + u div 256 mod 16) = u div 256" "u div 256 * 16 + u div 16 mod 16 = u div 16"
    "u div 16 * 16 + u mod 16 = u"
    using div_mult_mod_eq [of "u div 256" 16] div_mult_mod_eq [of "u div 16" 16] div_mult_mod_eq [of u 16]
    by (simp_all add: div_mult2_eq [symmetric])
  moreover have "u div 4096 < 16" using u by simp
  ultimately show ?thesis
    using from_hex_digits [of "u div 4096" "u div 256 mod 16" "u div 16 mod 16" "u mod 16"]
    by (simp only: fmt_04X_def mod_less_divisor zero_less_numeral)
qed

lemma fmt_len: "u < 0x10000 \<Longrightarrow> str_len (fmt_04X u) = 4"
proof -
  assume u: "u < 0x10000"
  then have d: "u div 4096 < 16" by simp
  show ?thesis
    using hex_upper_ascii [OF d] hex_upper_ascii [of "u div 256 mod 16"] hex_upper_ascii [of "u div 16 mod 16"]
      hex_upper_ascii [of "u mod 16"] by (simp add: fmt_04X_def len_utf8_def)
qed

lemma escape_unit_fmt: "u < 0x10000 \<Longrightarrow> escape_unit (0x24 # 0x75 # fmt_04X u @ b) = Some u"
proof -
  assume u: "u < 0x10000"
  then have d: "u div 4096 < 16" by simp
  have "split_bytes 4 (fmt_04X u @ b) = Some (fmt_04X u, b)"
    using fmt_len [OF u] by (simp add: split_bytes_Some)
  moreover have "hd (fmt_04X u) = hex_upper (u div 4096)" by (simp add: fmt_04X_def)
  ultimately show ?thesis
    using hex_upper_first [OF d] from_hex_fmt [OF u] by (auto simp: escape_unit_def)
qed

lemma decode_escaped:
  assumes "is_scalar c"
  shows "decode_unicode_escape (concat (map (\<lambda>unit. lit ''$u'' @ fmt_04X unit) (encode_utf16 c)) @ b) =
    Some (c, str_len (concat (map (\<lambda>unit. lit ''$u'' @ fmt_04X unit) (encode_utf16 c))))"
proof (cases "c < 0x10000")
  case True
  with assms fmt_len [of c] show ?thesis
    by (simp add: decode_unicode_escape_def escape_unit_fmt encode_utf16_def char_from_u32_def len_utf8_def)
next
  case False
  define hi lo where "hi = 0xD800 + (c - 0x10000) div 1024" and "lo = 0xDC00 + (c - 0x10000) mod 1024"
  have "c - 0x10000 < 1024 * 1024" using assms by (auto simp: is_scalar_def)
  then have "(c - 0x10000) div 1024 < 1024" by (rule less_mult_imp_div_less)
  then have r: "0xD800 \<le> hi" "hi \<le> 0xDBFF" "0xDC00 \<le> lo" "lo \<le> 0xDFFF" "hi < 0x10000" "lo < 0x10000"
    by (auto simp: hi_def lo_def)
  have "0x10000 + ((hi - 0xD800) * 1024 + (lo - 0xDC00)) = c"
    using False by (simp add: hi_def lo_def)
  moreover have "split_bytes 6 (0x24 # 0x75 # fmt_04X hi @ 0x24 # 0x75 # fmt_04X lo @ b) =
      Some (0x24 # 0x75 # fmt_04X hi, 0x24 # 0x75 # fmt_04X lo @ b)"
    using fmt_len [OF r(5)] by (simp add: split_bytes_Some len_utf8_def)
  moreover have "\<not> is_scalar hi" using r by (simp add: is_scalar_def)
  ultimately show ?thesis
    using False assms r fmt_len [OF r(5)] fmt_len [OF r(6)]
    by (simp add: decode_unicode_escape_def surrogate_pair_def encode_utf16_def char_from_u32_def escape_unit_fmt
        hi_def [symmetric] lo_def [symmetric] len_utf8_def del: split_bytes.simps)
qed

lemma no_escape: "c \<noteq> 0x24 \<or> d \<noteq> 0x75 \<Longrightarrow> escape_unit (c # d # s) = None"
  by (auto simp: escape_unit_def)

lemma up_no_escape: "escape_unit (0x24 # 0x75 # 0x70 # s) = None"
proof (rule ccontr)
  assume "escape_unit (0x24 # 0x75 # 0x70 # s) \<noteq> None"
  then obtain hex b where h: "0x70 # s = hex @ b" "str_len hex = 4"
      "is_ascii_digit (hd hex) \<or> (0x41 \<le> hd hex \<and> hd hex \<le> 0x46)"
    by (auto dest!: escape_unit_Some)
  then have "hd hex = 0x70" by (cases hex) auto
  with h show False by (simp add: is_ascii_digit_def)
qed

lemma OPERATORS_nums: "OPERATORS =
   [(126, [36, 116, 105, 108, 100, 101]),
    (61, [36, 101, 113]),
    (60, [36, 108, 101, 115, 115]),
    (62, [36, 103, 114, 101, 97, 116, 101, 114]),
    (33, [36, 98, 97, 110, 103]),
    (35, [36, 104, 97, 115, 104]),
    (37, [36, 112, 101, 114, 99, 101, 110, 116]),
    (94, [36, 117, 112]),
    (38, [36, 97, 109, 112]),
    (124, [36, 98, 97, 114]),
    (42, [36, 116, 105, 109, 101, 115]),
    (47, [36, 100, 105, 118]),
    (43, [36, 112, 108, 117, 115]),
    (45, [36, 109, 105, 110, 117, 115]),
    (58, [36, 99, 111, 108, 111, 110]),
    (92, [36, 98, 115, 108, 97, 115, 104]),
    (63, [36, 113, 109, 97, 114, 107]),
    (64, [36, 97, 116])]"
  by (simp add: OPERATORS_def)

lemma operator_no_escape:
  "(c, code) \<in> set OPERATORS \<Longrightarrow> escape_unit (code @ b) = None"
  by (auto simp: OPERATORS_nums no_escape up_no_escape)

text \<open>No code of the table is a prefix of another, so the first match is the code that was written.\<close>

fun prefix_free :: "(rchar \<times> str) list \<Rightarrow> bool" where
  "prefix_free [] = True"
| "prefix_free ((c, p) # ps) =
     (list_all (\<lambda>(_, q). strip_prefix p q = None \<and> strip_prefix q p = None) ps \<and> prefix_free ps)"

lemma prefix_free_OPERATORS: "prefix_free OPERATORS"
  by (simp add: OPERATORS_nums)

lemma strip_prefix_clash:
  "strip_prefix p q = None \<Longrightarrow> strip_prefix q p = None \<Longrightarrow> strip_prefix p (q @ b) = None"
  by (rule ccontr) (auto simp: strip_prefix_Some append_eq_append_conv2 simp flip: not_Some_eq)

lemma prefix_free_find:
  "prefix_free ps \<Longrightarrow> (c, p) \<in> set ps \<Longrightarrow> find (\<lambda>(c, q). starts_with (p @ b) q) ps = Some (c, p)"
proof (induction ps)
  case (Cons x ps)
  obtain d q where x: "x = (d, q)" by (cases x)
  show ?case
  proof (cases "(c, p) = x")
    case True
    have "strip_prefix p (p @ b) = Some b" by (simp add: strip_prefix_Some)
    with True show ?thesis by auto
  next
    case False
    with Cons.prems x have "strip_prefix q (p @ b) = None"
      by (auto simp: list_all_iff intro!: strip_prefix_clash)
    with Cons False x show ?thesis by (auto simp del: not_None_eq)
  qed
qed simp

lemma operator_found:
  "(c, code) \<in> set OPERATORS \<Longrightarrow> find (\<lambda>(c, code'). starts_with (code @ b) code') OPERATORS = Some (c, code)"
  by (rule prefix_free_find [OF prefix_free_OPERATORS])

lemma encoded_chunk_operator:
  "(c, code) \<in> set OPERATORS \<Longrightarrow> encoded_chunk (code @ b) = Some (c, str_len code)"
  by (simp add: encoded_chunk_def decode_unicode_escape_def operator_no_escape operator_found del: not_None_eq)

lemma encoded_chunk_plain: "c \<noteq> 0x24 \<Longrightarrow> encoded_chunk (c # b) = None"
  using operator_codes
  by (auto simp: encoded_chunk_def decode_unicode_escape_def escape_unit_def find_None_iff list_all_iff)

lemma decode_loop_Nil [simp]: "decode_loop [] = Some []"
  by (simp add: decode_loop.simps)

lemma decode_loop_chunk:
  assumes "encoded_chunk (a @ b) = Some (c, str_len a)" "a \<noteq> []"
  shows "decode_loop (a @ b) = map_option ((#) c) (decode_loop b)"
proof -
  obtain x y where "a @ b = x # y" using assms(2) by (cases a) auto
  then show ?thesis
    using assms(1) split_bytes_append [of a b] by (subst decode_loop.simps) (simp del: split_bytes.simps)
qed

lemma decode_loop_plain: "c \<noteq> 0x24 \<Longrightarrow> decode_loop (c # b) = map_option ((#) c) (decode_loop b)"
  by (subst decode_loop.simps) (simp add: encoded_chunk_plain)

lemma decode_loop_dollar_free: "0x24 \<notin> set s \<Longrightarrow> decode_loop s = Some s"
  by (induction s) (auto simp: decode_loop_plain)

lemma find_Some_mem: "find (\<lambda>(ch, _). ch = c) ps = Some (d, x) \<Longrightarrow> d = c \<and> (c, x) \<in> set ps"
  by (auto simp: find_Some_iff dest!: nth_mem)

lemma decode_loop_encode_char:
  assumes "is_scalar c" "c \<noteq> 0x24"
  shows "decode_loop (encode_char c @ b) = map_option ((#) c) (decode_loop b)"
proof (cases "find (\<lambda>(ch, _). ch = c) OPERATORS")
  case None
  show ?thesis
  proof (cases "is_java_identifier_part c")
    case True
    with None assms show ?thesis by (simp add: encode_char_def decode_loop_plain)
  next
    case False
    let ?e = "concat (map (\<lambda>unit. lit ''$u'' @ fmt_04X unit) (encode_utf16 c))"
    have "encode_char c = ?e" using None False by (simp add: encode_char_def)
    moreover have "encoded_chunk (?e @ b) = Some (c, str_len ?e)"
      using decode_escaped [OF assms(1), of b] by (simp add: encoded_chunk_def)
    moreover have "?e \<noteq> []" by (simp add: encode_utf16_def)
    ultimately show ?thesis by (metis decode_loop_chunk)
  qed
next
  case (Some p)
  then obtain d code where p: "p = (d, code)" by (cases p)
  have code: "(c, code) \<in> set OPERATORS" "encode_char c = code"
    using Some p find_Some_mem [OF Some [unfolded p]] by (simp_all add: encode_char_def)
  then have "code \<noteq> []" using operator_codes by (auto simp: list_all_iff)
  with code show ?thesis
    by (simp add: decode_loop_chunk encoded_chunk_operator)
qed

lemma decode_loop_encode:
  "list_all is_scalar s \<Longrightarrow> 0x24 \<notin> set s \<Longrightarrow> decode_loop (concat (map encode_char s)) = Some s"
  by (induction s) (auto simp: decode_loop_encode_char)

lemma decode_method_name_eq: "decode_method_name s = decode_loop s"
  by (simp add: decode_method_name_def decode_loop_dollar_free)

section \<open>Encoded names are identifiers\<close>

lemma ascii_ranges:
  "take 8 JAVA_IDENTIFIER_PARTS =
    [(0x00, 0x08), (0x0E, 0x1B), (0x24, 0x24), (0x30, 0x39), (0x41, 0x5A), (0x5F, 0x5F), (0x61, 0x7A), (0x7F, 0x9F)]"
  by (simp add: JAVA_IDENTIFIER_PARTS_def)

lemma ranges_ok_low: "ranges_ok b rs \<Longrightarrow> (lo, hi) \<in> set rs \<Longrightarrow> b \<le> lo"
  by (induction b rs rule: ranges_ok.induct) fastforce+

lemma later_ranges: "(lo, hi) \<in> set (drop 8 JAVA_IDENTIFIER_PARTS) \<Longrightarrow> 0x80 \<le> lo"
  by (rule ranges_ok_low [where rs = "drop 8 JAVA_IDENTIFIER_PARTS"]) (simp_all add: JAVA_IDENTIFIER_PARTS_def)

lemma ascii_identifier_part:
  assumes "c < 0x80"
  shows "is_java_identifier_part c \<longleftrightarrow> c \<le> 8 \<or> (0x0E \<le> c \<and> c \<le> 0x1B) \<or> c = 0x24 \<or> c = 0x5F \<or> c = 0x7F \<or>
    is_ascii_alphanumeric c"
proof -
  have "set JAVA_IDENTIFIER_PARTS = set (take 8 JAVA_IDENTIFIER_PARTS) \<union> set (drop 8 JAVA_IDENTIFIER_PARTS)"
    by (metis append_take_drop_id set_append)
  moreover have "\<not> (\<exists>(lo, hi) \<in> set (drop 8 JAVA_IDENTIFIER_PARTS). lo \<le> c \<and> c \<le> hi)"
    using assms by (auto dest!: later_ranges)
  ultimately show ?thesis
    using assms
    by (auto simp: java_identifier_part_iff ascii_ranges is_ascii_alphanumeric_def is_ascii_digit_def is_ascii_alphabetic_def)
qed

lemma plain_identifier_part:
  "is_ascii_alphanumeric c \<or> c = 0x5F \<or> c = 0x24 \<Longrightarrow> is_java_identifier_part c"
  by (subst ascii_identifier_part) (auto simp: is_ascii_alphanumeric_def is_ascii_digit_def is_ascii_alphabetic_def)

lemma operator_not_identifier: "(c, code) \<in> set OPERATORS \<Longrightarrow> \<not> is_java_identifier_part c"
  by (subst ascii_identifier_part)
     (auto simp: OPERATORS_nums is_ascii_alphanumeric_def is_ascii_digit_def is_ascii_alphabetic_def)

lemma codes_identifiers: "(c, code) \<in> set OPERATORS \<Longrightarrow> list_all is_java_identifier_part code"
proof -
  have "list_all (\<lambda>(c, code). list_all (\<lambda>d. is_ascii_alphanumeric d \<or> d = 0x5F \<or> d = 0x24) code) OPERATORS"
    by (simp add: OPERATORS_nums is_ascii_alphanumeric_def is_ascii_digit_def is_ascii_alphabetic_def)
  then show "(c, code) \<in> set OPERATORS \<Longrightarrow> list_all is_java_identifier_part code"
    by (auto simp: list_all_iff intro!: plain_identifier_part)
qed

lemma hex_upper_identifier: "d < 16 \<Longrightarrow> is_java_identifier_part (hex_upper d)"
  by (rule plain_identifier_part)
     (auto simp: hex_upper_def is_ascii_alphanumeric_def is_ascii_digit_def is_ascii_alphabetic_def)

lemma fmt_identifier: "u < 0x10000 \<Longrightarrow> list_all is_java_identifier_part (fmt_04X u)"
  using hex_upper_identifier [of "u div 4096"]
  by (simp add: fmt_04X_def hex_upper_identifier)

lemma encode_utf16_units: "is_scalar c \<Longrightarrow> u \<in> set (encode_utf16 c) \<Longrightarrow> u < 0x10000"
proof -
  assume "is_scalar c" and u: "u \<in> set (encode_utf16 c)"
  then have "c - 0x10000 < 1024 * 1024" by (auto simp: is_scalar_def)
  then have "(c - 0x10000) div 1024 < 1024" by (rule less_mult_imp_div_less)
  with u show ?thesis by (auto simp: encode_utf16_def split: if_splits)
qed

lemma encode_char_identifier: "is_scalar c \<Longrightarrow> list_all is_java_identifier_part (encode_char c)"
  using encode_utf16_units [of c] fmt_identifier codes_identifiers
    plain_identifier_part [where c = "0x24"] plain_identifier_part [where c = "0x75"]
  by (auto simp: encode_char_def is_ascii_alphanumeric_def is_ascii_alphabetic_def list_all_iff split: option.splits dest!: find_Some_mem)

lemma encode_char_identity: "is_java_identifier_part c \<Longrightarrow> encode_char c = [c]"
  by (auto simp: encode_char_def operator_not_identifier split: option.splits dest!: find_Some_mem)

lemma encode_identity: "list_all is_java_identifier_part s \<Longrightarrow> concat (map encode_char s) = s"
  by (induction s) (auto simp: encode_char_identity)

section \<open>Tokens of a class name\<close>

text \<open>The scan both loops make, as a list of the pieces it steps over.\<close>

function tokens :: "str \<Rightarrow> str list" where
  "tokens s =
     (case s of
        [] \<Rightarrow> []
      | c # cs \<Rightarrow>
          (case encoded_chunk s of
             None \<Rightarrow> [c] # tokens cs
           | Some (_, n) \<Rightarrow> (case split_bytes n s of None \<Rightarrow> [] | Some (a, b) \<Rightarrow> a # tokens b)))"
  by pat_completeness auto
termination
  by (relation "measure length") (auto simp del: split_bytes.simps dest: chunk_split_shorter)

declare tokens.simps [simp del]

lemma tokens_Nil [simp]: "tokens [] = []"
  by (simp add: tokens.simps)

lemma tokens_plain: "encoded_chunk (c # cs) = None \<Longrightarrow> tokens (c # cs) = [c] # tokens cs"
  by (subst tokens.simps) simp

lemma scan_chunk:
  assumes "encoded_chunk (a @ b) = Some (c, str_len a)" "a \<noteq> []"
  shows "tokens (a @ b) = a # tokens b"
    and "separator_loop sep off (a @ b) = separator_loop sep (off + str_len a) b"
proof -
  obtain x y where x: "a @ b = x # y" using assms(2) by (cases a) auto
  show "tokens (a @ b) = a # tokens b"
    using x assms(1) split_bytes_append [of a b] by (subst tokens.simps) (simp del: split_bytes.simps)
  show "separator_loop sep off (a @ b) = separator_loop sep (off + str_len a) b"
    using x assms(1) split_bytes_append [of a b] by (subst separator_loop.simps) (simp del: split_bytes.simps)
qed

lemma separator_plain: "encoded_chunk (c # cs) = None \<Longrightarrow>
    separator_loop sep off (c # cs) = separator_loop (if c = 0x24 then Some off else sep) (off + len_utf8 c) cs"
  by (subst separator_loop.simps) simp

lemma chunk_size: "encoded_chunk s = Some (c, n) \<Longrightarrow> 2 \<le> n"
proof (cases "decode_unicode_escape s")
  case None
  assume "encoded_chunk s = Some (c, n)"
  with None obtain d code where "(d, code) \<in> set OPERATORS" "n = str_len code"
    by (auto simp: encoded_chunk_def find_Some_iff dest!: nth_mem)
  with operator_codes show ?thesis by (fastforce simp: list_all_iff len_utf8_def)
next
  case (Some p)
  assume "encoded_chunk s = Some (c, n)"
  with Some show ?thesis
    by (auto simp: encoded_chunk_def decode_unicode_escape_def surrogate_pair_def Option.bind_eq_Some_conv
        split: option.splits if_splits)
qed

text \<open>One step of the scan: a chunk of at least two bytes, or one character.\<close>

lemma scan_cases:
  obtains "s = []"
  | a b c where "s = a @ b" "encoded_chunk s = Some (c, str_len a)" "a \<noteq> []" "a \<noteq> [0x24]"
  | c cs where "s = c # cs" "encoded_chunk s = None"
proof (cases "encoded_chunk s")
  case None
  then show ?thesis using that by (cases s) auto
next
  case (Some p)
  then obtain c n where p: "encoded_chunk s = Some (c, n)" by (cases p) auto
  then obtain a b where "s = a @ b" "str_len a = n" "a \<noteq> []" using encoded_chunk_prefix by blast
  moreover have "a \<noteq> [0x24]" using chunk_size [OF p] \<open>str_len a = n\<close> by (auto simp: len_utf8_def)
  ultimately show ?thesis using that p by blast
qed

lemma concat_tokens [simp]: "concat (tokens s) = s"
proof (induction "length s" arbitrary: s rule: less_induct)
  case less
  show ?case
    by (cases s rule: scan_cases) (use less in \<open>auto simp: scan_chunk tokens_plain\<close>)
qed

lemma separator_none: "[0x24] \<notin> set (tokens s) \<Longrightarrow> separator_loop sep off s = Some sep"
proof (induction "length s" arbitrary: s off rule: less_induct)
  case less
  show ?case
    by (cases s rule: scan_cases)
       (use less in \<open>auto simp: scan_chunk tokens_plain separator_plain separator_loop.simps [of _ _ "[]"]\<close>)
qed

lemma separator_last:
  "tokens s = ts @ [0x24] # us \<Longrightarrow> [0x24] \<notin> set us \<Longrightarrow>
    separator_loop sep off s = Some (Some (off + str_len (concat ts)))"
proof (induction ts arbitrary: s sep off)
  case Nil
  show ?case
    by (cases s rule: scan_cases) (use Nil in \<open>auto simp: scan_chunk tokens_plain separator_plain separator_none\<close>)
next
  case (Cons t ts)
  show ?case
    by (cases s rule: scan_cases) (use Cons in \<open>auto simp: scan_chunk tokens_plain separator_plain add.assoc\<close>)
qed

section \<open>A token does not depend on what follows it\<close>

lemma str_prefix_unique:
  assumes "a @ b = c @ d" "str_len a = str_len c"
  shows "a = c \<and> b = d"
  using split_bytes_append [of c d] unfolding assms(1) [symmetric] assms(2) [symmetric] by simp

lemma escape_unit_extend: "escape_unit s = Some u \<Longrightarrow> escape_unit (s @ b) = Some u"
proof -
  assume "escape_unit s = Some u"
  then obtain hex c where h: "s = 0x24 # 0x75 # hex @ c" "str_len hex = 4" "from_hex 0xFFFF hex = Some u"
      "is_ascii_digit (hd hex) \<or> (0x41 \<le> hd hex \<and> hd hex \<le> 0x46)"
    by (auto dest: escape_unit_Some)
  then have "split_bytes 4 (hex @ c @ b) = Some (hex, c @ b)" by (simp add: split_bytes_Some)
  with h show ?thesis by (auto simp: escape_unit_def)
qed

lemma escape_unit_restrict:
  assumes "escape_unit (a @ y) = Some u" "6 \<le> str_len a"
  shows "escape_unit a = Some u"
proof -
  obtain hex c where h: "a @ y = (0x24 # 0x75 # hex) @ c" "str_len hex = 4" "from_hex 0xFFFF hex = Some u"
      "is_ascii_digit (hd hex) \<or> (0x41 \<le> hd hex \<and> hd hex \<le> 0x46)"
    using escape_unit_Some [OF assms(1)] by auto
  from h(1) obtain d where "a = (0x24 # 0x75 # hex) @ d \<or> a @ d = 0x24 # 0x75 # hex"
    unfolding append_eq_append_conv2 by blast
  moreover have "d = []" if "a @ d = 0x24 # 0x75 # hex"
    using arg_cong [OF that, of str_len] assms(2) h(2) by (simp add: len_utf8_def flip: str_len_eq_0)
  ultimately obtain d where "a = 0x24 # 0x75 # hex @ d" by (metis append.right_neutral append_Cons)
  moreover have "split_bytes 4 (hex @ d) = Some (hex, d)" using h by (simp add: split_bytes_Some)
  ultimately show ?thesis using h by (auto simp: escape_unit_def)
qed

text \<open>What an escape is: one unit that is a character, or a surrogate pair of units.\<close>

lemma decode_single: "escape_unit s = Some u \<Longrightarrow> char_from_u32 u = Some c \<Longrightarrow> decode_unicode_escape s = Some (c, 6)"
  by (simp add: decode_unicode_escape_def)

lemma decode_pair:
  "escape_unit s = Some u \<Longrightarrow> char_from_u32 u = None \<Longrightarrow> split_bytes 6 s = Some (p, r) \<Longrightarrow> escape_unit r = Some v \<Longrightarrow>
    decode_unicode_escape s = surrogate_pair u v"
  by (simp add: decode_unicode_escape_def)

lemma surrogate_pair_len: "surrogate_pair u v = Some (c, n) \<Longrightarrow> n = 12"
  by (auto simp: surrogate_pair_def Option.bind_eq_Some_conv split: if_splits)

lemma decode_unicode_escape_cases:
  assumes "decode_unicode_escape s = Some (c, n)"
  obtains (single) u where "escape_unit s = Some u" "char_from_u32 u = Some c" "n = 6"
  | (pair) u p r v where "escape_unit s = Some u" "char_from_u32 u = None" "s = p @ r" "str_len p = 6"
      "escape_unit r = Some v" "surrogate_pair u v = Some (c, n)" "n = 12"
proof -
  obtain u where u: "escape_unit s = Some u"
    using assms by (auto simp: decode_unicode_escape_def Option.bind_eq_Some_conv)
  show ?thesis
  proof (cases "char_from_u32 u")
    case (Some d)
    with assms u decode_single [OF u Some] show ?thesis by (auto intro: single)
  next
    case None
    with assms u obtain p r v where "split_bytes 6 s = Some (p, r)" "escape_unit r = Some v"
        "surrogate_pair u v = Some (c, n)"
      by (auto simp: decode_unicode_escape_def Option.bind_eq_Some_conv)
    then show ?thesis using u None by (auto simp: split_bytes_Some intro: pair dest: surrogate_pair_len)
  qed
qed

lemma escape_extend:
  assumes "decode_unicode_escape s = Some (c, n)"
  shows "decode_unicode_escape (s @ b) = Some (c, n)"
  using assms
proof (cases rule: decode_unicode_escape_cases)
  case (single u)
  then show ?thesis using decode_single [OF escape_unit_extend] by simp
next
  case (pair u p r v)
  then have "split_bytes 6 (s @ b) = Some (p, r @ b)" by (simp add: split_bytes_Some)
  then show ?thesis using pair decode_pair [OF escape_unit_extend _ _ escape_unit_extend] by metis
qed

lemma escape_restrict:
  assumes "decode_unicode_escape (a @ y) = Some (c, str_len a)"
  shows "decode_unicode_escape a = Some (c, str_len a)"
  using assms
proof (cases rule: decode_unicode_escape_cases)
  case (single u)
  then have "escape_unit a = Some u" by (intro escape_unit_restrict [of a y]) simp_all
  with single show ?thesis by (simp add: decode_single)
next
  case (pair u p r v)
  then have u: "escape_unit a = Some u" by (intro escape_unit_restrict [of a y]) simp_all
  from pair obtain d where "a = p @ d \<and> d @ y = r \<or> a @ d = p \<and> y = d @ r"
    unfolding append_eq_append_conv2 by blast
  moreover have "a @ d \<noteq> p" using pair by auto
  ultimately have d: "a = p @ d" "d @ y = r" by auto
  have "str_len d = 6" using d(1) pair by simp
  then have "escape_unit d = Some v" using pair d by (intro escape_unit_restrict [of d y]) auto
  moreover have "split_bytes 6 a = Some (p, d)" using d pair by (simp add: split_bytes_Some)
  ultimately show ?thesis using decode_pair [OF u] pair by simp
qed

lemma chunk_local:
  assumes "encoded_chunk (t @ y) = Some (c, str_len t)"
  shows "encoded_chunk (t @ z) = Some (c, str_len t)"
proof (cases "decode_unicode_escape (t @ y)")
  case None
  with assms obtain code where "(c, code) \<in> set OPERATORS" "starts_with (t @ y) code" "str_len t = str_len code"
    by (auto simp: encoded_chunk_def find_Some_iff dest!: nth_mem)
  moreover from this obtain b where "t @ y = code @ b" by (auto simp: strip_prefix_Some)
  ultimately have "(c, t) \<in> set OPERATORS" using str_prefix_unique by blast
  then show ?thesis by (rule encoded_chunk_operator)
next
  case (Some p)
  with assms have "decode_unicode_escape (t @ y) = Some (c, str_len t)" by (simp add: encoded_chunk_def)
  then have "decode_unicode_escape (t @ z) = Some (c, str_len t)" by (rule escape_extend [OF escape_restrict])
  then show ?thesis by (simp add: encoded_chunk_def)
qed

lemma chunk_extend: "encoded_chunk s \<noteq> None \<Longrightarrow> encoded_chunk (s @ b) \<noteq> None"
proof -
  assume "encoded_chunk s \<noteq> None"
  then obtain c n where c: "encoded_chunk s = Some (c, n)" by auto
  then obtain a d where "s = a @ d" "str_len a = n" using encoded_chunk_prefix by blast
  with c show ?thesis using chunk_local [of a d c "d @ b"] by simp
qed

lemma tokens_nonempty: "[] \<notin> set (tokens s)"
proof (induction "length s" arbitrary: s rule: less_induct)
  case less
  show ?case
    by (cases s rule: scan_cases) (use less in \<open>auto simp: scan_chunk tokens_plain\<close>)
qed

lemma tokens_prefix: "tokens (concat ts @ b) = ts @ us \<Longrightarrow> tokens (concat ts) = ts"
proof (induction ts)
  case (Cons t ts)
  define s where "s = concat (t # ts) @ b"
  have s: "tokens s = t # ts @ us" "s = t @ concat ts @ b" using Cons.prems by (simp_all add: s_def)
  show ?case
  proof (cases s rule: scan_cases)
    case 1
    with s(1) show ?thesis by simp
  next
    case (2 a d c)
    then have "a = t" "tokens d = ts @ us" using s(1) scan_chunk(1) [of a d c] by simp_all
    moreover from this have "d = concat ts @ b" using s(2) 2(1) by simp
    ultimately show ?thesis using 2 Cons.IH chunk_local [of t d c "concat ts"] by (auto simp: scan_chunk)
  next
    case (3 c cs)
    then have "t = [c]" "tokens cs = ts @ us" using s(1) tokens_plain [of c cs] by simp_all
    with 3 s(2) have t: "t = [c]" "tokens cs = ts @ us" "cs = concat ts @ b" by simp_all
    with 3 have "encoded_chunk (c # concat ts) = None"
      using chunk_extend [of "c # concat ts" b] by (cases "encoded_chunk (c # concat ts)") auto
    with t Cons.IH show ?thesis by (simp add: tokens_plain)
  qed
qed simp

lemma nested_loop_tokens:
  "nested_loop (a @ b) (str_len a) =
    Some (concat (map (\<lambda>t. if t = lit ''$'' then lit ''.'' else t) (tokens a)) @ b)"
proof (induction "length a" arbitrary: a b rule: less_induct)
  case less
  show ?case
  proof (cases "[0x24] \<in> set (tokens a)")
    case False
    then have "map (\<lambda>t. if t = lit ''$'' then lit ''.'' else t) (tokens a) = tokens a"
      by (intro map_idI) auto
    with False show ?thesis
      by (subst nested_loop.simps) (simp add: last_nesting_separator_def separator_none)
  next
    case True
    then obtain ts us where ts: "tokens a = ts @ [0x24] # us" "[0x24] \<notin> set us" by (meson split_list_last)
    let ?p = "concat ts" and ?q = "concat us"
    have a: "a = ?p @ 0x24 # ?q" using arg_cong [OF ts(1), of concat] by simp
    have sep: "last_nesting_separator a = Some (Some (str_len ?p))"
      using separator_last [OF ts] by (simp add: last_nesting_separator_def)
    have rep: "replace_byte (str_len ?p) (a @ b) = Some (?p @ 0x2E # ?q @ b)"
      using split_bytes_append [of "[0x24]" "?q @ b"]
      by (simp add: replace_byte_def a len_utf8_def del: split_bytes.simps)
    have pre: "tokens ?p = ts" using tokens_prefix [of ts "0x24 # ?q" "[0x24] # us"] ts a by simp
    have "map (\<lambda>t. if t = lit ''$'' then lit ''.'' else t) us = us"
      using ts(2) by (intro map_idI) auto
    moreover have "length ?p < length a" by (simp add: a)
    ultimately show ?thesis
      using less [of ?p "0x2E # ?q @ b"] sep rep pre ts
      by (subst nested_loop.simps) simp
  qed
qed

section \<open>Properties\<close>

text \<open>
  C6: for every name of Unicode scalar values without a dollar, decoding the encoded name returns
  it: operators, letters of any plane and escaped characters alike, and no slice panics.
\<close>

theorem name_roundtrip:
  assumes "list_all is_scalar name" "chr CHR ''$'' \<notin> set name"
  shows "decode_method_name (encode_method_name name) = Some name"
  using assms by (auto simp: encode_method_name_def decode_method_name_eq decode_loop_encode decode_loop_dollar_free)

lemma name_roundtrip_witness:
  "decode_method_name (encode_method_name [0x61, 0x2B, 0x20, 0x1F600]) = Some [0x61, 0x2B, 0x20, 0x1F600]"
  by (rule name_roundtrip) (simp_all add: is_scalar_def)

text \<open>
  C10: the encoded name of anything but \<open><init>\<close> and \<open><clinit>\<close> holds only Java identifier
  parts, whatever characters the name has.
\<close>

theorem encode_identifier:
  assumes "list_all is_scalar name"
  shows "name = lit ''<init>'' \<or> name = lit ''<clinit>'' \<or> list_all is_java_identifier_part (encode_method_name name)"
  using assms encode_char_identifier plain_identifier_part
  by (auto simp: encode_method_name_def list_all_iff)

lemma encode_identifier_witness:
  "list_all is_java_identifier_part (encode_method_name [0x2B, 0x20])"
  using encode_identifier [of "[0x2B, 0x20]"] by simp

text \<open>Encoding an encoded name changes nothing.\<close>

theorem encode_idempotent:
  assumes "list_all is_scalar name"
  shows "encode_method_name (encode_method_name name) = encode_method_name name"
proof (cases "name = lit ''<init>'' \<or> name = lit ''<clinit>''")
  case True
  then show ?thesis by (auto simp: encode_method_name_def)
next
  case False
  with assms have "list_all is_java_identifier_part (encode_method_name name)"
    using encode_char_identifier plain_identifier_part
    by (auto simp: encode_method_name_def list_all_iff)
  then show ?thesis by (simp add: encode_method_name_def [of "encode_method_name name"] encode_identity)
qed

lemma encode_idempotent_witness:
  "encode_method_name (encode_method_name [0x2B, 0x20]) = encode_method_name [0x2B, 0x20]"
  by (rule encode_idempotent) simp

text \<open>
  C11: \<open>nested_to_dotted\<close>, which searches its prefix again from the left for every separator it
  replaces, returns what one pass over the tokens gives: each dollar that is a token of its own
  becomes a dot, every encoded operator and escape is kept, and no slice panics.
\<close>

theorem nested_to_dotted_tokens:
  "nested_to_dotted name = Some (concat (map (\<lambda>t. if t = lit ''$'' then lit ''.'' else t) (tokens name)))"
  using nested_loop_tokens [of name "[]"] by (simp add: nested_to_dotted_def)

end
