(* ===== verification/Classfile.thy ===== *)
theory Classfile
  imports Codec Names
begin

text \<open>
  \<open>crates/pickle/src/classfile.rs\<close>: the part of a JVM class file the compiler reads to reach a class's
  \<open>ScalaSignature\<close>, as the class file format has it: a step takes the cursor and returns a value with the
  cursor moved, or \<open>None\<close> where the bytes are not there or not valid.  The reader as it is written, with every index
  and slice that could panic, is \<open>ClassfileReader\<close>, where it is shown to read exactly this.
\<close>

unbundle bit_operations_syntax

section \<open>The cursor\<close>

record cursor =
  cb :: bytes
  ci :: nat

definition cursor_new :: "bytes \<Rightarrow> cursor" where
  "cursor_new b = \<lparr>cb = b, ci = 0\<rparr>"

definition u1 :: "cursor \<Rightarrow> (u8 \<times> cursor) option" where
  "u1 c = (if length (cb c) \<le> ci c then None else Some (cb c ! ci c, c\<lparr>ci := ci c + 1\<rparr>))"

definition u2 :: "cursor \<Rightarrow> (u16 \<times> cursor) option" where
  "u2 c = do {
     (hi, c) \<leftarrow> u1 c;
     (lo, c) \<leftarrow> u1 c;
     Some (push_bit 8 (ucast hi) OR ucast lo, c)
   }"

definition u4 :: "cursor \<Rightarrow> (u32 \<times> cursor) option" where
  "u4 c = do {
     (a, c) \<leftarrow> u2 c;
     (b, c) \<leftarrow> u2 c;
     Some (push_bit 16 (ucast a) OR ucast b, c)
   }"

definition take_bytes :: "nat \<Rightarrow> cursor \<Rightarrow> (bytes \<times> cursor) option" where
  "take_bytes n c =
     (if length (cb c) < ci c + n then None
      else Some (take n (drop (ci c) (cb c)), c\<lparr>ci := ci c + n\<rparr>))"

text \<open>\<open>for _ in 0..n { step? }\<close>\<close>

fun read_times :: "nat \<Rightarrow> (cursor \<Rightarrow> ('a \<times> cursor) option) \<Rightarrow> cursor \<Rightarrow> cursor option" where
  "read_times 0 step c = Some c"
| "read_times (Suc n) step c = do {
     (_, c) \<leftarrow> step c;
     read_times n step c
   }"

definition pass_attr :: "cursor \<Rightarrow> (unit \<times> cursor) option" where
  "pass_attr c = do {
     (_, c) \<leftarrow> u2 c;
     (len, c) \<leftarrow> u4 c;
     (_, c) \<leftarrow> take_bytes (unat len) c;
     Some ((), c)
   }"

definition pass_attrs :: "cursor \<Rightarrow> (unit \<times> cursor) option" where
  "pass_attrs c = do {
     (n, c) \<leftarrow> u2 c;
     c \<leftarrow> read_times (unat n) pass_attr c;
     Some ((), c)
   }"

section \<open>The contract of a reader step\<close>

text \<open>\<open>moved k c c'\<close>: the same input, at least \<open>k\<close> bytes further, and not past its end.\<close>

definition moved :: "nat \<Rightarrow> cursor \<Rightarrow> cursor \<Rightarrow> bool" where
  "moved k c c' \<longleftrightarrow> cb c' = cb c \<and> ci c + k \<le> ci c' \<and> (ci c \<le> length (cb c) \<longrightarrow> ci c' \<le> length (cb c))"

lemma moved_refl [simp]: "moved 0 c c"
  by (simp add: moved_def)

lemma moved_trans [trans]: "moved j a b \<Longrightarrow> moved k b c \<Longrightarrow> moved (j + k) a c"
  by (auto simp: moved_def)

lemma moved_weaken: "moved k a b \<Longrightarrow> j \<le> k \<Longrightarrow> moved j a b"
  by (auto simp: moved_def)

lemma moved_inside: "moved k c c' \<Longrightarrow> ci c \<le> length (cb c) \<Longrightarrow> ci c' \<le> length (cb c')"
  by (auto simp: moved_def)

locale cursor_reader =
  fixes step :: "cursor \<Rightarrow> ('a \<times> cursor) option" and k :: nat
  assumes moves: "step c = Some (a, c') \<Longrightarrow> moved k c c'"
begin

lemma times_moves: "read_times n step c = Some c' \<Longrightarrow> moved (n * k) c c'"
proof (induction n arbitrary: c)
  case (Suc n)
  then obtain a d where "step c = Some (a, d)" "read_times n step d = Some c'"
    by (auto simp: Option.bind_eq_Some_conv)
  then have "moved k c d" "moved (n * k) d c'" using Suc.IH moves by blast+
  then show ?case using moved_trans [of k c d "n * k" c'] by simp
qed simp

text \<open>A count the input cannot hold is rejected: no loop runs past the end of the file.\<close>

lemma times_bounded: "read_times n step c = Some c' \<Longrightarrow> ci c \<le> length (cb c) \<Longrightarrow> n * k \<le> length (cb c) - ci c"
  using times_moves [of n c c'] unfolding moved_def by linarith

end

text \<open>What the step reads does not depend on the bytes after it.\<close>

definition appended :: "bytes \<Rightarrow> cursor \<Rightarrow> cursor" where
  "appended e c = c\<lparr>cb := cb c @ e\<rparr>"

lemma appended_simps [simp]: "cb (appended e c) = cb c @ e" "ci (appended e c) = ci c"
  "appended e (c\<lparr>ci := i\<rparr>) = (appended e c)\<lparr>ci := i\<rparr>"
  by (simp_all add: appended_def)

locale local_reader = cursor_reader +
  assumes local: "step c = Some (a, c') \<Longrightarrow> step (appended e c) = Some (a, appended e c')"
begin

text \<open>The same as an equation, for rewriting.\<close>

lemma local_eq: "step c \<noteq> None \<Longrightarrow> step (appended e c) = map_option (\<lambda>(a, c'). (a, appended e c')) (step c)"
  using local by fastforce

lemma times_local: "read_times n step c \<noteq> None \<Longrightarrow>
    read_times n step (appended e c) = map_option (appended e) (read_times n step c)"
proof (induction n arbitrary: c)
  case (Suc n)
  then obtain a c1 where "step c = Some (a, c1)" "read_times n step c1 \<noteq> None"
    by (auto simp: Option.bind_eq_Some_conv)
  then show ?case using Suc.IH [of c1] by (simp add: local_eq)
qed simp

end

lemma u1_Some: "u1 c = Some (v, c') \<longleftrightarrow> ci c < length (cb c) \<and> v = cb c ! ci c \<and> c' = c\<lparr>ci := ci c + 1\<rparr>"
  by (auto simp: u1_def)

lemma take_bytes_Some:
  "take_bytes n c = Some (v, c') \<longleftrightarrow>
     ci c + n \<le> length (cb c) \<and> v = take n (drop (ci c) (cb c)) \<and> c' = c\<lparr>ci := ci c + n\<rparr>"
  by (auto simp: take_bytes_def)

interpretation u1: local_reader u1 1
  by unfold_locales (auto simp: u1_Some moved_def nth_append)

interpretation u2: local_reader u2 2
  by unfold_locales (auto simp: u2_def Option.bind_eq_Some_conv u1_Some moved_def nth_append)

interpretation u4: local_reader u4 4
  by unfold_locales (auto simp: u4_def u2_def Option.bind_eq_Some_conv u1_Some moved_def nth_append)

interpretation take_bytes: local_reader "take_bytes n" n for n
  by unfold_locales (auto simp: take_bytes_Some moved_def)

lemmas reads_local = u1.local_eq u2.local_eq u4.local_eq take_bytes.local_eq

lemmas reads_move [step_mono] = u1.moves u2.moves u4.moves take_bytes.moves

interpretation pass_attr: local_reader pass_attr 6
proof
  show "pass_attr c = Some (a, c') \<Longrightarrow> pass_attr (appended e c) = Some (a, appended e c')" for c a c' e
    by (auto simp: pass_attr_def Option.bind_eq_Some_conv reads_local)
next
  fix c and a :: unit and c'
  assume "pass_attr c = Some (a, c')"
  then obtain c1 c2 n where "moved 2 c c1" "moved 4 c1 c2" "moved n c2 c'"
    by (fastforce simp: pass_attr_def Option.bind_eq_Some_conv dest: step_mono)
  then show "moved 6 c c'" by (auto simp: moved_def)
qed

interpretation pass_attrs: local_reader pass_attrs 2
proof
  show "pass_attrs c = Some (a, c') \<Longrightarrow> pass_attrs (appended e c) = Some (a, appended e c')" for c a c' e
    by (auto simp: pass_attrs_def Option.bind_eq_Some_conv reads_local pass_attr.times_local)
next
  fix c and a :: unit and c'
  assume "pass_attrs c = Some (a, c')"
  then obtain c1 n where "moved 2 c c1" "moved (n * 6) c1 c'"
    by (fastforce simp: pass_attrs_def Option.bind_eq_Some_conv dest: step_mono pass_attr.times_moves)
  then show "moved 2 c c'" by (auto simp: moved_def)
qed

section \<open>Modified UTF-8\<close>

definition mutf8_2 :: "u8 \<Rightarrow> u8 \<Rightarrow> u32" where
  "mutf8_2 x y = push_bit 6 (ucast x AND 0x1f) OR (ucast y AND 0x3f)"

definition mutf8_3 :: "u8 \<Rightarrow> u8 \<Rightarrow> u8 \<Rightarrow> u32" where
  "mutf8_3 x y z = push_bit 12 (ucast x AND 0x0f) OR push_bit 6 (ucast y AND 0x3f) OR (ucast z AND 0x3f)"

text \<open>The loop of \<open>mutf8_text\<close>, on the bytes from \<open>i\<close> on.\<close>

fun mutf8_text :: "bytes \<Rightarrow> str option" where
  "mutf8_text [] = Some []"
| "mutf8_text (x # b) =
     (if x = 0 then None
      else if x < 0x80 then map_option ((#) (unat x)) (mutf8_text b)
      else if x AND 0xe0 = 0xc0 then
        (case b of
           y # b \<Rightarrow> do {
             c \<leftarrow> char_from_u32 (unat (mutf8_2 x y));
             map_option ((#) c) (mutf8_text b)
           }
         | _ \<Rightarrow> None)
      else if x AND 0xf0 = 0xe0 then
        (case b of
           y # z # b \<Rightarrow> do {
             c \<leftarrow> char_from_u32 (unat (mutf8_3 x y z));
             map_option ((#) c) (mutf8_text b)
           }
         | _ \<Rightarrow> None)
      else None)"

section \<open>The constant pool\<close>

record cpool =
  tags :: bytes
  data :: "bytes list"

definition cp_utf8 :: "cpool \<Rightarrow> u16 \<Rightarrow> str option" where
  "cp_utf8 cp i =
     (let i = unat i in
      if i = 0 \<or> length (tags cp) \<le> i then None
      else if tags cp ! i \<noteq> 1 then None
      else do { d \<leftarrow> idx (data cp) i; mutf8_text d })"

definition be16_of :: "u8 \<Rightarrow> u8 \<Rightarrow> u16" where
  "be16_of hi lo = push_bit 8 (ucast hi) OR ucast lo"

definition cp_class_name :: "cpool \<Rightarrow> u16 \<Rightarrow> str option" where
  "cp_class_name cp i =
     (let i = unat i in
      if i = 0 \<or> length (tags cp) \<le> i \<or> tags cp ! i \<noteq> 7 then None
      else do {
        d \<leftarrow> idx (data cp) i;
        (if length d < 2 then None else cp_utf8 cp (be16_of (d ! 0) (d ! 1)))
      })"

definition be16 :: "u16 \<Rightarrow> bytes" where
  "be16 v = [ucast (drop_bit 8 v), ucast v]"

text \<open>One arm of \<open>parse_pool\<close>'s \<open>match\<close>: the entry's data, and the extra slots it takes.\<close>

definition pool_entry :: "u8 \<Rightarrow> cursor \<Rightarrow> (bytes \<times> nat \<times> cursor) option" where
  "pool_entry tag c =
     (if tag = 1 then do {
        (n, c) \<leftarrow> u2 c;
        (d, c) \<leftarrow> take_bytes (unat n) c;
        Some (d, 0, c)
      } else if tag \<in> {7, 8, 16, 19, 20} then do {
        (v, c) \<leftarrow> u2 c;
        Some (be16 v, 0, c)
      } else if tag \<in> {3, 4, 9, 10, 11, 12, 17, 18} then do {
        (v, c) \<leftarrow> u2 c;
        (w, c) \<leftarrow> u2 c;
        Some (be16 v @ be16 w, 0, c)
      } else if tag \<in> {5, 6} then do {
        (d, c) \<leftarrow> take_bytes 8 c;
        Some (d, 1, c)
      } else if tag = 15 then do {
        (v, c) \<leftarrow> u1 c;
        (w, c) \<leftarrow> u2 c;
        Some (v # be16 w, 0, c)
      } else None)"

function pool_loop :: "nat \<Rightarrow> nat \<Rightarrow> bytes \<Rightarrow> bytes list \<Rightarrow> cursor \<Rightarrow> (cpool \<times> cursor) option" where
  "pool_loop cp_count i ts ds c =
     (if i < cp_count then do {
        (tag, c) \<leftarrow> u1 c;
        (d, extra, c) \<leftarrow> pool_entry tag c;
        pool_loop cp_count (i + extra + 1) (ts[i := tag]) (ds[i := d]) c
      } else Some (\<lparr>tags = ts, data = ds\<rparr>, c))"
  by pat_completeness auto
termination
  by (relation "measure (\<lambda>(cp_count, i, ts, ds, c). cp_count - i)") auto

declare pool_loop.simps [simp del]

definition parse_pool :: "cursor \<Rightarrow> (cpool \<times> cursor) option" where
  "parse_pool c = do {
     (cp_count, c) \<leftarrow> u2 c;
     pool_loop (unat cp_count) 1 (replicate (unat cp_count) 0) (replicate (unat cp_count) []) c
   }"

lemma cp_loop_lengths:
  "pool_loop n i ts ds c = Some (cp, c') \<Longrightarrow> length ts = n \<Longrightarrow> length ds = n \<Longrightarrow>
     length (tags cp) = n \<and> length (data cp) = n"
proof (induction n i ts ds c rule: pool_loop.induct)
  case (1 n i ts ds c)
  show ?case
  proof (cases "i < n")
    case True
    with 1(2) obtain tag c1 d e c2 where s: "u1 c = Some (tag, c1)" "pool_entry tag c1 = Some (d, e, c2)"
        "pool_loop n (i + e + 1) (ts[i := tag]) (ds[i := d]) c2 = Some (cp, c')"
      by (subst (asm) pool_loop.simps) (auto simp: Option.bind_eq_Some_conv)
    then show ?thesis using 1(1) [OF True s(1) refl s(2) refl refl] 1 by simp
  next
    case False
    with 1 show ?thesis by (subst (asm) (2) pool_loop.simps) auto
  qed
qed

text \<open>Both vectors have the length of the pool, so a read of one after a check of the other is in range.\<close>

lemma parse_pool_lengths: "parse_pool c = Some (cp, c') \<Longrightarrow> length (data cp) = length (tags cp)"
  by (auto simp: parse_pool_def Option.bind_eq_Some_conv dest: cp_loop_lengths)

lemma cp_entry_moves: "pool_entry tag c = Some (d, e, c') \<Longrightarrow> moved 2 c c'"
  by (auto simp: pool_entry_def u2_def Option.bind_eq_Some_conv u1_Some take_bytes_Some moved_def split: if_splits)

lemma cp_loop_moves: "pool_loop n i ts ds c = Some (cp, c') \<Longrightarrow> moved 0 c c'"
proof (induction n i ts ds c rule: pool_loop.induct)
  case (1 n i ts ds c)
  show ?case
  proof (cases "i < n")
    case True
    with 1(2) obtain tag c1 d e c2 where s: "u1 c = Some (tag, c1)" "pool_entry tag c1 = Some (d, e, c2)"
        "pool_loop n (i + e + 1) (ts[i := tag]) (ds[i := d]) c2 = Some (cp, c')"
      by (subst (asm) pool_loop.simps) (auto simp: Option.bind_eq_Some_conv)
    then have "moved 0 c2 c'" using 1(1) [OF True s(1) refl s(2) refl refl] by simp
    moreover have "moved 3 c c2"
      using moved_trans [OF u1.moves [OF s(1)] cp_entry_moves [OF s(2)]] by (simp add: numeral_3_eq_3)
    ultimately show ?thesis by (auto simp: moved_def)
  next
    case False
    with 1 show ?thesis by (subst (asm) (2) pool_loop.simps) auto
  qed
qed

lemma cp_entry_local: "pool_entry tag c = Some (d, k, c') \<Longrightarrow> pool_entry tag (appended e c) = Some (d, k, appended e c')"
  unfolding pool_entry_def
  by (simp add: Option.bind_eq_Some_conv del: insert_iff split del: if_split split: if_splits)
     (auto simp: reads_local)

lemma cp_loop_local:
  "pool_loop n i ts ds c = Some (cp, c') \<Longrightarrow> pool_loop n i ts ds (appended e c) = Some (cp, appended e c')"
proof (induction n i ts ds c rule: pool_loop.induct)
  case (1 n i ts ds c)
  show ?case
  proof (cases "i < n")
    case True
    with 1(2) obtain tag c1 d k c2 where s: "u1 c = Some (tag, c1)" "pool_entry tag c1 = Some (d, k, c2)"
        "pool_loop n (i + k + 1) (ts[i := tag]) (ds[i := d]) c2 = Some (cp, c')"
      by (subst (asm) pool_loop.simps) (auto simp: Option.bind_eq_Some_conv)
    then show ?thesis
      using True 1(1) [OF True s(1) refl s(2) refl refl s(3)] u1.local [OF s(1)] cp_entry_local [OF s(2)]
      by (subst pool_loop.simps) simp
  next
    case False
    with 1 show ?thesis by (auto simp: pool_loop.simps)
  qed
qed

interpretation parse_pool: local_reader parse_pool 2
proof
  show "parse_pool c = Some (a, c') \<Longrightarrow> parse_pool (appended e c) = Some (a, appended e c')" for c a c' e
    by (auto simp: parse_pool_def Option.bind_eq_Some_conv u2.local_eq intro: cp_loop_local)
next
  fix c cp c'
  assume "parse_pool c = Some (cp, c')"
  then obtain c1 where "moved 2 c c1" "moved 0 c1 c'"
    by (auto simp: parse_pool_def Option.bind_eq_Some_conv dest: cp_loop_moves u2.moves)
  then show "moved 2 c c'" by (auto simp: moved_def)
qed

section \<open>Element values\<close>

abbreviation byte :: "char \<Rightarrow> u8" where
  "byte c \<equiv> of_char c"

text \<open>
  An element value of a nesting below the first argument, which one more than the bytes left bounds (\<open>value_fuel\<close>):
  every value takes at least its tag byte.  \<open>sink\<close> is the string the constants are appended to.
\<close>

function read_value :: "nat \<Rightarrow> cpool \<Rightarrow> cursor \<Rightarrow> str \<Rightarrow> (str \<times> cursor) option"
  and read_values :: "nat \<Rightarrow> bool \<Rightarrow> nat \<Rightarrow> cpool \<Rightarrow> cursor \<Rightarrow> str \<Rightarrow> (str \<times> cursor) option" where
  "read_value 0 cp c sink = None"
| "read_value (Suc f) cp c sink = do {
     (tag, c) \<leftarrow> u1 c;
     (if tag = byte CHR ''s'' then do {
        (ui, c) \<leftarrow> u2 c;
        s \<leftarrow> cp_utf8 cp ui;
        Some (sink @ s, c)
      } else if tag \<in> {byte CHR ''B'', byte CHR ''C'', byte CHR ''I'', byte CHR ''S'', byte CHR ''Z'',
                       byte CHR ''F'', byte CHR ''D'', byte CHR ''J'', byte CHR ''c''} then do {
        (_, c) \<leftarrow> u2 c;
        Some (sink, c)
      } else if tag = byte CHR ''e'' then do {
        (_, c) \<leftarrow> u2 c;
        (_, c) \<leftarrow> u2 c;
        Some (sink, c)
      } else if tag = byte CHR ''@'' then do {
        (_, c) \<leftarrow> u2 c;
        (npairs, c) \<leftarrow> u2 c;
        read_values f True (unat npairs) cp c sink
      } else if tag = byte CHR ''['' then do {
        (n, c) \<leftarrow> u2 c;
        read_values f False (unat n) cp c sink
      } else None)
   }"
| "read_values f named 0 cp c sink = Some (sink, c)"
| "read_values f named (Suc n) cp c sink = do {
     c \<leftarrow> (if named then map_option snd (u2 c) else Some c);
     (sink, c) \<leftarrow> read_value f cp c sink;
     read_values f named n cp c sink
   }"
  by pat_completeness auto
termination
  by (relation "measures [\<lambda>x. case x of Inl (f, _) \<Rightarrow> f | Inr (f, _) \<Rightarrow> f,
                          \<lambda>x. case x of Inl _ \<Rightarrow> 0 | Inr (_, _, n, _) \<Rightarrow> Suc n]") auto

definition element_value :: "cpool \<Rightarrow> cursor \<Rightarrow> str \<Rightarrow> (str \<times> cursor) option" where
  "element_value cp c sink = read_value (Suc (length (cb c) - ci c)) cp c sink"

section \<open>The signature annotation\<close>

definition unwrap_or_default :: "str option \<Rightarrow> str" where
  "unwrap_or_default m = (case m of None \<Rightarrow> [] | Some s \<Rightarrow> s)"

text \<open>The pairs of one annotation: \<open>n\<close> left.\<close>

fun pairs_text :: "nat \<Rightarrow> bool \<Rightarrow> cpool \<Rightarrow> str option \<Rightarrow> cursor \<Rightarrow> (str option \<times> cursor) option" where
  "pairs_text 0 is_sig cp found c = Some (found, c)"
| "pairs_text (Suc n) is_sig cp found c = do {
     (name_i, c) \<leftarrow> u2 c;
     (sink, c) \<leftarrow> element_value cp c [];
     pairs_text n is_sig cp
       (if is_sig \<and> unwrap_or_default (cp_utf8 cp name_i) = lit ''bytes'' then Some sink else found) c
   }"

text \<open>The annotations: \<open>None\<close> is malformed.\<close>

fun annotations_text :: "nat \<Rightarrow> cpool \<Rightarrow> cursor \<Rightarrow> str option option" where
  "annotations_text 0 cp c = Some None"
| "annotations_text (Suc n) cp c = do {
     (type_i, c) \<leftarrow> u2 c;
     let ty = unwrap_or_default (cp_utf8 cp type_i);
     let is_sig = str_contains ty (lit ''ScalaSignature'') \<or> str_contains ty (lit ''ScalaLongSignature'');
     (npairs, c) \<leftarrow> u2 c;
     (found, c) \<leftarrow> pairs_text (unat npairs) is_sig cp None c;
     (case found of Some s \<Rightarrow> Some (Some s) | None \<Rightarrow> annotations_text n cp c)
   }"

definition signature_text :: "bytes \<Rightarrow> cpool \<Rightarrow> str option option" where
  "signature_text body cp = do {
     (nann, c) \<leftarrow> u2 (cursor_new body);
     annotations_text (unat nann) cp c
   }"

section \<open>The class file\<close>

datatype ClassfileError = BadMagic | Truncated string | Malformed string

fun attribute_reads :: "nat \<Rightarrow> cpool \<Rightarrow> cursor \<Rightarrow> (bytes option, ClassfileError) result" where
  "attribute_reads 0 cp c = Ok None"
| "attribute_reads (Suc n) cp c =
     rbind (ok_or (Truncated ''class attribute'') (u2 c)) (\<lambda>(name_i, c).
     rbind (ok_or (Truncated ''class attribute'') (u4 c)) (\<lambda>(len, c).
     rbind (ok_or (Truncated ''class attribute body'') (take_bytes (unat len) c)) (\<lambda>(body, c).
       if cp_utf8 cp name_i \<noteq> Some (lit ''RuntimeVisibleAnnotations'') then attribute_reads n cp c
       else rbind (ok_or (Malformed ''RuntimeVisibleAnnotations'') (signature_text body cp)) (\<lambda>s.
         case s of
           Some s \<Rightarrow> rbind (unwrap (decode_annotation_string s)) (\<lambda>bs. Ok (Some bs))
         | None \<Rightarrow> attribute_reads n cp c))))"

definition attributes_read ::
  "cursor \<Rightarrow> cpool \<Rightarrow> (bytes option, ClassfileError) result" where
  "attributes_read c cp =
     rbind (ok_or (Truncated ''class attributes'') (u2 c)) (\<lambda>(nattrs, c). attribute_reads (unat nattrs) cp c)"

text \<open>The loop over the fields, and the one over the methods, with the parts their errors name.\<close>

fun members_passed :: "string \<Rightarrow> string \<Rightarrow> nat \<Rightarrow> cursor \<Rightarrow> (cursor, ClassfileError) result" where
  "members_passed part attrs 0 c = Ok c"
| "members_passed part attrs (Suc n) c =
     rbind (ok_or (Truncated part) (u2 c)) (\<lambda>(_, c).
     rbind (ok_or (Truncated part) (u2 c)) (\<lambda>(_, c).
     rbind (ok_or (Truncated part) (u2 c)) (\<lambda>(_, c).
     rbind (ok_or (Truncated attrs) (pass_attrs c)) (\<lambda>(_, c). members_passed part attrs n c))))"

definition signature_read :: "bytes \<Rightarrow> (bytes option, ClassfileError) result" where
  "signature_read bs =
     rbind (ok_or (Truncated ''magic'') (u4 (cursor_new bs))) (\<lambda>(magic, c).
     if magic \<noteq> 0xCAFEBABE then Err BadMagic else
     rbind (ok_or (Truncated ''version'') (u2 c)) (\<lambda>(_, c).
     rbind (ok_or (Truncated ''version'') (u2 c)) (\<lambda>(_, c).
     rbind (ok_or (Malformed ''constant pool'') (parse_pool c)) (\<lambda>(cp, c).
     rbind (ok_or (Truncated ''class header'') (u2 c)) (\<lambda>(_, c).
     rbind (ok_or (Truncated ''class header'') (u2 c)) (\<lambda>(_, c).
     rbind (ok_or (Truncated ''class header'') (u2 c)) (\<lambda>(_, c).
     rbind (ok_or (Truncated ''interfaces'') (u2 c)) (\<lambda>(niface, c).
     rbind (ok_or (Truncated ''interfaces'') (read_times (unat niface) u2 c)) (\<lambda>c.
     rbind (ok_or (Truncated ''fields'') (u2 c)) (\<lambda>(nfields, c).
     rbind (members_passed ''field'' ''field attributes'' (unat nfields) c) (\<lambda>c.
     rbind (ok_or (Truncated ''methods'') (u2 c)) (\<lambda>(nmethods, c).
     rbind (members_passed ''method'' ''method attributes'' (unat nmethods) c) (\<lambda>c.
       attributes_read c cp)))))))))))))"

section \<open>Lemmas about element values\<close>

lemma values_moves:
  assumes "\<And>c sink s c'. read_value f cp c sink = Some (s, c') \<Longrightarrow> moved 1 c c'"
  shows "read_values f named n cp c sink = Some (s, c') \<Longrightarrow> moved n c c'"
proof (induction n arbitrary: c sink)
  case (Suc n)
  then obtain c1 s2 c2 where c1: "(if named then map_option snd (u2 c) else Some c) = Some c1"
      and r: "read_value f cp c1 sink = Some (s2, c2)" "read_values f named n cp c2 s2 = Some (s, c')"
    by (auto simp: Option.bind_eq_Some_conv)
  have "moved 0 c c1"
    using c1 by (cases named) (auto dest!: u2.moves intro: moved_weaken)
  with r have "moved 0 c c1" "moved 1 c1 c2" "moved n c2 c'" using assms Suc.IH by auto
  then show ?case by (auto simp: moved_def)
qed simp

lemma value_moves: "read_value f cp c sink = Some (s, c') \<Longrightarrow> moved 1 c c'"
proof (induction f arbitrary: c sink s c')
  case (Suc f)
  then obtain tag c1 where t: "u1 c = Some (tag, c1)" by (auto simp: Option.bind_eq_Some_conv)
  have vals: "read_values f named n cp c s = Some (s', c') \<Longrightarrow> moved n c c'" for named n c s s' c'
    by (rule values_moves) (rule Suc.IH)
  have "moved 0 c1 c'"
    using Suc.prems t
    by (auto simp: Option.bind_eq_Some_conv simp del: insert_iff split: if_splits
        dest!: u2.moves vals)
       (auto simp: moved_def)
  then show ?case using u1.moves [OF t] by (auto simp: moved_def)
qed simp

definition bytes_left :: "cursor \<Rightarrow> nat" where
  "bytes_left c = length (cb c) - ci c"

lemma moved_left: "moved k c c' \<Longrightarrow> bytes_left c' \<le> bytes_left c"
  by (auto simp: moved_def bytes_left_def)

lemma u1_left: "u1 c = Some (v, c') \<Longrightarrow> bytes_left c' < bytes_left c"
  by (auto simp: u1_Some bytes_left_def)

lemma values_fuel:
  assumes "\<And>c sink. bytes_left c < m \<Longrightarrow> read_value f cp c sink = read_value g cp c sink"
    and "bytes_left c < m"
  shows "read_values f named n cp c sink = read_values g named n cp c sink"
  using assms(2)
proof (induction n arbitrary: c sink)
  case (Suc n)
  show ?case
  proof (cases "if named then map_option snd (u2 c) else Some c")
    case None
    then show ?thesis by simp
  next
    case (Some c1)
    then have c1: "bytes_left c1 < m"
      using Suc.prems by (auto split: if_splits dest!: u2.moves moved_left)
    show ?thesis
    proof (cases "read_value g cp c1 sink")
      case None
      then show ?thesis using Some assms(1) [OF c1] by simp
    next
      case (Some p)
      then obtain s c2 where p: "p = (s, c2)" "bytes_left c2 < m"
        using c1 by (cases p) (auto dest!: value_moves moved_left)
      show ?thesis using \<open>_ = Some c1\<close> Some p Suc.IH [OF p(2)] assms(1) [OF c1] by simp
    qed
  qed
qed simp

lemma value_fuel:
  "bytes_left c < f \<Longrightarrow> bytes_left c < g \<Longrightarrow> read_value f cp c sink = read_value g cp c sink"
proof (induction "bytes_left c" arbitrary: c f g sink rule: less_induct)
  case less
  obtain f' g' where fg: "f = Suc f'" "g = Suc g'"
    using less.prems by (metis less_imp_Suc_add)
  show ?case
  proof (cases "u1 c")
    case None
    then show ?thesis by (simp add: fg)
  next
    case (Some p)
    then obtain tag c1 where u: "u1 c = Some (tag, c1)" by (cases p) auto
    have small: "bytes_left d < f' \<and> bytes_left d < g' \<and> bytes_left d < bytes_left c" if "bytes_left d \<le> bytes_left c1" for d
      using that u1_left [OF u] less.prems fg by simp
    have vals: "read_values f' named n cp d sink = read_values g' named n cp d sink"
      if "bytes_left d \<le> bytes_left c1" for d named n sink
    proof (rule values_fuel [where m = "Suc (bytes_left c1)"])
      show "bytes_left d < Suc (bytes_left c1)" using that by simp
      fix d' sink'
      assume "bytes_left d' < Suc (bytes_left c1)"
      then show "read_value f' cp d' sink' = read_value g' cp d' sink'"
        using less.hyps [of d' f' g'] small [of d'] by simp
    qed
    have u2s: "bytes_left d \<le> bytes_left c1" if "u2 e = Some (v, d)" "bytes_left e \<le> bytes_left c1" for e v d
      using moved_left [OF u2.moves [OF that(1)]] that(2) by simp
    show ?thesis
      using vals u2s u
      by (auto simp: fg intro!: Option.bind_cong split: prod.splits)
  qed
qed

lemma decode_total: "decode_annotation_string s \<noteq> None"
  using decode_annotation_bounded [of s] by auto

lemma skip_members_no_panic: "members_passed part attrs n c \<noteq> Panic"
  by (induction n arbitrary: c) (auto simp: rbind_eq_Panic)

lemma class_attributes_no_panic: "attribute_reads n cp c \<noteq> Panic"
  by (induction n arbitrary: c)
     (auto simp: rbind_eq_Panic decode_total unwrap_def split: if_splits option.splits)

lemma attributes_local:
  "attribute_reads n cp c = Ok r \<Longrightarrow> attribute_reads n cp (appended e c) = Ok r"
proof (induction n arbitrary: c)
  case (Suc n)
  then obtain i c1 len c2 body c3 where r: "u2 c = Some (i, c1)" "u4 c1 = Some (len, c2)"
      "take_bytes (unat len) c2 = Some (body, c3)"
    by (auto simp: rbind_eq_Ok)
  then show ?case
    using Suc.prems Suc.IH [of c3]
    by (cases "signature_text body cp") (auto simp: reads_local split: if_splits option.splits)
qed simp

lemma skip_members_local:
  "members_passed part attrs n c = Ok c' \<Longrightarrow> members_passed part attrs n (appended e c) = Ok (appended e c')"
proof (induction n arbitrary: c)
  case (Suc n)
  then show ?case
    by (auto simp: rbind_eq_Ok reads_local pass_attrs.local_eq)
qed simp

text \<open>A signature, or the absence of one, is decided by the class file alone: bytes after it change nothing.\<close>

lemma signature_read_local:
  assumes "signature_read bs = Ok r"
  shows "signature_read (bs @ e) = Ok r"
proof -
  have new: "cursor_new (bs @ e) = appended e (cursor_new bs)"
    by (simp add: cursor_new_def appended_def)
  show ?thesis
    using assms
    unfolding signature_read_def attributes_read_def new
    by (auto simp: rbind_eq_Ok reads_local parse_pool.local_eq u2.times_local skip_members_local attributes_local
        split: if_splits)
qed

lemma signature_read_no_panic: "signature_read bs \<noteq> Panic"
  by (auto simp: signature_read_def attributes_read_def rbind_eq_Panic class_attributes_no_panic skip_members_no_panic)

end
