(* ===== verification/ClassfileReader.thy ===== *)
theory ClassfileReader
  imports Classfile
begin

text \<open>
  \<open>crates/pickle/src/classfile.rs\<close> as it is written: an index, a slice or a write out of range is a \<open>Panic\<close>, apart
  from the \<open>None\<close> of the source, which is \<open>Err ()\<close>.  The recursion over element values may, for all its
  definition says, go on for ever: a call that does not return is \<open>None\<close> there.  The lemmas show that every step reads
  what the format has at the cursor (\<open>Classfile\<close>), and so never panics.
\<close>

section \<open>Access that may panic\<close>

definition get_at :: "'a list \<Rightarrow> nat \<Rightarrow> ('a, 'e) result" where
  "get_at xs i = unwrap (idx xs i)"

definition set_at :: "'a list \<Rightarrow> nat \<Rightarrow> 'a \<Rightarrow> ('a list, 'e) result" where
  "set_at xs i v = unwrap (put xs i v)"

text \<open>\<open>&xs[a..b]\<close>\<close>

definition slice :: "'a list \<Rightarrow> nat \<Rightarrow> nat \<Rightarrow> ('a list, 'e) result" where
  "slice xs a b = (if a \<le> b \<and> b \<le> length xs then Ok (take (b - a) (drop a xs)) else Panic)"

text \<open>\<open>m.ok_or(e)\<close> and \<open>m.ok()\<close> on what may also panic\<close>

definition map_err :: "'f \<Rightarrow> ('a, 'e) result \<Rightarrow> ('a, 'f) result" where
  "map_err e m = (case m of Ok x \<Rightarrow> Ok x | Err _ \<Rightarrow> Err e | Panic \<Rightarrow> Panic)"

definition get_ok :: "('a, 'e) result \<Rightarrow> ('a option, 'f) result" where
  "get_ok m = (case m of Ok x \<Rightarrow> Ok (Some x) | Err _ \<Rightarrow> Ok None | Panic \<Rightarrow> Panic)"

lemma rbind_cong [fundef_cong]: "m = n \<Longrightarrow> (\<And>x. n = Ok x \<Longrightarrow> k x = l x) \<Longrightarrow> rbind m k = rbind n l"
  by (cases n) simp_all

section \<open>The cursor\<close>

definition Cursor_u1 :: "cursor \<Rightarrow> (u8 \<times> cursor, unit) result" where
  "Cursor_u1 c =
     (if length (cb c) \<le> ci c then Err ()
      else rbind (get_at (cb c) (ci c)) (\<lambda>v. Ok (v, c\<lparr>ci := ci c + 1\<rparr>)))"

definition Cursor_u2 :: "cursor \<Rightarrow> (u16 \<times> cursor, unit) result" where
  "Cursor_u2 c =
     rbind (Cursor_u1 c) (\<lambda>(hi, c).
     rbind (Cursor_u1 c) (\<lambda>(lo, c). Ok (push_bit 8 (ucast hi) OR ucast lo, c)))"

definition Cursor_u4 :: "cursor \<Rightarrow> (u32 \<times> cursor, unit) result" where
  "Cursor_u4 c =
     rbind (Cursor_u2 c) (\<lambda>(a, c).
     rbind (Cursor_u2 c) (\<lambda>(b, c). Ok (push_bit 16 (ucast a) OR ucast b, c)))"

definition Cursor_bytes :: "nat \<Rightarrow> cursor \<Rightarrow> (bytes \<times> cursor, unit) result" where
  "Cursor_bytes n c =
     (if length (cb c) < ci c + n then Err ()
      else rbind (slice (cb c) (ci c) (ci c + n)) (\<lambda>s. Ok (s, c\<lparr>ci := ci c + n\<rparr>)))"

text \<open>\<open>for _ in 0..n { step? }\<close>\<close>

fun repeat_step :: "nat \<Rightarrow> (cursor \<Rightarrow> ('a \<times> cursor, 'e) result) \<Rightarrow> cursor \<Rightarrow> (cursor, 'e) result" where
  "repeat_step 0 step c = Ok c"
| "repeat_step (Suc n) step c = rbind (step c) (\<lambda>(_, c). repeat_step n step c)"

definition skip_attr :: "cursor \<Rightarrow> (unit \<times> cursor, unit) result" where
  "skip_attr c =
     rbind (Cursor_u2 c) (\<lambda>(_, c).
     rbind (Cursor_u4 c) (\<lambda>(len, c).
     rbind (Cursor_bytes (unat len) c) (\<lambda>(_, c). Ok ((), c))))"

definition skip_attrs :: "cursor \<Rightarrow> (unit \<times> cursor, unit) result" where
  "skip_attrs c =
     rbind (Cursor_u2 c) (\<lambda>(n, c).
     rbind (repeat_step (unat n) skip_attr c) (\<lambda>c. Ok ((), c)))"

section \<open>Text and the constant pool\<close>

text \<open>The loop of \<open>modified_utf8_to_string\<close>, with its \<open>i\<close> and its \<open>s\<close>.\<close>

function mutf8_loop :: "bytes \<Rightarrow> nat \<Rightarrow> str \<Rightarrow> (str, unit) result" where
  "mutf8_loop b i s =
     (if i < length b then
        rbind (get_at b i) (\<lambda>x.
        if x = 0 then Err ()
        else if x < 0x80 then mutf8_loop b (i + 1) (s @ [unat x])
        else if x AND 0xe0 = 0xc0 then
          (if length b \<le> i + 1 then Err ()
           else
             rbind (get_at b (i + 1)) (\<lambda>y.
             rbind (ok_or () (char_from_u32 (unat (mutf8_2 x y)))) (\<lambda>ch. mutf8_loop b (i + 2) (s @ [ch]))))
        else if x AND 0xf0 = 0xe0 then
          (if length b \<le> i + 2 then Err ()
           else
             rbind (get_at b (i + 1)) (\<lambda>y.
             rbind (get_at b (i + 2)) (\<lambda>z.
             rbind (ok_or () (char_from_u32 (unat (mutf8_3 x y z)))) (\<lambda>ch. mutf8_loop b (i + 3) (s @ [ch])))))
        else Err ())
      else Ok s)"
  by pat_completeness auto
termination
  by (relation "measure (\<lambda>(b, i, s). length b - i)") auto

declare mutf8_loop.simps [simp del]

definition modified_utf8_to_string :: "bytes \<Rightarrow> (str, unit) result" where
  "modified_utf8_to_string b = mutf8_loop b 0 []"

definition Cp_utf8 :: "cpool \<Rightarrow> u16 \<Rightarrow> (str, unit) result" where
  "Cp_utf8 cp i =
     (let i = unat i in
      if i = 0 \<or> length (tags cp) \<le> i then Err ()
      else
        rbind (get_at (tags cp) i) (\<lambda>tag.
        if tag \<noteq> 1 then Err ()
        else rbind (get_at (data cp) i) modified_utf8_to_string))"

definition Cp_class_name :: "cpool \<Rightarrow> u16 \<Rightarrow> (str, unit) result" where
  "Cp_class_name cp i =
     (let i = unat i in
      if i = 0 \<or> length (tags cp) \<le> i then Err ()
      else
        rbind (get_at (tags cp) i) (\<lambda>tag.
        if tag \<noteq> 7 then Err ()
        else
          rbind (get_at (data cp) i) (\<lambda>d.
          if length d < 2 then Err ()
          else
            rbind (get_at d 0) (\<lambda>hi.
            rbind (get_at d 1) (\<lambda>lo. Cp_utf8 cp (be16_of hi lo))))))"

text \<open>One arm of \<open>parse_cp\<close>'s \<open>match\<close>: the entry's data, and the extra slots it takes.\<close>

definition cp_entry :: "u8 \<Rightarrow> cursor \<Rightarrow> (bytes \<times> nat \<times> cursor, unit) result" where
  "cp_entry tag c =
     (if tag = 1 then
        rbind (Cursor_u2 c) (\<lambda>(n, c).
        rbind (Cursor_bytes (unat n) c) (\<lambda>(d, c). Ok (d, 0, c)))
      else if tag \<in> {7, 8, 16, 19, 20} then
        rbind (Cursor_u2 c) (\<lambda>(v, c). Ok (be16 v, 0, c))
      else if tag \<in> {3, 4, 9, 10, 11, 12, 17, 18} then
        rbind (Cursor_u2 c) (\<lambda>(v, c).
        rbind (Cursor_u2 c) (\<lambda>(w, c). Ok (be16 v @ be16 w, 0, c)))
      else if tag \<in> {5, 6} then
        rbind (Cursor_bytes 8 c) (\<lambda>(d, c). Ok (d, 1, c))
      else if tag = 15 then
        rbind (Cursor_u1 c) (\<lambda>(v, c).
        rbind (Cursor_u2 c) (\<lambda>(w, c). Ok (v # be16 w, 0, c)))
      else Err ())"

function cp_loop :: "nat \<Rightarrow> nat \<Rightarrow> bytes \<Rightarrow> bytes list \<Rightarrow> cursor \<Rightarrow> (cpool \<times> cursor, unit) result" where
  "cp_loop cp_count i ts ds c =
     (if i < cp_count then
        rbind (Cursor_u1 c) (\<lambda>(tag, c).
        rbind (set_at ts i tag) (\<lambda>ts.
        rbind (cp_entry tag c) (\<lambda>(d, extra, c).
        rbind (set_at ds i d) (\<lambda>ds. cp_loop cp_count (i + extra + 1) ts ds c))))
      else Ok (\<lparr>tags = ts, data = ds\<rparr>, c))"
  by pat_completeness auto
termination
  by (relation "measure (\<lambda>(cp_count, i, ts, ds, c). cp_count - i)") auto

declare cp_loop.simps [simp del]

definition parse_cp :: "cursor \<Rightarrow> (cpool \<times> cursor, unit) result" where
  "parse_cp c =
     rbind (Cursor_u2 c) (\<lambda>(cp_count, c).
       cp_loop (unat cp_count) 1 (replicate (unat cp_count) 0) (replicate (unat cp_count) []) c)"

section \<open>Element values\<close>

text \<open>A call that may not return (\<open>None\<close>), after a step.\<close>

definition on_ok :: "('a, 'e) result \<Rightarrow> ('a \<Rightarrow> ('b, 'e) result option) \<Rightarrow> ('b, 'e) result option" where
  "on_ok m k = (case m of Ok x \<Rightarrow> k x | Err e \<Rightarrow> Some (Err e) | Panic \<Rightarrow> Some Panic)"

lemma on_ok_mono [partial_function_mono]:
  "(\<And>x. mono_option (\<lambda>f. k f x)) \<Longrightarrow> mono_option (\<lambda>f. on_ok m (k f))"
  by (cases m) (simp_all add: on_ok_def monotone_def flat_ord_def)

text \<open>
  \<open>read_element_value\<close>, and the loops of its last two arms: \<open>Some (named, n)\<close> is a loop with \<open>n\<close> values to go, each
  after a name in an annotation.
\<close>

partial_function (option) element_walk ::
  "cpool \<Rightarrow> (bool \<times> nat) option \<Rightarrow> cursor \<Rightarrow> str \<Rightarrow> (str \<times> cursor, unit) result option" where
  "element_walk cp w c sink =
     (case w of
        None \<Rightarrow>
          on_ok (Cursor_u1 c) (\<lambda>(tag, c).
          if tag = byte CHR ''s'' then
            Some (rbind (Cursor_u2 c) (\<lambda>(ui, c). rbind (Cp_utf8 cp ui) (\<lambda>s. Ok (sink @ s, c))))
          else if tag \<in> {byte CHR ''B'', byte CHR ''C'', byte CHR ''I'', byte CHR ''S'', byte CHR ''Z'',
                         byte CHR ''F'', byte CHR ''D'', byte CHR ''J'', byte CHR ''c''} then
            Some (rbind (Cursor_u2 c) (\<lambda>(_, c). Ok (sink, c)))
          else if tag = byte CHR ''e'' then
            Some (rbind (Cursor_u2 c) (\<lambda>(_, c). rbind (Cursor_u2 c) (\<lambda>(_, c). Ok (sink, c))))
          else if tag = byte CHR ''@'' then
            on_ok (Cursor_u2 c) (\<lambda>(_, c).
            on_ok (Cursor_u2 c) (\<lambda>(npairs, c). element_walk cp (Some (True, unat npairs)) c sink))
          else if tag = byte CHR ''['' then
            on_ok (Cursor_u2 c) (\<lambda>(n, c). element_walk cp (Some (False, unat n)) c sink)
          else Some (Err ()))
      | Some (named, n) \<Rightarrow>
          if n = 0 then Some (Ok (sink, c))
          else
            on_ok (if named then rbind (Cursor_u2 c) (\<lambda>(_, c). Ok c) else Ok c) (\<lambda>c.
            Option.bind (element_walk cp None c sink) (\<lambda>r.
            on_ok r (\<lambda>(sink, c). element_walk cp (Some (named, n - 1)) c sink))))"

definition read_element_value :: "cpool \<Rightarrow> cursor \<Rightarrow> str \<Rightarrow> (str \<times> cursor, unit) result option" where
  "read_element_value cp c sink = element_walk cp None c sink"

section \<open>The signature annotation\<close>

text \<open>A call that does not come back is put with the panics.\<close>

definition returned :: "('a, 'e) result option \<Rightarrow> ('a, 'e) result" where
  "returned m = (case m of Some r \<Rightarrow> r | None \<Rightarrow> Panic)"

text \<open>The inner loop of \<open>signature_string\<close>: \<open>n\<close> pairs left.\<close>

fun signature_pairs :: "nat \<Rightarrow> bool \<Rightarrow> cpool \<Rightarrow> str option \<Rightarrow> cursor \<Rightarrow> (str option \<times> cursor, unit) result" where
  "signature_pairs 0 is_sig cp found c = Ok (found, c)"
| "signature_pairs (Suc n) is_sig cp found c =
     rbind (Cursor_u2 c) (\<lambda>(name_i, c).
     rbind (get_ok (Cp_utf8 cp name_i)) (\<lambda>name.
     rbind (returned (read_element_value cp c [])) (\<lambda>(sink, c).
       signature_pairs n is_sig cp (if is_sig \<and> unwrap_or_default name = lit ''bytes'' then Some sink else found) c)))"

fun signature_annotations :: "nat \<Rightarrow> cpool \<Rightarrow> cursor \<Rightarrow> (str option, unit) result" where
  "signature_annotations 0 cp c = Ok None"
| "signature_annotations (Suc n) cp c =
     rbind (Cursor_u2 c) (\<lambda>(type_i, c).
     rbind (get_ok (Cp_utf8 cp type_i)) (\<lambda>ty.
     let is_sig = str_contains (unwrap_or_default ty) (lit ''ScalaSignature'') \<or>
                  str_contains (unwrap_or_default ty) (lit ''ScalaLongSignature'') in
     rbind (Cursor_u2 c) (\<lambda>(npairs, c).
     rbind (signature_pairs (unat npairs) is_sig cp None c) (\<lambda>(found, c).
       case found of Some s \<Rightarrow> Ok (Some s) | None \<Rightarrow> signature_annotations n cp c))))"

definition signature_string :: "bytes \<Rightarrow> cpool \<Rightarrow> (str option, unit) result" where
  "signature_string body cp =
     rbind (Cursor_u2 (cursor_new body)) (\<lambda>(nann, c). signature_annotations (unat nann) cp c)"

section \<open>The class file\<close>

fun class_attributes :: "nat \<Rightarrow> cpool \<Rightarrow> cursor \<Rightarrow> (bytes option, ClassfileError) result" where
  "class_attributes 0 cp c = Ok None"
| "class_attributes (Suc n) cp c =
     rbind (map_err (Truncated ''class attribute'') (Cursor_u2 c)) (\<lambda>(name_i, c).
     rbind (map_err (Truncated ''class attribute'') (Cursor_u4 c)) (\<lambda>(len, c).
     rbind (map_err (Truncated ''class attribute body'') (Cursor_bytes (unat len) c)) (\<lambda>(body, c).
     rbind (get_ok (Cp_utf8 cp name_i)) (\<lambda>name.
       if name \<noteq> Some (lit ''RuntimeVisibleAnnotations'') then class_attributes n cp c
       else
         rbind (map_err (Malformed ''RuntimeVisibleAnnotations'') (signature_string body cp)) (\<lambda>s.
         case s of
           Some s \<Rightarrow> rbind (unwrap (decode_annotation_string s)) (\<lambda>bs. Ok (Some bs))
         | None \<Rightarrow> class_attributes n cp c)))))"

definition scala_signature_bytes_from_class_attributes ::
  "cursor \<Rightarrow> cpool \<Rightarrow> (bytes option, ClassfileError) result" where
  "scala_signature_bytes_from_class_attributes c cp =
     rbind (map_err (Truncated ''class attributes'') (Cursor_u2 c)) (\<lambda>(nattrs, c). class_attributes (unat nattrs) cp c)"

text \<open>The loop over the fields, and the one over the methods, with the parts their errors name.\<close>

fun skip_members :: "string \<Rightarrow> string \<Rightarrow> nat \<Rightarrow> cursor \<Rightarrow> (cursor, ClassfileError) result" where
  "skip_members part attrs 0 c = Ok c"
| "skip_members part attrs (Suc n) c =
     rbind (map_err (Truncated part) (Cursor_u2 c)) (\<lambda>(_, c).
     rbind (map_err (Truncated part) (Cursor_u2 c)) (\<lambda>(_, c).
     rbind (map_err (Truncated part) (Cursor_u2 c)) (\<lambda>(_, c).
     rbind (map_err (Truncated attrs) (skip_attrs c)) (\<lambda>(_, c). skip_members part attrs n c))))"

definition scala_signature_bytes_result :: "bytes \<Rightarrow> (bytes option, ClassfileError) result" where
  "scala_signature_bytes_result bs =
     rbind (map_err (Truncated ''magic'') (Cursor_u4 (cursor_new bs))) (\<lambda>(magic, c).
     if magic \<noteq> 0xCAFEBABE then Err BadMagic else
     rbind (map_err (Truncated ''version'') (Cursor_u2 c)) (\<lambda>(_, c).
     rbind (map_err (Truncated ''version'') (Cursor_u2 c)) (\<lambda>(_, c).
     rbind (map_err (Malformed ''constant pool'') (parse_cp c)) (\<lambda>(cp, c).
     rbind (map_err (Truncated ''class header'') (Cursor_u2 c)) (\<lambda>(_, c).
     rbind (map_err (Truncated ''class header'') (Cursor_u2 c)) (\<lambda>(_, c).
     rbind (map_err (Truncated ''class header'') (Cursor_u2 c)) (\<lambda>(_, c).
     rbind (map_err (Truncated ''interfaces'') (Cursor_u2 c)) (\<lambda>(niface, c).
     rbind (map_err (Truncated ''interfaces'') (repeat_step (unat niface) Cursor_u2 c)) (\<lambda>c.
     rbind (map_err (Truncated ''fields'') (Cursor_u2 c)) (\<lambda>(nfields, c).
     rbind (skip_members ''field'' ''field attributes'' (unat nfields) c) (\<lambda>c.
     rbind (map_err (Truncated ''methods'') (Cursor_u2 c)) (\<lambda>(nmethods, c).
     rbind (skip_members ''method'' ''method attributes'' (unat nmethods) c) (\<lambda>c.
       scala_signature_bytes_from_class_attributes c cp)))))))))))))"

text \<open>\<open>.ok().flatten()\<close>; \<open>None\<close> is a panic\<close>

definition scala_signature_bytes :: "bytes \<Rightarrow> bytes option option" where
  "scala_signature_bytes bs =
     (case scala_signature_bytes_result bs of
        Ok r \<Rightarrow> Some r
      | Err _ \<Rightarrow> Some None
      | Panic \<Rightarrow> None)"

section \<open>Every step reads what the format has there\<close>

named_theorems reads_format \<open>a step of the reader is the read of the format\<close>

lemma refine_bind:
  "m' = ok_or e m \<Longrightarrow> (\<And>x. m = Some x \<Longrightarrow> k' x = ok_or e (k x)) \<Longrightarrow> rbind m' k' = ok_or e (m \<bind> k)"
  by (cases m) simp_all

lemma get_at_in [simp]: "i < length xs \<Longrightarrow> get_at xs i = Ok (xs ! i)"
  by (simp add: get_at_def idx_def)

lemma set_at_in [simp]: "i < length xs \<Longrightarrow> set_at xs i v = Ok (xs[i := v])"
  by (simp add: set_at_def put_def)

lemma map_err_ok_or [simp]: "map_err e (ok_or u m) = ok_or e m"
  by (cases m) (simp_all add: map_err_def)

lemma get_ok_ok_or [simp]: "get_ok (ok_or u m) = Ok m"
  by (cases m) (simp_all add: get_ok_def)

lemma u1_reads_format [reads_format]: "Cursor_u1 c = ok_or () (u1 c)"
  by (simp add: Cursor_u1_def u1_def)

lemma u2_reads_format [reads_format]: "Cursor_u2 c = ok_or () (u2 c)"
  unfolding Cursor_u2_def u2_def reads_format
  by (intro refine_bind refl) (auto intro!: refine_bind split: prod.split)

lemma u4_reads_format [reads_format]: "Cursor_u4 c = ok_or () (u4 c)"
  unfolding Cursor_u4_def u4_def reads_format
  by (intro refine_bind refl) (auto intro!: refine_bind split: prod.split)

lemma bytes_reads_format [reads_format]: "Cursor_bytes n c = ok_or () (take_bytes n c)"
  by (simp add: Cursor_bytes_def take_bytes_def slice_def)

lemma repeat_reads_format:
  "(\<And>c. step c = ok_or e (spec c)) \<Longrightarrow> repeat_step n step c = ok_or e (read_times n spec c)"
  by (induction n arbitrary: c) (auto intro!: refine_bind split: prod.split)

lemma skip_attr_reads_format [reads_format]: "skip_attr c = ok_or () (pass_attr c)"
  unfolding skip_attr_def pass_attr_def reads_format
  by (auto intro!: refine_bind split: prod.split)

lemma skip_attrs_reads_format [reads_format]: "skip_attrs c = ok_or () (pass_attrs c)"
  unfolding skip_attrs_def pass_attrs_def reads_format repeat_reads_format [OF skip_attr_reads_format]
  by (auto intro!: refine_bind split: prod.split)

text \<open>The loop over the bytes is the decoding of those left.\<close>

lemma ok_or_map: "ok_or e (map_option ((@) s) (map_option ((#) v) m)) = ok_or e (map_option (\<lambda>a. s @ v # a) m)"
  by (cases m) simp_all

lemma mutf8_loop_text: "mutf8_loop b i s = ok_or () (map_option ((@) s) (mutf8_text (drop i b)))"
proof (induction b i s rule: mutf8_loop.induct)
  case (1 b i s)
  show ?case
  proof (cases "i < length b")
    case False
    then show ?thesis by (subst mutf8_loop.simps) simp
  next
    case True
    define x where "x = b ! i"
    have d: "drop i b = x # drop (i + 1) b" using True by (simp add: x_def Cons_nth_drop_Suc)
    consider "x = 0" | "x \<noteq> 0" "x < 0x80" | "x \<noteq> 0" "\<not> x < 0x80" "x AND 0xe0 = 0xc0"
      | "x \<noteq> 0" "\<not> x < 0x80" "x AND 0xe0 \<noteq> 0xc0" "x AND 0xf0 = 0xe0"
      | "x \<noteq> 0" "\<not> x < 0x80" "x AND 0xe0 \<noteq> 0xc0" "x AND 0xf0 \<noteq> 0xe0"
      by blast
    then show ?thesis
    proof cases
      case 1
      then show ?thesis using True by (subst mutf8_loop.simps) (simp add: d x_def [symmetric])
    next
      case 2
      then show ?thesis
        using True "1.IH"(1) [OF True, of x] by (subst mutf8_loop.simps) (simp add: d x_def [symmetric] ok_or_map)
    next
      case 3
      show ?thesis
      proof (cases "i + 1 < length b")
        case False
        then show ?thesis using True 3 by (subst mutf8_loop.simps) (simp add: d x_def [symmetric])
      next
        case l: True
        then have "drop (i + 1) b = b ! (i + 1) # drop (i + 2) b" by (simp add: Cons_nth_drop_Suc)
        then show ?thesis
          using True l 3 "1.IH"(2) [OF True, of x "b ! (i + 1)"]
          by (subst mutf8_loop.simps)
            (cases "char_from_u32 (unat (mutf8_2 x (b ! (i + 1))))"; simp add: d x_def [symmetric] ok_or_map not_le)
      qed
    next
      case 4
      show ?thesis
      proof (cases "i + 2 < length b")
        case False
        then have "length (drop (i + 1) b) < 2" by simp
        then obtain y where "drop (i + 1) b = [] \<or> drop (i + 1) b = [y]"
          by (metis One_nat_def length_0_conv length_Suc_conv less_2_cases)
        then show ?thesis using True 4 False by (subst mutf8_loop.simps) (auto simp: d x_def [symmetric])
      next
        case l: True
        then have "drop (i + 1) b = b ! (i + 1) # b ! (i + 2) # drop (i + 3) b" by (simp add: Cons_nth_drop_Suc eval_nat_numeral)
        then show ?thesis
          using True l 4 "1.IH"(3) [OF True, of x "b ! (i + 1)" "b ! (i + 2)"]
          by (subst mutf8_loop.simps)
            (cases "char_from_u32 (unat (mutf8_3 x (b ! (i + 1)) (b ! (i + 2))))"; simp add: d x_def [symmetric] ok_or_map not_le)
      qed
    next
      case 5
      then show ?thesis using True by (subst mutf8_loop.simps) (simp add: d x_def [symmetric])
    qed
  qed
qed

lemma to_string_reads_format [reads_format]: "modified_utf8_to_string b = ok_or () (mutf8_text b)"
  by (cases "mutf8_text b") (simp_all add: modified_utf8_to_string_def mutf8_loop_text)

text \<open>A pool whose two vectors have one length.\<close>

lemma utf8_reads_format: "length (data cp) = length (tags cp) \<Longrightarrow> Cp_utf8 cp i = ok_or () (cp_utf8 cp i)"
  by (simp add: Cp_utf8_def cp_utf8_def Let_def reads_format idx_def)

lemma class_name_reads_format:
  "length (data cp) = length (tags cp) \<Longrightarrow> Cp_class_name cp i = ok_or () (cp_class_name cp i)"
  by (simp add: Cp_class_name_def cp_class_name_def Let_def utf8_reads_format idx_def get_at_def)

lemma entry_reads_format [reads_format]: "cp_entry tag c = ok_or () (pool_entry tag c)"
  unfolding cp_entry_def pool_entry_def reads_format
  by (auto intro!: refine_bind simp del: insert_iff split: prod.split)

lemma loop_reads_format:
  "length ts = n \<Longrightarrow> length ds = n \<Longrightarrow> cp_loop n i ts ds c = ok_or () (pool_loop n i ts ds c)"
proof (induction n i ts ds c rule: cp_loop.induct)
  case (1 n i ts ds c)
  show ?case
  proof (cases "i < n")
    case False
    then show ?thesis by (simp add: cp_loop.simps [of n i] pool_loop.simps [of n i])
  next
    case True
    show ?thesis
    proof (cases "u1 c")
      case None
      then show ?thesis using True by (simp add: cp_loop.simps [of n i] pool_loop.simps [of n i] reads_format)
    next
      case (Some p)
      then obtain tag c1 where u: "u1 c = Some (tag, c1)" by (cases p) auto
      show ?thesis
      proof (cases "pool_entry tag c1")
        case None
        then show ?thesis
          using True u "1.prems" by (simp add: cp_loop.simps [of n i] pool_loop.simps [of n i] reads_format)
      next
        case (Some q)
        then obtain d k c2 where e: "pool_entry tag c1 = Some (d, k, c2)" by (cases q) auto
        have "cp_loop n (i + k + 1) (ts[i := tag]) (ds[i := d]) c2 = ok_or () (pool_loop n (i + k + 1) (ts[i := tag]) (ds[i := d]) c2)"
          using "1.IH" [OF True, of "(tag, c1)" tag c1 "ts[i := tag]" "(d, k, c2)" d "(k, c2)" k c2 "ds[i := d]"] u e True "1.prems"
          by (simp add: reads_format)
        then show ?thesis
          using True u e "1.prems" by (simp add: cp_loop.simps [of n i] pool_loop.simps [of n i] reads_format)
      qed
    qed
  qed
qed

lemma parse_cp_reads_format [reads_format]: "parse_cp c = ok_or () (parse_pool c)"
  unfolding parse_cp_def parse_pool_def reads_format
  by (auto intro!: refine_bind loop_reads_format split: prod.split)

section \<open>Reading an element value returns\<close>

lemma u1_shrinks: "Cursor_u1 c = Ok (v, c') \<Longrightarrow> bytes_left c' < bytes_left c"
  by (simp add: reads_format) (rule u1_left)

lemma u2_shrinks: "Cursor_u2 c = Ok (v, c') \<Longrightarrow> bytes_left c' \<le> bytes_left c"
  by (simp add: reads_format) (rule moved_left [OF u2.moves])

lemma on_ok_returns:
  assumes "\<And>x. m = Ok x \<Longrightarrow> \<exists>r. k x = Some r \<and> (\<forall>s c'. r = Ok (s, c') \<longrightarrow> P c')"
  shows "\<exists>r. on_ok m k = Some r \<and> (\<forall>s c'. r = Ok (s, c') \<longrightarrow> P c')"
  using assms by (cases m) (auto simp: on_ok_def)

lemma walk_values:
  "element_walk cp (Some (named, Suc n)) c sink =
     on_ok (if named then rbind (Cursor_u2 c) (\<lambda>(_, c). Ok c) else Ok c) (\<lambda>c.
     Option.bind (element_walk cp None c sink) (\<lambda>r. on_ok r (\<lambda>(sink, c). element_walk cp (Some (named, n)) c sink)))"
  by (subst element_walk.simps) simp

text \<open>The loop over the values returns if every value does, and leaves no more bytes than there were.\<close>

lemma values_return:
  assumes "\<And>c sink. bytes_left c \<le> m \<Longrightarrow>
      \<exists>r. element_walk cp None c sink = Some r \<and> (\<forall>s c'. r = Ok (s, c') \<longrightarrow> bytes_left c' \<le> bytes_left c)"
    and "bytes_left c \<le> m"
  shows "\<exists>r. element_walk cp (Some (named, n)) c sink = Some r \<and> (\<forall>s c'. r = Ok (s, c') \<longrightarrow> bytes_left c' \<le> bytes_left c)"
  using assms(2)
proof (induction n arbitrary: c sink)
  case 0
  then show ?case by (subst element_walk.simps) simp
next
  case (Suc n)
  show ?case
    unfolding walk_values
  proof (rule on_ok_returns)
    fix c1
    assume "(if named then rbind (Cursor_u2 c) (\<lambda>(_, c). Ok c) else Ok c) = Ok c1"
    then have c1: "bytes_left c1 \<le> bytes_left c"
      by (auto simp: rbind_eq_Ok dest: u2_shrinks split: if_splits)
    then obtain r where r: "element_walk cp None c1 sink = Some r" "\<forall>s c'. r = Ok (s, c') \<longrightarrow> bytes_left c' \<le> bytes_left c1"
      using assms(1) [of c1 sink] Suc.prems by auto
    have "\<exists>q. on_ok r (\<lambda>(sink, c). element_walk cp (Some (named, n)) c sink) = Some q \<and>
        (\<forall>s c'. q = Ok (s, c') \<longrightarrow> bytes_left c' \<le> bytes_left c)"
    proof (rule on_ok_returns)
      fix x
      assume "r = Ok x"
      then obtain s c2 where x: "x = (s, c2)" "bytes_left c2 \<le> bytes_left c1" using r(2) by (cases x) auto
      then show "\<exists>q. (case x of (sink, c) \<Rightarrow> element_walk cp (Some (named, n)) c sink) = Some q \<and>
          (\<forall>s c'. q = Ok (s, c') \<longrightarrow> bytes_left c' \<le> bytes_left c)"
        using Suc.IH [of c2 s] c1 Suc.prems by fastforce
    qed
    then show "\<exists>q. Option.bind (element_walk cp None c1 sink) (\<lambda>r. on_ok r (\<lambda>(sink, c). element_walk cp (Some (named, n)) c sink)) = Some q \<and>
        (\<forall>s c'. q = Ok (s, c') \<longrightarrow> bytes_left c' \<le> bytes_left c)"
      using r(1) by simp
  qed
qed

lemma value_returns:
  "\<exists>r. element_walk cp None c sink = Some r \<and> (\<forall>s c'. r = Ok (s, c') \<longrightarrow> bytes_left c' < bytes_left c)"
proof (induction "bytes_left c" arbitrary: c sink rule: less_induct)
  case less
  show ?case
  proof (subst element_walk.simps, simp only: option.case, rule on_ok_returns, goal_cases)
    case (1 x)
    obtain tag c1 where x: "x = (tag, c1)" by (cases x)
    have c1: "bytes_left c1 < bytes_left c" using u1_shrinks 1 x by simp
    have vals: "\<exists>r. element_walk cp (Some (named, n)) d sink = Some r \<and> (\<forall>s c'. r = Ok (s, c') \<longrightarrow> bytes_left c' < bytes_left c)"
      if "bytes_left d \<le> bytes_left c1" for named n d
    proof -
      have "\<exists>r. element_walk cp (Some (named, n)) d sink = Some r \<and> (\<forall>s c'. r = Ok (s, c') \<longrightarrow> bytes_left c' \<le> bytes_left d)"
      proof (rule values_return [of "bytes_left c1"])
        fix e sink'
        assume "bytes_left e \<le> bytes_left c1"
        then show "\<exists>r. element_walk cp None e sink' = Some r \<and> (\<forall>s c'. r = Ok (s, c') \<longrightarrow> bytes_left c' \<le> bytes_left e)"
          using less.hyps [of e sink'] c1 by (meson le_less_trans less_imp_le)
      qed (rule that)
      then show ?thesis using that c1 by fastforce
    qed
    have last: "\<exists>r. on_ok (Cursor_u2 d) (\<lambda>(k, d). element_walk cp (Some (named, unat k)) d sink) = Some r \<and>
        (\<forall>s c'. r = Ok (s, c') \<longrightarrow> bytes_left c' < bytes_left c)" if "bytes_left d \<le> bytes_left c1" for d named
    proof (rule on_ok_returns)
      fix y
      assume y: "Cursor_u2 d = Ok y"
      obtain k d' where k: "y = (k, d')" by (cases y)
      then show "\<exists>r. (case y of (k, d) \<Rightarrow> element_walk cp (Some (named, unat k)) d sink) = Some r \<and>
          (\<forall>s c'. r = Ok (s, c') \<longrightarrow> bytes_left c' < bytes_left c)"
        using vals u2_shrinks [of d k d'] that y by simp
    qed
    have pair: "\<exists>r. on_ok (Cursor_u2 c1) (\<lambda>(_, d). on_ok (Cursor_u2 d) (\<lambda>(k, d). element_walk cp (Some (True, unat k)) d sink)) = Some r \<and>
        (\<forall>s c'. r = Ok (s, c') \<longrightarrow> bytes_left c' < bytes_left c)"
    proof (rule on_ok_returns)
      fix y
      assume y: "Cursor_u2 c1 = Ok y"
      obtain k d where k: "y = (k, d)" by (cases y)
      then show "\<exists>r. (case y of (_, d) \<Rightarrow> on_ok (Cursor_u2 d) (\<lambda>(k, d). element_walk cp (Some (True, unat k)) d sink)) = Some r \<and>
          (\<forall>s c'. r = Ok (s, c') \<longrightarrow> bytes_left c' < bytes_left c)"
        using last u2_shrinks [of c1 k d] y by simp
    qed
    show ?case
      unfolding x prod.case
      using last [OF order_refl, of False] pair c1
      by (auto simp del: insert_iff simp: rbind_eq_Ok dest!: u2_shrinks)
  qed
qed

text \<open>On a pool whose vectors agree it returns the value the format has there.\<close>

lemma on_ok_refine:
  "(\<And>x. m = Some x \<Longrightarrow> k x = Some (ok_or e (l x))) \<Longrightarrow> on_ok (ok_or e m) k = Some (ok_or e (m \<bind> l))"
  by (cases m) (simp_all add: on_ok_def)

lemma walk_none:
  "element_walk cp (Some (named, 0)) c sink = Some (Ok (sink, c))"
  by (subst element_walk.simps) simp

lemma values_read_format:
  assumes "\<And>c sink. bytes_left c \<le> m \<Longrightarrow> element_walk cp None c sink = Some (ok_or () (read_value f cp c sink))"
    and "bytes_left c \<le> m"
  shows "element_walk cp (Some (named, n)) c sink = Some (ok_or () (read_values f named n cp c sink))"
  using assms(2)
proof (induction n arbitrary: c sink)
  case 0
  then show ?case by (simp add: walk_none)
next
  case (Suc n)
  have h: "(if named then rbind (Cursor_u2 c) (\<lambda>(_, c). Ok c) else Ok c) =
      ok_or () (if named then map_option snd (u2 c) else Some c)"
    by (cases "u2 c") (auto simp: reads_format)
  show ?case
  proof (cases "if named then map_option snd (u2 c) else Some c")
    case None
    then show ?thesis unfolding walk_values h by (simp add: on_ok_def)
  next
    case (Some c1)
    then have c1: "bytes_left c1 \<le> m"
      using Suc.prems by (auto split: if_splits dest!: u2.moves moved_left)
    show ?thesis
    proof (cases "read_value f cp c1 sink")
      case None
      then show ?thesis using Some assms(1) [OF c1] unfolding walk_values h by (simp add: on_ok_def)
    next
      case v: (Some p)
      then obtain s c2 where p: "p = (s, c2)" "bytes_left c2 \<le> m"
        using c1 by (cases p) (auto dest!: value_moves moved_left)
      then show ?thesis using Some v Suc.IH [of c2 s] assms(1) [OF c1] unfolding walk_values h by (simp add: on_ok_def)
    qed
  qed
qed

lemma value_reads_format:
  assumes "length (data cp) = length (tags cp)"
  shows "bytes_left c < f \<Longrightarrow> element_walk cp None c sink = Some (ok_or () (read_value f cp c sink))"
proof (induction f arbitrary: c sink)
  case (Suc f)
  show ?case
  proof (cases "u1 c")
    case None
    then show ?thesis by (subst element_walk.simps) (simp add: reads_format on_ok_def)
  next
    case (Some p)
    then obtain tag c1 where u: "u1 c = Some (tag, c1)" by (cases p) auto
    then have m: "bytes_left c1 < f" using u1_left [OF u] Suc.prems by simp
    have vals: "element_walk cp (Some (named, n)) d sink = Some (ok_or () (read_values f named n cp d sink))"
      if "bytes_left d \<le> bytes_left c1" for named n d
      by (rule values_read_format [of "bytes_left c1"]) (use Suc.IH m that in auto)
    have u2s: "bytes_left d' \<le> bytes_left c1" if "u2 d = Some (v, d')" "bytes_left d \<le> bytes_left c1" for d v d'
      using moved_left [OF u2.moves [OF that(1)]] that(2) by simp
    show ?thesis
      by (subst element_walk.simps,
          simp only: read_value.simps option.case reads_format utf8_reads_format [OF assms], rule on_ok_refine)
        (auto simp del: insert_iff simp: u intro!: on_ok_refine refine_bind vals dest!: u2s split: prod.split)
  qed
qed simp

lemma element_reads_format:
  "length (data cp) = length (tags cp) \<Longrightarrow> returned (read_element_value cp c sink) = ok_or () (element_value cp c sink)"
  unfolding read_element_value_def element_value_def
  by (subst value_reads_format [where f = "Suc (bytes_left c)"]) (simp_all add: returned_def bytes_left_def)

section \<open>The walk to the signature\<close>

lemma pairs_read_format:
  assumes "length (data cp) = length (tags cp)"
  shows "signature_pairs n is_sig cp found c = ok_or () (pairs_text n is_sig cp found c)"
  by (induction n arbitrary: found c)
    (auto simp: reads_format utf8_reads_format [OF assms] element_reads_format [OF assms] intro!: refine_bind split: prod.split)

lemma annotations_read_format:
  assumes "length (data cp) = length (tags cp)"
  shows "signature_annotations n cp c = ok_or () (annotations_text n cp c)"
  by (induction n arbitrary: c)
    (auto simp: reads_format utf8_reads_format [OF assms] pairs_read_format [OF assms] Let_def
      intro!: refine_bind split: prod.split option.split)

lemma string_reads_format:
  "length (data cp) = length (tags cp) \<Longrightarrow> signature_string body cp = ok_or () (signature_text body cp)"
  unfolding signature_string_def signature_text_def reads_format
  by (auto simp: annotations_read_format intro!: refine_bind split: prod.split)

lemma rbind_same: "(\<And>x. m = Ok x \<Longrightarrow> k x = l x) \<Longrightarrow> rbind m k = rbind m l"
  by (cases m) simp_all

lemma attributes_read_format:
  assumes "length (data cp) = length (tags cp)"
  shows "class_attributes n cp c = attribute_reads n cp c"
proof (induction n arbitrary: c)
  case (Suc n)
  show ?case
    unfolding class_attributes.simps attribute_reads.simps reads_format map_err_ok_or
      utf8_reads_format [OF assms] string_reads_format [OF assms] get_ok_ok_or rbind.simps
    by (auto intro!: rbind_same Suc.IH split: option.split)
qed simp

lemma members_read_format: "skip_members part attrs n c = members_passed part attrs n c"
proof (induction n arbitrary: c)
  case (Suc n)
  show ?case
    unfolding skip_members.simps members_passed.simps reads_format map_err_ok_or
    by (auto intro!: rbind_same Suc.IH)
qed simp

lemma result_reads_format: "scala_signature_bytes_result bs = signature_read bs"
  unfolding scala_signature_bytes_result_def signature_read_def scala_signature_bytes_from_class_attributes_def attributes_read_def
    reads_format map_err_ok_or repeat_reads_format [OF u2_reads_format] members_read_format
  by (auto intro!: rbind_same simp: attributes_read_format parse_pool_lengths)

section \<open>Properties\<close>

text \<open>
  C7: reading a signature never panics and always returns, on any bytes: every index, slice and write of the cursor,
  the constant pool, the text decoder, the annotation reader and the codec is in range, and every loop ends.  (A value
  that did not return would count as a panic; the depth of the call stack is not bounded in the model.)
\<close>

theorem signature_never_panics: "scala_signature_bytes_result bs \<noteq> Panic"
  unfolding result_reads_format by (rule signature_read_no_panic)

text \<open>
  C12: reading an element value returns on every input, however deep its annotations and arrays claim to nest:
  the recursion of \<open>read_element_value\<close>, which by its definition could go on for ever, ends, and a value that was
  read left fewer bytes than there were.
\<close>

theorem element_value_returns:
  "\<exists>r. read_element_value cp c sink = Some r \<and>
     (case r of Ok (s, c') \<Rightarrow> length (cb c') - ci c' < length (cb c) - ci c | _ \<Rightarrow> True)"
  using value_returns [of cp c sink] by (auto simp: read_element_value_def bytes_left_def split: result.split)

text \<open>A signature, or the absence of one, is decided by the class file alone: bytes after it change nothing.\<close>

theorem signature_ignores_trailing_bytes:
  "scala_signature_bytes_result bs = Ok r \<Longrightarrow> scala_signature_bytes_result (bs @ e) = Ok r"
  unfolding result_reads_format by (rule signature_read_local)

end
