(* ===== verification/Pool.thy ===== *)
theory Pool
  imports ClassfileReader
begin

text \<open>
  \<open>crates/backend/src/classfile.rs\<close>: modified UTF-8 and the constant pool of the class file writer.
  Every operation interns a key: it returns the index it gave the key before, or appends an entry.
  An operation returns \<open>None\<close> where the source panics: a constant over the JVM's limit, or an
  index that overflows its \<open>u16\<close> (with overflow checks on, as in the dev profile).
\<close>

unbundle bit_operations_syntax

section \<open>Modified UTF-8\<close>

definition MAX_UTF8_CONST :: nat where
  "MAX_UTF8_CONST = 65535"

definition modified_utf8_width :: "rchar \<Rightarrow> nat" where
  "modified_utf8_width c =
     (if c = 0 then 2 else if c < 0x80 then 1 else if c < 0x800 then 2 else 3)"

text \<open>The loop of \<open>utf8_chunks\<close>; \<open>out\<close>, \<open>cur\<close> and \<open>len\<close> are its variables.\<close>

fun utf8_chunks_loop :: "nat \<Rightarrow> str list \<Rightarrow> str \<Rightarrow> nat \<Rightarrow> str \<Rightarrow> str list" where
  "utf8_chunks_loop maxb out cur len [] = (if cur \<noteq> [] \<or> out = [] then out @ [cur] else out)"
| "utf8_chunks_loop maxb out cur len (ch # s) =
     (let w = modified_utf8_width ch in
      if maxb < len + w \<and> cur \<noteq> [] then utf8_chunks_loop maxb (out @ [cur]) [ch] w s
      else utf8_chunks_loop maxb out (cur @ [ch]) (len + w) s)"

definition utf8_chunks :: "str \<Rightarrow> nat \<Rightarrow> str list" where
  "utf8_chunks s maxb = utf8_chunks_loop maxb [] [] 0 s"

text \<open>One turn of the loop of \<open>modified_utf8_bytes\<close>.  Nothing splits a character above \<open>0xFFFF\<close>
  into surrogates: the cast of \<open>0xe0 | (u >> 12)\<close> to a byte keeps its low eight bits.\<close>

definition encode_mutf8 :: "rchar \<Rightarrow> bytes" where
  "encode_mutf8 c =
     (let u = of_nat c :: u32 in
      if u = 0 then [0xc0, 0x80]
      else if u < 0x80 then [ucast u]
      else if u < 0x800 then [ucast (0xc0 OR drop_bit 6 u), ucast (0x80 OR (u AND 0x3f))]
      else [ucast (0xe0 OR drop_bit 12 u), ucast (0x80 OR (drop_bit 6 u AND 0x3f)), ucast (0x80 OR (u AND 0x3f))])"

definition modified_utf8_bytes :: "str \<Rightarrow> bytes" where
  "modified_utf8_bytes s = concat (map encode_mutf8 s)"

section \<open>The pool\<close>

text \<open>A \<open>f32\<close> and a \<open>f64\<close> are their bits (\<open>to_bits\<close>), which is what the pool keys and writes.\<close>

record pool =
  pbytes :: bytes
  pcount :: u16
  utf8s :: "str \<rightharpoonup> u16"
  classes :: "str \<rightharpoonup> u16"
  strings :: "str \<rightharpoonup> u16"
  nats :: "u16 \<times> u16 \<rightharpoonup> u16"
  refs :: "u8 \<times> u16 \<times> u16 \<rightharpoonup> u16"
  ints :: "i32 \<rightharpoonup> u16"
  floats :: "u32 \<rightharpoonup> u16"
  longs :: "i64 \<rightharpoonup> u16"
  doubles :: "u64 \<rightharpoonup> u16"
  method_types :: "str \<rightharpoonup> u16"
  method_handles :: "u8 \<times> u16 \<rightharpoonup> u16"
  invoke_dynamics :: "u16 \<times> u16 \<rightharpoonup> u16"
  bootstraps :: "(u16 \<times> u16 list) list"
  bootstrap_index :: "u16 \<times> u16 list \<rightharpoonup> u16"
  serializable_lambdas :: "u16 list"

definition pool_new :: pool where
  "pool_new =
     \<lparr>pbytes = [], pcount = 1, utf8s = Map.empty, classes = Map.empty, strings = Map.empty, nats = Map.empty,
      refs = Map.empty, ints = Map.empty, floats = Map.empty, longs = Map.empty, doubles = Map.empty,
      method_types = Map.empty, method_handles = Map.empty, invoke_dynamics = Map.empty,
      bootstraps = [], bootstrap_index = Map.empty, serializable_lambdas = []\<rparr>"

text \<open>\<open>v.to_be_bytes()\<close>\<close>

definition be32 :: "u32 \<Rightarrow> bytes" where
  "be32 v = be16 (ucast (drop_bit 16 v)) @ be16 (ucast v)"

definition be64 :: "u64 \<Rightarrow> bytes" where
  "be64 v = be32 (ucast (drop_bit 32 v)) @ be32 (ucast v)"

text \<open>\<open>let i = self.count; self.count += 1\<close>, and the bytes an entry appends.\<close>

definition new_index :: "pool \<Rightarrow> (u16 \<times> pool) option" where
  "new_index p = (if pcount p = 0xFFFF then None else Some (pcount p, p\<lparr>pcount := pcount p + 1\<rparr>))"

definition new_wide_index :: "pool \<Rightarrow> u16 \<times> pool" where
  "new_wide_index p =
     (pcount p, p\<lparr>pcount := (if 0xFFFF < unat (pcount p) + 2 then 0xFFFF else pcount p + 2)\<rparr>)"

definition emit :: "bytes \<Rightarrow> pool \<Rightarrow> pool" where
  "emit bs p = p\<lparr>pbytes := pbytes p @ bs\<rparr>"

definition pool_utf8 :: "str \<Rightarrow> pool \<Rightarrow> (u16 \<times> pool) option" where
  "pool_utf8 s p =
     (case utf8s p s of
        Some i \<Rightarrow> Some (i, p)
      | None \<Rightarrow>
          let encoded = modified_utf8_bytes s in
          if MAX_UTF8_CONST < length encoded then None
          else do {
            (i, p) \<leftarrow> new_index p;
            let p = emit (1 # be16 (of_nat (length encoded)) @ encoded) p;
            Some (i, p\<lparr>utf8s := (utf8s p)(s \<mapsto> i)\<rparr>)
          })"

definition pool_class :: "str \<Rightarrow> pool \<Rightarrow> (u16 \<times> pool) option" where
  "pool_class internal p =
     (case classes p internal of
        Some i \<Rightarrow> Some (i, p)
      | None \<Rightarrow> do {
          (u, p) \<leftarrow> pool_utf8 internal p;
          (i, p) \<leftarrow> new_index p;
          let p = emit (7 # be16 u) p;
          Some (i, p\<lparr>classes := (classes p)(internal \<mapsto> i)\<rparr>)
        })"

definition pool_string :: "str \<Rightarrow> pool \<Rightarrow> (u16 \<times> pool) option" where
  "pool_string s p =
     (case strings p s of
        Some i \<Rightarrow> Some (i, p)
      | None \<Rightarrow> do {
          (u, p) \<leftarrow> pool_utf8 s p;
          (i, p) \<leftarrow> new_index p;
          let p = emit (8 # be16 u) p;
          Some (i, p\<lparr>strings := (strings p)(s \<mapsto> i)\<rparr>)
        })"

definition pool_integer :: "i32 \<Rightarrow> pool \<Rightarrow> (u16 \<times> pool) option" where
  "pool_integer v p =
     (case ints p v of
        Some i \<Rightarrow> Some (i, p)
      | None \<Rightarrow> do {
          (i, p) \<leftarrow> new_index p;
          let p = emit (3 # be32 v) p;
          Some (i, p\<lparr>ints := (ints p)(v \<mapsto> i)\<rparr>)
        })"

definition pool_float :: "u32 \<Rightarrow> pool \<Rightarrow> (u16 \<times> pool) option" where
  "pool_float b p =
     (case floats p b of
        Some i \<Rightarrow> Some (i, p)
      | None \<Rightarrow> do {
          (i, p) \<leftarrow> new_index p;
          let p = emit (4 # be32 b) p;
          Some (i, p\<lparr>floats := (floats p)(b \<mapsto> i)\<rparr>)
        })"

definition pool_long :: "i64 \<Rightarrow> pool \<Rightarrow> (u16 \<times> pool) option" where
  "pool_long v p =
     (case longs p v of
        Some i \<Rightarrow> Some (i, p)
      | None \<Rightarrow>
          let (i, p) = new_wide_index p; p = emit (5 # be64 v) p
          in Some (i, p\<lparr>longs := (longs p)(v \<mapsto> i)\<rparr>))"

definition pool_double :: "u64 \<Rightarrow> pool \<Rightarrow> (u16 \<times> pool) option" where
  "pool_double b p =
     (case doubles p b of
        Some i \<Rightarrow> Some (i, p)
      | None \<Rightarrow>
          let (i, p) = new_wide_index p; p = emit (6 # be64 b) p
          in Some (i, p\<lparr>doubles := (doubles p)(b \<mapsto> i)\<rparr>))"

definition pool_nat :: "str \<Rightarrow> str \<Rightarrow> pool \<Rightarrow> (u16 \<times> pool) option" where
  "pool_nat name desc p = do {
     (n, p) \<leftarrow> pool_utf8 name p;
     (d, p) \<leftarrow> pool_utf8 desc p;
     (case nats p (n, d) of
        Some i \<Rightarrow> Some (i, p)
      | None \<Rightarrow> do {
          (i, p) \<leftarrow> new_index p;
          let p = emit (12 # be16 n @ be16 d) p;
          Some (i, p\<lparr>nats := (nats p)((n, d) \<mapsto> i)\<rparr>)
        })
   }"

definition member_ref :: "u8 \<Rightarrow> str \<Rightarrow> str \<Rightarrow> str \<Rightarrow> pool \<Rightarrow> (u16 \<times> pool) option" where
  "member_ref tag owner name desc p = do {
     (c, p) \<leftarrow> pool_class owner p;
     (n, p) \<leftarrow> pool_nat name desc p;
     (case refs p (tag, c, n) of
        Some i \<Rightarrow> Some (i, p)
      | None \<Rightarrow> do {
          (i, p) \<leftarrow> new_index p;
          let p = emit (tag # be16 c @ be16 n) p;
          Some (i, p\<lparr>refs := (refs p)((tag, c, n) \<mapsto> i)\<rparr>)
        })
   }"

definition fieldref :: "str \<Rightarrow> str \<Rightarrow> str \<Rightarrow> pool \<Rightarrow> (u16 \<times> pool) option" where
  "fieldref = member_ref 9"

definition methodref :: "str \<Rightarrow> str \<Rightarrow> str \<Rightarrow> pool \<Rightarrow> (u16 \<times> pool) option" where
  "methodref = member_ref 10"

definition iface_ref :: "str \<Rightarrow> str \<Rightarrow> str \<Rightarrow> pool \<Rightarrow> (u16 \<times> pool) option" where
  "iface_ref = member_ref 11"

definition method_type :: "str \<Rightarrow> pool \<Rightarrow> (u16 \<times> pool) option" where
  "method_type desc p =
     (case method_types p desc of
        Some i \<Rightarrow> Some (i, p)
      | None \<Rightarrow> do {
          (d, p) \<leftarrow> pool_utf8 desc p;
          (i, p) \<leftarrow> new_index p;
          let p = emit (16 # be16 d) p;
          Some (i, p\<lparr>method_types := (method_types p)(desc \<mapsto> i)\<rparr>)
        })"

definition method_handle :: "u8 \<Rightarrow> u16 \<Rightarrow> pool \<Rightarrow> (u16 \<times> pool) option" where
  "method_handle kind reference p =
     (case method_handles p (kind, reference) of
        Some i \<Rightarrow> Some (i, p)
      | None \<Rightarrow> do {
          (i, p) \<leftarrow> new_index p;
          let p = emit (15 # kind # be16 reference) p;
          Some (i, p\<lparr>method_handles := (method_handles p)((kind, reference) \<mapsto> i)\<rparr>)
        })"

definition method_handle_static :: "str \<Rightarrow> str \<Rightarrow> str \<Rightarrow> bool \<Rightarrow> pool \<Rightarrow> (u16 \<times> pool) option" where
  "method_handle_static owner name desc iface p = do {
     (r, p) \<leftarrow> (if iface then iface_ref owner name desc p else methodref owner name desc p);
     method_handle 6 r p
   }"

definition bootstrap :: "u16 \<Rightarrow> u16 list \<Rightarrow> pool \<Rightarrow> (u16 \<times> pool) option" where
  "bootstrap handle args p =
     (let key = (handle, args) in
      case bootstrap_index p key of
        Some i \<Rightarrow> Some (i, p)
      | None \<Rightarrow>
          let i = of_nat (length (bootstraps p))
          in Some (i, p\<lparr>bootstrap_index := (bootstrap_index p)(key \<mapsto> i), bootstraps := bootstraps p @ [key]\<rparr>))"

definition invoke_dynamic :: "u16 \<Rightarrow> str \<Rightarrow> str \<Rightarrow> pool \<Rightarrow> (u16 \<times> pool) option" where
  "invoke_dynamic boot name desc p = do {
     (nt, p) \<leftarrow> pool_nat name desc p;
     (case invoke_dynamics p (boot, nt) of
        Some i \<Rightarrow> Some (i, p)
      | None \<Rightarrow> do {
          (i, p) \<leftarrow> new_index p;
          let p = emit (18 # be16 boot @ be16 nt) p;
          Some (i, p\<lparr>invoke_dynamics := (invoke_dynamics p)((boot, nt) \<mapsto> i)\<rparr>)
        })
   }"

definition has_bootstraps :: "pool \<Rightarrow> bool" where
  "has_bootstraps p = (bootstraps p \<noteq> [])"

definition bootstrap_body :: "pool \<Rightarrow> bytes" where
  "bootstrap_body p =
     be16 (of_nat (length (bootstraps p))) @
     concat (map (\<lambda>(handle, args). be16 handle @ be16 (of_nat (length args)) @ concat (map be16 args)) (bootstraps p))"

definition name_and_type :: "str \<Rightarrow> str \<Rightarrow> pool \<Rightarrow> (u16 \<times> pool) option" where
  "name_and_type = pool_nat"

definition write_header :: "pool \<Rightarrow> bytes" where
  "write_header p = be16 (pcount p) @ pbytes p"

text \<open>The calls a class writer makes on its pool, in any order.\<close>

datatype pool_op =
    OpUtf8 str | OpClass str | OpString str | OpInteger i32 | OpFloat u32 | OpLong i64 | OpDouble u64
  | OpNat str str | OpField str str str | OpMethod str str str | OpIface str str str
  | OpMethodType str | OpMethodHandle u8 u16 | OpHandleStatic str str str bool
  | OpBootstrap u16 "u16 list" | OpInvokeDynamic u16 str str

fun run_op :: "pool_op \<Rightarrow> pool \<Rightarrow> (u16 \<times> pool) option" where
  "run_op (OpUtf8 s) = pool_utf8 s"
| "run_op (OpClass s) = pool_class s"
| "run_op (OpString s) = pool_string s"
| "run_op (OpInteger v) = pool_integer v"
| "run_op (OpFloat v) = pool_float v"
| "run_op (OpLong v) = pool_long v"
| "run_op (OpDouble v) = pool_double v"
| "run_op (OpNat n d) = name_and_type n d"
| "run_op (OpField c n d) = fieldref c n d"
| "run_op (OpMethod c n d) = methodref c n d"
| "run_op (OpIface c n d) = iface_ref c n d"
| "run_op (OpMethodType d) = method_type d"
| "run_op (OpMethodHandle k r) = method_handle k r"
| "run_op (OpHandleStatic c n d f) = method_handle_static c n d f"
| "run_op (OpBootstrap h as) = bootstrap h as"
| "run_op (OpInvokeDynamic b n d) = invoke_dynamic b n d"

fun run_ops :: "pool_op list \<Rightarrow> pool \<Rightarrow> pool option" where
  "run_ops [] p = Some p"
| "run_ops (a # ops) p = do { (_, p) \<leftarrow> run_op a p; run_ops ops p }"

section \<open>Modified UTF-8 reads back\<close>

lemma small_bits: "unat (u :: u32) < 2 ^ k \<Longrightarrow> k \<le> n \<Longrightarrow> \<not> bit u n"
proof
  assume a: "unat u < 2 ^ k" "k \<le> n" and "bit u n"
  from a have "unat u < 2 ^ n" by (meson less_le_trans one_le_numeral power_increasing)
  then have "unat u div 2 ^ n = 0" by simp
  then have "\<not> bit (unat u) n" by (simp add: bit_iff_odd)
  with \<open>bit u n\<close> show False by (auto simp: bit_simps dest: bit_imp_le_length)
qed

lemma below_32: "n < 32 \<Longrightarrow> n \<in> {0,1,2,3,4,5,6,7,8,9,10,11,12,13,14,15,16,17,18,19,20,21,22,23,24,25,26,27,28,29,30,31::nat}"
  by (simp, presburger)

lemma below_8: "n < 8 \<Longrightarrow> n \<in> {0,1,2,3,4,5,6,7::nat}"
  by (simp, presburger)

lemma mutf8_2_inverse: assumes "(u :: u32) < 0x800"
  shows "mutf8_2 (ucast (0xc0 OR drop_bit 6 u)) (ucast (0x80 OR (u AND 0x3f))) = u"
proof (rule bit_word_eqI)
  fix n assume "n < LENGTH(32)"
  then have n: "n < 32" by simp
  have b: "11 \<le> n \<Longrightarrow> \<not> bit u n" using small_bits [of u 11 n] assms by (simp add: word_less_nat_alt)
  show "bit (mutf8_2 (ucast (0xc0 OR drop_bit 6 u)) (ucast (0x80 OR (u AND 0x3f)))) n = bit u n"
    using below_32 [OF n] b unfolding mutf8_2_def 
    by (elim insertE; simp add: bit_simps bit_numeral_simps)
qed

lemma mutf8_3_inverse: assumes "(u :: u32) < 0x10000"
  shows "mutf8_3 (ucast (0xe0 OR drop_bit 12 u)) (ucast (0x80 OR (drop_bit 6 u AND 0x3f))) (ucast (0x80 OR (u AND 0x3f))) = u"
proof (rule bit_word_eqI)
  fix n assume "n < LENGTH(32)"
  then have n: "n < 32" by simp
  have b: "16 \<le> n \<Longrightarrow> \<not> bit u n" using small_bits [of u 16 n] assms by (simp add: word_less_nat_alt)
  show "bit (mutf8_3 (ucast (0xe0 OR drop_bit 12 u)) (ucast (0x80 OR (drop_bit 6 u AND 0x3f))) (ucast (0x80 OR (u AND 0x3f)))) n = bit u n"
    using below_32 [OF n] b unfolding mutf8_3_def 
    by (elim insertE; simp add: bit_simps bit_numeral_simps)
qed

lemma lead_2: assumes "(u :: u32) < 0x800"
  shows "ucast (0xc0 OR drop_bit 6 u) AND (0xe0 :: u8) = 0xc0"
proof (rule bit_word_eqI)
  fix n assume "n < LENGTH(8)"
  then have n: "n < 8" by simp
  have b: "11 \<le> m \<Longrightarrow> \<not> bit u m" for m using small_bits [of u 11 m] assms by (simp add: word_less_nat_alt)
  show "bit (ucast (0xc0 OR drop_bit 6 u) AND (0xe0 :: u8)) n = bit (0xc0 :: u8) n"
    using below_8 [OF n] b
    by (elim insertE; simp add: bit_simps bit_numeral_simps)
qed

lemma lead_3: assumes "(u :: u32) < 0x10000"
  shows "ucast (0xe0 OR drop_bit 12 u) AND (0xf0 :: u8) = 0xe0" "ucast (0xe0 OR drop_bit 12 u) AND (0xe0 :: u8) = 0xe0"
proof -
  have b: "16 \<le> m \<Longrightarrow> \<not> bit u m" for m using small_bits [of u 16 m] assms by (simp add: word_less_nat_alt)
  show "ucast (0xe0 OR drop_bit 12 u) AND (0xf0 :: u8) = 0xe0"
  proof (rule bit_word_eqI)
    fix n assume "n < LENGTH(8)"
    then have n: "n < 8" by simp
    show "bit (ucast (0xe0 OR drop_bit 12 u) AND (0xf0 :: u8)) n = bit (0xe0 :: u8) n"
      using below_8 [OF n] b by (elim insertE; simp add: bit_simps bit_numeral_simps)
  qed
  show "ucast (0xe0 OR drop_bit 12 u) AND (0xe0 :: u8) = 0xe0"
  proof (rule bit_word_eqI)
    fix n assume "n < LENGTH(8)"
    then have n: "n < 8" by simp
    show "bit (ucast (0xe0 OR drop_bit 12 u) AND (0xe0 :: u8)) n = bit (0xe0 :: u8) n"
      using below_8 [OF n] b by (elim insertE; simp add: bit_simps bit_numeral_simps)
  qed
qed

lemma lead_large: "x AND 0xe0 = 0xc0 \<or> x AND 0xe0 = 0xe0 \<Longrightarrow> x \<noteq> 0 \<and> \<not> x < (0x80 :: u8)"
proof -
  assume a: "x AND 0xe0 = 0xc0 \<or> x AND 0xe0 = 0xe0"
  have "bit (x AND 0xe0) 7 = bit x 7" by (simp add: bit_simps bit_numeral_simps)
  moreover have "bit (0xc0 :: u8) 7" "bit (0xe0 :: u8) 7" by (simp_all add: bit_numeral_simps)
  ultimately have "bit x 7" using a by auto
  moreover have "\<not> bit x 7" if "x < 0x80"
  proof -
    have "x AND mask 7 = x" using that by (simp add: small_iff)
    then show ?thesis by (metis bit_and_iff bit_mask_iff less_irrefl)
  qed
  ultimately show ?thesis by auto
qed

lemma encode_mutf8_read:
  assumes "is_scalar c" "c < 0x10000"
  shows "mutf8_text (encode_mutf8 c @ b) = map_option ((#) c) (mutf8_text b)"
proof -
  define u where "u = (of_nat c :: u32)"
  have uc: "unat u = c" using assms(2) by (simp add: u_def unat_of_nat take_bit_eq_mod)
  have lt: "u < 0x10000" using uc assms(2) by (simp add: word_less_nat_alt)
  have chr: "char_from_u32 (unat u) = Some c" using assms(1) uc by (simp add: char_from_u32_def)
  consider "u = 0" | "u \<noteq> 0" "u < 0x80" | "\<not> u < 0x80" "u < 0x800" | "\<not> u < 0x800" by blast
  then show ?thesis
  proof cases
    case 1
    then show ?thesis using uc chr
      by (simp add: encode_mutf8_def u_def [symmetric] mutf8_2_def lead_large)
  next
    case 2
    have "unat (ucast u :: u8) = c" using 2 uc by (simp add: unsigned_ucast_eq take_bit_eq_mod word_less_nat_alt)
    moreover have "(ucast u :: u8) < 0x80" "(ucast u :: u8) \<noteq> 0"
      using 2 \<open>unat (ucast u :: u8) = c\<close> uc by (auto simp: word_less_nat_alt unat_eq_zero)
    ultimately show ?thesis using 2 by (simp add: encode_mutf8_def u_def [symmetric])
  next
    case 3
    then have "u \<noteq> 0" by auto
    with 3 chr lead_2 [OF 3(2)] lead_large [OF disjI1, OF lead_2 [OF 3(2)]] show ?thesis
      by (simp add: encode_mutf8_def u_def [symmetric] mutf8_2_inverse)
  next
    case 4
    then have "u \<noteq> 0" "\<not> u < 0x80" by (auto simp: word_less_nat_alt)
    with 4 chr lead_3 [OF lt] lead_large [OF disjI2, OF lead_3(2) [OF lt]] show ?thesis
      by (simp add: encode_mutf8_def u_def [symmetric] mutf8_3_inverse [OF lt])
  qed
qed

lemma mutf8_roundtrip:
  "list_all (\<lambda>c. is_scalar c \<and> c < 0x10000) s \<Longrightarrow> mutf8_text (modified_utf8_bytes s) = Some s"
  unfolding modified_utf8_bytes_def by (induction s) (simp_all add: encode_mutf8_read)

section \<open>The bytes of the pool\<close>

lemma be16_of_be16: "be16_of (ucast (drop_bit 8 v)) (ucast v) = v"
  unfolding be16_of_def by (rule bit_word_eqI) (auto simp: bit_simps dest: bit_imp_le_length)

lemma be16_be16_of: "be16 (be16_of hi lo) = [hi, lo]"
proof -
  have "\<not> bit lo (8 + n)" for n using bit_imp_le_length [of lo "8 + n"] by auto
  then show ?thesis
    unfolding be16_of_def be16_def
    by (auto intro!: bit_word_eqI simp: bit_simps)
qed

lemma be_length [simp]: "length (be16 v) = 2" "length (be32 w) = 4" "length (be64 x) = 8"
  by (simp_all add: be16_def be32_def be64_def)

lemma u1_at: "cb c = pre @ b # rest \<Longrightarrow> ci c = length pre \<Longrightarrow> u1 c = Some (b, c\<lparr>ci := ci c + 1\<rparr>)"
  by (simp add: u1_def)

lemma u2_at: "cb c = pre @ hi # lo # rest \<Longrightarrow> ci c = length pre \<Longrightarrow> u2 c = Some (be16_of hi lo, c\<lparr>ci := ci c + 2\<rparr>)"
  by (simp add: u2_def u1_def be16_of_def nth_append)

lemma u2_be16: "cb c = pre @ be16 v @ rest \<Longrightarrow> ci c = length pre \<Longrightarrow> u2 c = Some (v, c\<lparr>ci := ci c + 2\<rparr>)"
  by (simp add: be16_def u2_at be16_of_be16)

lemma take_bytes_at: "cb c = pre @ d @ rest \<Longrightarrow> ci c = length pre \<Longrightarrow> n = length d \<Longrightarrow>
    take_bytes n c = Some (d, c\<lparr>ci := ci c + n\<rparr>)"
  by (simp add: take_bytes_def)

text \<open>
  \<open>entry_shape tag e d k\<close>: after its tag, an entry's bytes are \<open>e\<close>; a reader keeps \<open>d\<close> of them and
  skips \<open>k\<close> slots.
\<close>

definition entry_shape :: "u8 \<Rightarrow> bytes \<Rightarrow> bytes \<Rightarrow> nat \<Rightarrow> bool" where
  "entry_shape tag e d k \<longleftrightarrow>
     (tag = 1 \<and> length d < 65536 \<and> e = be16 (of_nat (length d)) @ d \<and> k = 0) \<or>
     (tag \<in> {7, 8, 16} \<and> length d = 2 \<and> e = d \<and> k = 0) \<or>
     (tag \<in> {3, 4, 9, 10, 11, 12, 18} \<and> length d = 4 \<and> e = d \<and> k = 0) \<or>
     (tag \<in> {5, 6} \<and> length d = 8 \<and> e = d \<and> k = 1) \<or>
     (tag = 15 \<and> length d = 3 \<and> e = d \<and> k = 0)"

lemma length_2: "length d = 2 \<Longrightarrow> \<exists>a b. d = [a, b]"
  by (auto simp: length_Suc_conv numeral_2_eq_2)

lemma length_3: "length d = 3 \<Longrightarrow> \<exists>a b c. d = [a, b, c]"
  by (auto simp: length_Suc_conv numeral_3_eq_3)

lemma length_4: "length d = 4 \<Longrightarrow> \<exists>a b c e. d = [a, b, c, e]"
  by (auto simp: length_Suc_conv eval_nat_numeral)

lemma entry_read:
  assumes "entry_shape tag e d k" and c: "cb c = pre @ e @ rest" "ci c = length pre"
  shows "pool_entry tag c = Some (d, k, c\<lparr>ci := ci c + length e\<rparr>)"
proof -
  have c2: "u2 (c\<lparr>ci := ci c + 2\<rparr>) = Some (be16_of y z, c\<lparr>ci := ci c + 2 + 2\<rparr>)"
    if "e = [w, x, y, z]" for w x y z
    using u2_at [of "c\<lparr>ci := ci c + 2\<rparr>" "pre @ [w, x]" y z rest] that c by simp
  have c3: "u2 (c\<lparr>ci := Suc (length pre)\<rparr>) = Some (be16_of y z, c\<lparr>ci := Suc (length pre) + 2\<rparr>)"
    if "e = [x, y, z]" for x y z
    using u2_at [of "c\<lparr>ci := Suc (length pre)\<rparr>" "pre @ [x]" y z rest] that c by simp
  from assms(1) consider
      (utf8) "tag = 1" "length d < 65536" "e = be16 (of_nat (length d)) @ d" "k = 0"
    | (two) x y where "tag \<in> {7, 8, 16}" "d = [x, y]" "e = d" "k = 0"
    | (four) w x y z where "tag \<in> {3, 4, 9, 10, 11, 12, 18}" "d = [w, x, y, z]" "e = d" "k = 0"
    | (eight) "tag \<in> {5, 6}" "length d = 8" "e = d" "k = 1"
    | (handle) x y z where "tag = 15" "d = [x, y, z]" "e = d" "k = 0"
    unfolding entry_shape_def by (metis length_2 length_3 length_4)
  then show ?thesis
  proof cases
    case utf8
    have l: "u2 c = Some (of_nat (length d), c\<lparr>ci := ci c + 2\<rparr>)"
      using utf8 c by (intro u2_be16 [of c pre _ "d @ rest"]) simp_all
    have n: "unat (of_nat (length d) :: u16) = length d" using utf8(2) by (simp add: unat_of_nat take_bit_eq_mod)
    have "take_bytes (length d) (c\<lparr>ci := ci c + 2\<rparr>) = Some (d, c\<lparr>ci := ci c + 2 + length d\<rparr>)"
      using take_bytes_at [of "c\<lparr>ci := ci c + 2\<rparr>" "pre @ be16 (of_nat (length d))" d rest] utf8 c by simp
    with utf8 l n show ?thesis by (simp add: pool_entry_def)
  next
    case two
    then show ?thesis using u2_at [of c pre x y rest] c by (auto simp: pool_entry_def be16_be16_of)
  next
    case four
    then show ?thesis using u2_at [of c pre w x "y # z # rest"] c c2 [of w x y z]
      by (auto simp: pool_entry_def be16_be16_of)
  next
    case eight
    then show ?thesis using take_bytes_at [of c pre d rest 8] c by (auto simp: pool_entry_def)
  next
    case handle
    then show ?thesis using u1_at [of c pre x "[y, z] @ rest"] c c3 [of x y z]
      by (simp add: pool_entry_def be16_be16_of)
  qed
qed

inductive pool_slots :: "bytes \<Rightarrow> (u8 \<times> bytes) list \<Rightarrow> bool" where
  slots_empty: "pool_slots [] []"
| slots_entry: "pool_slots bs sl \<Longrightarrow> entry_shape tag e d k \<Longrightarrow>
    pool_slots (bs @ tag # e) (sl @ (tag, d) # replicate k (0, []))"

lemma cp_loop_slots:
  assumes "pool_slots bs sl" "cb c = pre @ bs @ rest" "ci c = length pre" "length ts = i" "length ds = i"
  shows "pool_loop (i + length sl + m) i (ts @ replicate (length sl + m) 0) (ds @ replicate (length sl + m) []) c =
    pool_loop (i + length sl + m) (i + length sl) (ts @ map fst sl @ replicate m 0) (ds @ map snd sl @ replicate m [])
      (c\<lparr>ci := ci c + length bs\<rparr>)"
  using assms
proof (induction arbitrary: m rest rule: pool_slots.induct)
  case slots_empty
  show ?case by simp
next
  case (slots_entry bs sl tag e d k)
  let ?c = "c\<lparr>ci := ci c + length bs\<rparr>"
  have u: "u1 ?c = Some (tag, ?c\<lparr>ci := ci c + length bs + 1\<rparr>)"
    using u1_at [of ?c "pre @ bs" tag "e @ rest"] slots_entry.prems by simp
  have r: "pool_entry tag (?c\<lparr>ci := ci c + length bs + 1\<rparr>) = Some (d, k, ?c\<lparr>ci := ci c + length bs + 1 + length e\<rparr>)"
    using entry_read [OF slots_entry.hyps(2), of "?c\<lparr>ci := ci c + length bs + 1\<rparr>" "pre @ bs @ [tag]" rest]
      slots_entry.prems by simp
  have n: "i + length (sl @ (tag, d) # replicate k (0, [])) + m = i + length sl + (Suc k + m)"
    "length (sl @ (tag, d) # replicate k (0, [])) + m = length sl + (Suc k + m)"
    by simp_all
  have step: "pool_loop (i + length sl + (Suc k + m)) (i + length sl) (ts @ map fst sl @ replicate (Suc k + m) 0)
      (ds @ map snd sl @ replicate (Suc k + m) []) ?c =
    pool_loop (i + length sl + (Suc k + m)) (i + length sl + k + 1)
      (ts @ map fst sl @ tag # replicate (k + m) 0) (ds @ map snd sl @ d # replicate (k + m) [])
      (?c\<lparr>ci := ci c + length bs + 1 + length e\<rparr>)"
    using u r slots_entry.prems
    by (subst pool_loop.simps) (simp add: list_update_append)
  show ?case
    unfolding n
    using slots_entry.IH [of "tag # e @ rest" "Suc k + m"] slots_entry.prems step
    by (simp add: replicate_add add.commute add.left_commute)
qed

lemma parse_header:
  assumes "pool_slots bs sl" "unat n = length sl + 1" "cb c = pre @ be16 n @ bs @ rest" "ci c = length pre"
  shows "parse_pool c = Some (\<lparr>tags = 0 # map fst sl, data = [] # map snd sl\<rparr>, c\<lparr>ci := ci c + 2 + length bs\<rparr>)"
proof -
  have u: "u2 c = Some (n, c\<lparr>ci := ci c + 2\<rparr>)" using u2_be16 assms by blast
  have "pool_loop (1 + length sl + 0) 1 ([0] @ replicate (length sl + 0) 0) ([[]] @ replicate (length sl + 0) []) (c\<lparr>ci := ci c + 2\<rparr>) =
    Some (\<lparr>tags = 0 # map fst sl, data = [] # map snd sl\<rparr>, c\<lparr>ci := ci c + 2 + length bs\<rparr>)"
    using assms by (subst cp_loop_slots [of bs sl _ "pre @ be16 n" rest]) (simp_all add: pool_loop.simps)
  with u assms(2) show ?thesis by (simp add: parse_pool_def)
qed

section \<open>The pool's invariant\<close>

definition slot :: "(u8 \<times> bytes) list \<Rightarrow> u16 \<Rightarrow> (u8 \<times> bytes) option" where
  "slot sl i = (if i = 0 then None else idx sl (unat i - 1))"

definition table_ok :: "('k \<rightharpoonup> u16) \<Rightarrow> ('k \<Rightarrow> u8 \<times> bytes) \<Rightarrow> (u8 \<times> bytes) list \<Rightarrow> bool" where
  "table_ok t enc sl \<longleftrightarrow> (\<forall>k i. t k = Some i \<longrightarrow> slot sl i = Some (enc k))"

text \<open>A table whose entries point to the interned text of their key.\<close>

definition text_table_ok :: "u8 \<Rightarrow> (str \<rightharpoonup> u16) \<Rightarrow> (str \<rightharpoonup> u16) \<Rightarrow> (u8 \<times> bytes) list \<Rightarrow> bool" where
  "text_table_ok tag t u sl \<longleftrightarrow> (\<forall>s i. t s = Some i \<longrightarrow> (\<exists>j. u s = Some j \<and> slot sl i = Some (tag, be16 j)))"

definition pool_inv :: "pool \<Rightarrow> (u8 \<times> bytes) list \<Rightarrow> bool" where
  "pool_inv p sl \<longleftrightarrow>
     pool_slots (pbytes p) sl \<and> unat (pcount p) = length sl + 1 \<and>
     table_ok (utf8s p) (\<lambda>s. (1, modified_utf8_bytes s)) sl \<and>
     text_table_ok 7 (classes p) (utf8s p) sl \<and>
     text_table_ok 8 (strings p) (utf8s p) sl \<and>
     text_table_ok 16 (method_types p) (utf8s p) sl \<and>
     table_ok (ints p) (\<lambda>v. (3, be32 v)) sl \<and>
     table_ok (floats p) (\<lambda>v. (4, be32 v)) sl \<and>
     table_ok (longs p) (\<lambda>v. (5, be64 v)) sl \<and>
     table_ok (doubles p) (\<lambda>v. (6, be64 v)) sl \<and>
     table_ok (nats p) (\<lambda>(n, d). (12, be16 n @ be16 d)) sl \<and>
     table_ok (refs p) (\<lambda>(tag, c, n). (tag, be16 c @ be16 n)) sl \<and>
     table_ok (method_handles p) (\<lambda>(k, r). (15, k # be16 r)) sl \<and>
     table_ok (invoke_dynamics p) (\<lambda>(b, n). (18, be16 b @ be16 n)) sl"

text \<open>
  A pool whose count has reached \<open>0xFFFF\<close> may have saturated: its bytes are not described any new.
\<close>

definition pool_good :: "pool \<Rightarrow> (u8 \<times> bytes) list \<Rightarrow> bool" where
  "pool_good p sl \<longleftrightarrow> pcount p = 0xFFFF \<or> pool_inv p sl"

definition pool_grows :: "pool \<Rightarrow> pool \<Rightarrow> bool" where
  "pool_grows p p' \<longleftrightarrow> pcount p \<le> pcount p' \<and> utf8s p \<subseteq>\<^sub>m utf8s p' \<and> classes p \<subseteq>\<^sub>m classes p'"

lemma slot_append: "slot sl i = Some x \<Longrightarrow> slot (sl @ new) i = Some x"
  by (auto simp: slot_def idx_eq_Some nth_append split: if_splits)

lemma slot_new: "unat i = length sl + 1 \<Longrightarrow> slot (sl @ x # new) i = Some x"
  by (auto simp: slot_def idx_def nth_append)

lemma table_ok_append: "table_ok t enc sl \<Longrightarrow> table_ok t enc (sl @ new)"
  by (auto simp: table_ok_def slot_append)

lemma text_table_ok_append: "text_table_ok tag t u sl \<Longrightarrow> text_table_ok tag t u (sl @ new)"
  by (auto simp: text_table_ok_def) (metis slot_append)

lemma table_ok_insert: "table_ok t enc sl \<Longrightarrow> slot sl i = Some (enc k) \<Longrightarrow> table_ok (t(k \<mapsto> i)) enc sl"
  by (auto simp: table_ok_def)

lemma text_table_ok_insert:
  "text_table_ok tag t u sl \<Longrightarrow> u s = Some j \<Longrightarrow> slot sl i = Some (tag, be16 j) \<Longrightarrow> text_table_ok tag (t(s \<mapsto> i)) u sl"
  by (auto simp: text_table_ok_def)

lemma text_table_ok_text: "text_table_ok tag t u sl \<Longrightarrow> u s = None \<Longrightarrow> text_table_ok tag t (u(s \<mapsto> i)) sl"
  by (fastforce simp: text_table_ok_def)

lemmas table_simps = table_ok_append text_table_ok_append table_ok_insert text_table_ok_insert text_table_ok_text

lemma pool_inv_new: "pool_inv pool_new []"
  by (simp add: pool_inv_def pool_new_def slots_empty table_ok_def text_table_ok_def)

lemma pool_grows_refl [simp]: "pool_grows p p"
  by (simp add: pool_grows_def)

lemma pool_grows_trans: "pool_grows p q \<Longrightarrow> pool_grows q r \<Longrightarrow> pool_grows p r"
  by (auto simp: pool_grows_def intro: map_le_trans order_trans)

lemma unat_u16: "unat (x :: u16) < 65536"
  by (rule order_less_le_trans [OF unsigned_less]) simp

lemma new_index_Some:
  "new_index p = Some (i, p') \<Longrightarrow> pcount p \<noteq> 0xFFFF \<and> i = pcount p \<and> p' = p\<lparr>pcount := pcount p + 1\<rparr> \<and> pcount p \<le> pcount p + 1 \<and>
     unat (pcount p + 1) = unat (pcount p) + 1"
proof -
  assume "new_index p = Some (i, p')"
  then have p: "pcount p \<noteq> 0xFFFF" "i = pcount p" "p' = p\<lparr>pcount := pcount p + 1\<rparr>"
    by (auto simp: new_index_def split: if_splits)
  from p(1) have "unat (pcount p) < 0xFFFF"
    using unat_u16 [of "pcount p"] by (auto simp: word_unat_eq_iff)
  then have "unat (pcount p + 1) = unat (pcount p) + 1" by (simp add: unat_word_ariths)
  with p show ?thesis by (simp add: word_le_nat_alt)
qed

text \<open>Appending one entry.\<close>

lemma append_entry:
  assumes "pool_inv p sl" "new_index p = Some (i, p1)" "entry_shape tag e d 0"
  shows "pool_inv (emit (tag # e) p1) (sl @ [(tag, d)])" "slot (sl @ [(tag, d)]) i = Some (tag, d)"
proof -
  note p = new_index_Some [OF assms(2)]
  have "pool_slots (pbytes p @ tag # e) (sl @ (tag, d) # replicate 0 (0, []))"
    using assms(1,3) by (intro slots_entry) (auto simp: pool_inv_def)
  with assms(1) p show "pool_inv (emit (tag # e) p1) (sl @ [(tag, d)])"
    by (simp add: pool_inv_def emit_def table_simps)
  show "slot (sl @ [(tag, d)]) i = Some (tag, d)"
    using assms(1) p by (intro slot_new) (simp add: pool_inv_def)
qed

lemma u16_max: "0xFFFF \<le> (x :: u16) \<longleftrightarrow> x = 0xFFFF"
  using unat_u16 [of x] by (auto simp: word_le_nat_alt word_unat_eq_iff)

text \<open>
  The contract of a pool operation: it keeps the invariant, and what was interned stays.  A sequence
  of operations is one too (\<open>pool_bind\<close>, \<open>pool_all\<close> below), so a writer that threads a pool through
  many calls keeps the contract.
\<close>

locale pool_operation =
  fixes op :: "pool \<Rightarrow> ('a \<times> pool) option"
  assumes good: "op p = Some (i, p') \<Longrightarrow> pool_good p sl \<Longrightarrow> \<exists>new. pool_good p' (sl @ new)"
    and grows: "op p = Some (i, p') \<Longrightarrow> pool_grows p p'"
begin

lemma count_saturated: "op p = Some (i, p') \<Longrightarrow> pcount p = 0xFFFF \<Longrightarrow> pcount p' = 0xFFFF"
  using grows [of p i p'] by (simp add: pool_grows_def u16_max)

end

named_theorems pool_steps \<open>sequences of pool operations are pool operations\<close>

lemma pool_return [pool_steps]: "pool_operation (\<lambda>p. Some (x, p))"
  by unfold_locales (auto intro: exI [of _ "[]"])

lemma pool_bind [pool_steps]:
  assumes "pool_operation m" "\<And>x. pool_operation (k x)"
  shows "pool_operation (\<lambda>p. m p \<bind> (\<lambda>(x, p). k x p))"
proof
  fix p i p' and sl :: "(u8 \<times> bytes) list"
  assume "m p \<bind> (\<lambda>(x, p). k x p) = Some (i, p')"
  then obtain x q where s: "m p = Some (x, q)" "k x q = Some (i, p')" by (auto simp: Option.bind_eq_Some_conv)
  show "pool_grows p p'"
    using pool_operation.grows [OF assms(1) s(1)] pool_operation.grows [OF assms(2) s(2)] by (rule pool_grows_trans)
  assume "pool_good p sl"
  then show "\<exists>new. pool_good p' (sl @ new)"
    using pool_operation.good [OF assms(1) s(1)] pool_operation.good [OF assms(2) s(2)] by (metis append_assoc)
qed

text \<open>\<open>xs.iter().map(|x| op(pool, x)).collect()\<close>\<close>

fun pool_all :: "('a \<Rightarrow> pool \<Rightarrow> ('b \<times> pool) option) \<Rightarrow> 'a list \<Rightarrow> pool \<Rightarrow> ('b list \<times> pool) option" where
  "pool_all op [] p = Some ([], p)"
| "pool_all op (x # xs) p = do {
     (y, p) \<leftarrow> op x p;
     (ys, p) \<leftarrow> pool_all op xs p;
     Some (y # ys, p)
   }"

lemma pool_all_cong [fundef_cong]:
  "xs = ys \<Longrightarrow> p = q \<Longrightarrow> (\<And>x r. x \<in> set ys \<Longrightarrow> f x r = g x r) \<Longrightarrow> pool_all f xs p = pool_all g ys q"
proof (induction xs arbitrary: p q ys)
  case Nil
  then show ?case by auto
next
  case (Cons x xs)
  then obtain zs where ys: "ys = x # zs" "xs = zs" by (cases ys) auto
  have "pool_all f xs = pool_all g zs" by (rule ext, rule Cons.IH) (use Cons.prems ys in auto)
  then show ?case using Cons.prems ys by simp
qed

lemma pool_all_operation [pool_steps]:
  "(\<And>x. x \<in> set xs \<Longrightarrow> pool_operation (op x)) \<Longrightarrow> pool_operation (pool_all op xs)"
proof (induction xs)
  case Nil
  then show ?case by unfold_locales (auto intro: exI [of _ "[]"])
next
  case (Cons x xs)
  have "pool_operation (\<lambda>p. op x p \<bind> (\<lambda>(y, p). pool_all op xs p \<bind> (\<lambda>(ys, p). Some (y # ys, p))))"
    by (intro pool_steps Cons.prems Cons.IH) simp_all
  moreover have "pool_all op (x # xs) = (\<lambda>p. op x p \<bind> (\<lambda>(y, p). pool_all op xs p \<bind> (\<lambda>(ys, p). Some (y # ys, p))))"
    by (rule ext) simp
  ultimately show ?case by simp
qed

lemma pool_all_length: "pool_all op xs p = Some (ys, p') \<Longrightarrow> length ys = length xs"
  by (induction xs arbitrary: p ys) (auto simp: Option.bind_eq_Some_conv)

text \<open>\<open>m.map(|x| op(pool, x))\<close> on an \<open>Option\<close>, and \<open>b.then(|| op(pool))\<close>.\<close>

definition pool_opt :: "('a \<Rightarrow> pool \<Rightarrow> ('b \<times> pool) option) \<Rightarrow> 'a option \<Rightarrow> pool \<Rightarrow> ('b option \<times> pool) option" where
  "pool_opt op m p =
     (case m of
        None \<Rightarrow> Some (None, p)
      | Some x \<Rightarrow> do { (y, p) \<leftarrow> op x p; Some (Some y, p) })"

definition pool_when :: "bool \<Rightarrow> (pool \<Rightarrow> ('b \<times> pool) option) \<Rightarrow> pool \<Rightarrow> ('b option \<times> pool) option" where
  "pool_when b op p = (if b then do { (y, p) \<leftarrow> op p; Some (Some y, p) } else Some (None, p))"

lemma pool_opt_operation [pool_steps]: "(\<And>x. pool_operation (op x)) \<Longrightarrow> pool_operation (pool_opt op m)"
  by (cases m) (auto simp: pool_opt_def [abs_def] intro!: pool_steps)

lemma pool_when_operation [pool_steps]: "pool_operation op \<Longrightarrow> pool_operation (pool_when b op)"
  by (cases b) (auto simp: pool_when_def [abs_def] intro!: pool_steps)

lemma pool_opt_Some: "pool_opt op m p = Some (y, p') \<longleftrightarrow>
    (m = None \<and> y = None \<and> p' = p) \<or> (\<exists>x z. m = Some x \<and> op x p = Some (z, p') \<and> y = Some z)"
  by (cases m) (auto simp: pool_opt_def Option.bind_eq_Some_conv)

lemma pool_when_Some: "pool_when b op p = Some (y, p') \<longleftrightarrow>
    (\<not> b \<and> y = None \<and> p' = p) \<or> (\<exists>z. b \<and> op p = Some (z, p') \<and> y = Some z)"
  by (auto simp: pool_when_def Option.bind_eq_Some_conv)

interpretation utf8: pool_operation "pool_utf8 s" for s
proof
  fix p i p'
  assume op: "pool_utf8 s p = Some (i, p')"
  show "pool_grows p p'"
    using op by (auto simp: pool_utf8_def pool_grows_def emit_def map_le_def Let_def Option.bind_eq_Some_conv
        split: option.splits if_splits dest!: new_index_Some)
  fix sl
  assume g: "pool_good p sl"
  show "\<exists>new. pool_good p' (sl @ new)"
  proof (cases "utf8s p s")
    case (Some j)
    with op g show ?thesis by (auto simp: pool_utf8_def intro: exI [of _ "[]"])
  next
    case None
    let ?b = "modified_utf8_bytes s"
    obtain p1 where n: "new_index p = Some (i, p1)" "length ?b \<le> 65535"
        "p' = (emit (1 # be16 (of_nat (length ?b)) @ ?b) p1)\<lparr>utf8s := (utf8s p1)(s \<mapsto> i)\<rparr>"
      using op None by (auto simp: pool_utf8_def Let_def MAX_UTF8_CONST_def emit_def Option.bind_eq_Some_conv split: if_splits)
    have inv: "pool_inv p sl" using g new_index_Some [OF n(1)] by (auto simp: pool_good_def)
    have "entry_shape 1 (be16 (of_nat (length ?b)) @ ?b) ?b 0" using n(2) by (simp add: entry_shape_def)
    from append_entry [OF inv n(1) this] None n
    have "pool_inv p' (sl @ [(1, ?b)])"
      by (auto simp: pool_inv_def emit_def table_simps dest!: new_index_Some)
    then show ?thesis by (auto simp: pool_good_def)
  qed
qed

lemma pool_utf8_table: "pool_utf8 s p = Some (i, p') \<Longrightarrow> utf8s p' s = Some i"
  by (auto simp: pool_utf8_def Let_def Option.bind_eq_Some_conv split: option.splits if_splits)

lemma good_before: "new_index p = Some r \<Longrightarrow> pool_good p sl \<Longrightarrow> pool_inv p sl"
  by (auto simp: pool_good_def new_index_def)

lemma plain_entry_good:
  assumes "pool_good p sl" "new_index p = Some (i, p1)" "entry_shape tag e d 0"
    and "\<And>sl. pool_inv (emit (tag # e) p1) sl \<Longrightarrow> slot sl i = Some (tag, d) \<Longrightarrow> pool_inv p' sl"
  shows "\<exists>new. pool_good p' (sl @ new)"
  using append_entry [OF good_before [OF assms(2,1)] assms(2,3)] assms(4) by (auto simp: pool_good_def)

text \<open>An entry that names the text of its key.\<close>

lemma text_entry_good:
  assumes "pool_good p sl" "pool_utf8 s p = Some (u, p1)" "new_index p1 = Some (i, p2)" "tag \<in> {7, 8, 16}"
    and "\<And>sl. pool_inv (emit (tag # be16 u) p2) sl \<Longrightarrow> slot sl i = Some (tag, be16 u) \<Longrightarrow> utf8s p2 s = Some u \<Longrightarrow>
      pool_inv p' sl"
  shows "\<exists>new. pool_good p' (sl @ new)"
proof -
  obtain new where g: "pool_good p1 (sl @ new)" using utf8.good [OF assms(2,1)] by auto
  have e: "entry_shape tag (be16 u) (be16 u) 0" using assms(4) by (simp add: entry_shape_def)
  have "utf8s p2 s = Some u" using pool_utf8_table [OF assms(2)] new_index_Some [OF assms(3)] by simp
  then obtain new' where "pool_good p' ((sl @ new) @ new')"
    using plain_entry_good [OF g assms(3) e assms(5)] by blast
  then show ?thesis by auto
qed

interpretation pclass: pool_operation "pool_class s" for s
proof
  fix p i p'
  assume op: "pool_class s p = Some (i, p')"
  show "pool_grows p p'"
    using op
    by (auto simp: pool_class_def Option.bind_eq_Some_conv split: option.splits dest!: new_index_Some utf8.grows)
       (auto simp: pool_grows_def emit_def map_le_def)
  fix sl
  assume g: "pool_good p sl"
  show "\<exists>new. pool_good p' (sl @ new)"
  proof (cases "classes p s")
    case (Some j)
    with op g show ?thesis by (auto simp: pool_class_def intro: exI [of _ "[]"])
  next
    case None
    then obtain u p1 p2 where n: "pool_utf8 s p = Some (u, p1)" "new_index p1 = Some (i, p2)"
        "p' = (emit (7 # be16 u) p2)\<lparr>classes := (classes p2)(s \<mapsto> i)\<rparr>"
      using op by (auto simp: pool_class_def emit_def Option.bind_eq_Some_conv)
    show ?thesis
      by (rule text_entry_good [OF g n(1,2), where tag = 7]) (auto simp: pool_inv_def emit_def n(3) table_simps)
  qed
qed

interpretation pstring: pool_operation "pool_string s" for s
proof
  fix p i p'
  assume op: "pool_string s p = Some (i, p')"
  show "pool_grows p p'"
    using op
    by (auto simp: pool_string_def Option.bind_eq_Some_conv split: option.splits dest!: new_index_Some utf8.grows)
       (auto simp: pool_grows_def emit_def map_le_def)
  fix sl
  assume g: "pool_good p sl"
  show "\<exists>new. pool_good p' (sl @ new)"
  proof (cases "strings p s")
    case (Some j)
    with op g show ?thesis by (auto simp: pool_string_def intro: exI [of _ "[]"])
  next
    case None
    then obtain u p1 p2 where n: "pool_utf8 s p = Some (u, p1)" "new_index p1 = Some (i, p2)"
        "p' = (emit (8 # be16 u) p2)\<lparr>strings := (strings p2)(s \<mapsto> i)\<rparr>"
      using op by (auto simp: pool_string_def emit_def Option.bind_eq_Some_conv)
    show ?thesis
      by (rule text_entry_good [OF g n(1,2), where tag = 8]) (auto simp: pool_inv_def emit_def n(3) table_simps)
  qed
qed

interpretation pmethod_type: pool_operation "method_type s" for s
proof
  fix p i p'
  assume op: "method_type s p = Some (i, p')"
  show "pool_grows p p'"
    using op
    by (auto simp: method_type_def Option.bind_eq_Some_conv split: option.splits dest!: new_index_Some utf8.grows)
       (auto simp: pool_grows_def emit_def map_le_def)
  fix sl
  assume g: "pool_good p sl"
  show "\<exists>new. pool_good p' (sl @ new)"
  proof (cases "method_types p s")
    case (Some j)
    with op g show ?thesis by (auto simp: method_type_def intro: exI [of _ "[]"])
  next
    case None
    then obtain u p1 p2 where n: "pool_utf8 s p = Some (u, p1)" "new_index p1 = Some (i, p2)"
        "p' = (emit (16 # be16 u) p2)\<lparr>method_types := (method_types p2)(s \<mapsto> i)\<rparr>"
      using op by (auto simp: method_type_def emit_def Option.bind_eq_Some_conv)
    show ?thesis
      by (rule text_entry_good [OF g n(1,2), where tag = 16]) (auto simp: pool_inv_def emit_def n(3) table_simps)
  qed
qed

interpretation pinteger: pool_operation "pool_integer v" for v
proof
  fix p i p'
  assume op: "pool_integer v p = Some (i, p')"
  show "pool_grows p p'"
    using op by (auto simp: pool_integer_def Option.bind_eq_Some_conv pool_grows_def emit_def split: option.splits dest!: new_index_Some)
  fix sl
  assume g: "pool_good p sl"
  show "\<exists>new. pool_good p' (sl @ new)"
  proof (cases "ints p v")
    case (Some j)
    with op g show ?thesis by (auto simp: pool_integer_def intro: exI [of _ "[]"])
  next
    case None
    with op obtain p1 where n: "new_index p = Some (i, p1)"
        "p' = (emit (3 # be32 v) p1)\<lparr>ints := (ints p1)(v \<mapsto> i)\<rparr>"
      by (auto simp: pool_integer_def emit_def Option.bind_eq_Some_conv)
    show ?thesis
      by (rule plain_entry_good [OF g n(1), where tag = 3 and e = "be32 v" and d = "be32 v"]) (auto simp: entry_shape_def pool_inv_def emit_def n(2) table_simps)
  qed
qed

interpretation pfloat: pool_operation "pool_float v" for v
proof
  fix p i p'
  assume op: "pool_float v p = Some (i, p')"
  show "pool_grows p p'"
    using op by (auto simp: pool_float_def Option.bind_eq_Some_conv pool_grows_def emit_def split: option.splits dest!: new_index_Some)
  fix sl
  assume g: "pool_good p sl"
  show "\<exists>new. pool_good p' (sl @ new)"
  proof (cases "floats p v")
    case (Some j)
    with op g show ?thesis by (auto simp: pool_float_def intro: exI [of _ "[]"])
  next
    case None
    with op obtain p1 where n: "new_index p = Some (i, p1)"
        "p' = (emit (4 # be32 v) p1)\<lparr>floats := (floats p1)(v \<mapsto> i)\<rparr>"
      by (auto simp: pool_float_def emit_def Option.bind_eq_Some_conv)
    show ?thesis
      by (rule plain_entry_good [OF g n(1), where tag = 4 and e = "be32 v" and d = "be32 v"]) (auto simp: entry_shape_def pool_inv_def emit_def n(2) table_simps)
  qed
qed

interpretation phandle: pool_operation "method_handle k r" for k r
proof
  fix p i p'
  assume op: "method_handle k r p = Some (i, p')"
  show "pool_grows p p'"
    using op by (auto simp: method_handle_def Option.bind_eq_Some_conv pool_grows_def emit_def split: option.splits dest!: new_index_Some)
  fix sl
  assume g: "pool_good p sl"
  show "\<exists>new. pool_good p' (sl @ new)"
  proof (cases "method_handles p (k, r)")
    case (Some j)
    with op g show ?thesis by (auto simp: method_handle_def intro: exI [of _ "[]"])
  next
    case None
    with op obtain p1 where n: "new_index p = Some (i, p1)"
        "p' = (emit (15 # k # be16 r) p1)\<lparr>method_handles := (method_handles p1)((k, r) \<mapsto> i)\<rparr>"
      by (auto simp: method_handle_def emit_def Option.bind_eq_Some_conv)
    show ?thesis
      by (rule plain_entry_good [OF g n(1), where tag = 15 and e = "k # be16 r" and d = "k # be16 r"]) (auto simp: entry_shape_def pool_inv_def emit_def n(2) table_simps)
  qed
qed

text \<open>The entries that take two slots.\<close>

lemma wide_count: "pcount p \<le> pcount (snd (new_wide_index p))"
  using unat_u16 [of "pcount p"]
  by (auto simp: new_wide_index_def word_le_nat_alt unat_word_ariths)

lemma wide_entry_good:
  assumes "pool_good p sl" "tag \<in> {5, 6}" "length d = 8" "i = pcount p"
    and "pcount p' = pcount (snd (new_wide_index p))"
    and "\<And>sl. pool_inv (emit (tag # d) (snd (new_wide_index p))) sl \<Longrightarrow> slot sl i = Some (tag, d) \<Longrightarrow> pool_inv p' sl"
  shows "\<exists>new. pool_good p' (sl @ new)"
proof (cases "0xFFFF < unat (pcount p) + 2")
  case True
  then show ?thesis using assms(5) by (simp add: pool_good_def new_wide_index_def)
next
  case False
  then have inv: "pool_inv p sl" using assms(1) by (auto simp: pool_good_def)
  have c: "unat (pcount p + 2) = unat (pcount p) + 2" using False by (simp add: unat_word_ariths)
  let ?sl = "sl @ [(tag, d), (0, [])]"
  have "pool_slots (pbytes p @ tag # d) (sl @ (tag, d) # replicate 1 (0, []))"
    using inv assms(2,3) by (intro slots_entry) (auto simp: pool_inv_def entry_shape_def)
  then have "pool_inv (emit (tag # d) (snd (new_wide_index p))) ?sl"
    using inv False c by (simp add: pool_inv_def emit_def new_wide_index_def table_simps)
  moreover have "slot ?sl i = Some (tag, d)"
    using inv assms(4) by (intro slot_new) (simp add: pool_inv_def)
  ultimately show ?thesis using assms(6) by (auto simp: pool_good_def)
qed

interpretation plong: pool_operation "pool_long v" for v
proof
  fix p i p'
  assume op: "pool_long v p = Some (i, p')"
  show "pool_grows p p'"
    using op wide_count [of p] by (auto simp: pool_long_def new_wide_index_def pool_grows_def emit_def split: option.splits)
  fix sl
  assume g: "pool_good p sl"
  show "\<exists>new. pool_good p' (sl @ new)"
  proof (cases "longs p v")
    case (Some j)
    with op g show ?thesis by (auto simp: pool_long_def intro: exI [of _ "[]"])
  next
    case None
    with op have n: "p' = (emit (5 # be64 v) (snd (new_wide_index p)))\<lparr>longs := (longs p)(v \<mapsto> i)\<rparr>" "i = pcount p"
      by (auto simp: pool_long_def emit_def new_wide_index_def)
    show ?thesis
      by (rule wide_entry_good [OF g, of 5 "be64 v" i])
         (auto simp: pool_inv_def emit_def n new_wide_index_def table_simps)
  qed
qed

interpretation pdouble: pool_operation "pool_double v" for v
proof
  fix p i p'
  assume op: "pool_double v p = Some (i, p')"
  show "pool_grows p p'"
    using op wide_count [of p] by (auto simp: pool_double_def new_wide_index_def pool_grows_def emit_def split: option.splits)
  fix sl
  assume g: "pool_good p sl"
  show "\<exists>new. pool_good p' (sl @ new)"
  proof (cases "doubles p v")
    case (Some j)
    with op g show ?thesis by (auto simp: pool_double_def intro: exI [of _ "[]"])
  next
    case None
    with op have n: "p' = (emit (6 # be64 v) (snd (new_wide_index p)))\<lparr>doubles := (doubles p)(v \<mapsto> i)\<rparr>" "i = pcount p"
      by (auto simp: pool_double_def emit_def new_wide_index_def)
    show ?thesis
      by (rule wide_entry_good [OF g, of 6 "be64 v" i])
         (auto simp: pool_inv_def emit_def n new_wide_index_def table_simps)
  qed
qed

interpretation pnat: pool_operation "pool_nat n d" for n d
proof
  fix p i p'
  assume op: "pool_nat n d p = Some (i, p')"
  then obtain a p1 b p2 where t: "pool_utf8 n p = Some (a, p1)" "pool_utf8 d p1 = Some (b, p2)"
    by (auto simp: pool_nat_def Option.bind_eq_Some_conv)
  have "pool_grows p2 p'"
    using op t by (auto simp: pool_nat_def Option.bind_eq_Some_conv pool_grows_def emit_def split: option.splits dest!: new_index_Some)
  then show "pool_grows p p'" using utf8.grows [OF t(1)] utf8.grows [OF t(2)] by (blast intro: pool_grows_trans)
  fix sl
  assume "pool_good p sl"
  then obtain new where g: "pool_good p2 (sl @ new)" using utf8.good [OF t(1)] utf8.good [OF t(2)] by (metis append_assoc)
  have "\<exists>new'. pool_good p' ((sl @ new) @ new')"
  proof (cases "nats p2 (a, b)")
    case (Some j)
    with op g t show ?thesis by (auto simp: pool_nat_def intro: exI [of _ "[]"])
  next
    case None
    with op t obtain p3 where n: "new_index p2 = Some (i, p3)"
        "p' = (emit (12 # be16 a @ be16 b) p3)\<lparr>nats := (nats p3)((a, b) \<mapsto> i)\<rparr>"
      by (auto simp: pool_nat_def emit_def Option.bind_eq_Some_conv)
    show ?thesis
      by (rule plain_entry_good [OF g n(1), where tag = 12 and e = "be16 a @ be16 b" and d = "be16 a @ be16 b"]) (auto simp: entry_shape_def pool_inv_def emit_def n(2) table_simps)
  qed
  then show "\<exists>new. pool_good p' (sl @ new)" by auto
qed

lemma member_ref_operation: "tag \<in> {9, 10, 11} \<Longrightarrow> pool_operation (member_ref tag c n d)"
proof
  assume tag: "tag \<in> {9, 10, 11}"
  fix p i p'
  assume op: "member_ref tag c n d p = Some (i, p')"
  then obtain a p1 b p2 where t: "pool_class c p = Some (a, p1)" "pool_nat n d p1 = Some (b, p2)"
    by (auto simp: member_ref_def Option.bind_eq_Some_conv)
  have "pool_grows p2 p'"
    using op t by (auto simp: member_ref_def Option.bind_eq_Some_conv pool_grows_def emit_def split: option.splits dest!: new_index_Some)
  then show "pool_grows p p'" using pclass.grows [OF t(1)] pnat.grows [OF t(2)] by (blast intro: pool_grows_trans)
  fix sl
  assume "pool_good p sl"
  then obtain new where g: "pool_good p2 (sl @ new)" using pclass.good [OF t(1)] pnat.good [OF t(2)] by (metis append_assoc)
  have "\<exists>new'. pool_good p' ((sl @ new) @ new')"
  proof (cases "refs p2 (tag, a, b)")
    case (Some j)
    with op g t show ?thesis by (auto simp: member_ref_def intro: exI [of _ "[]"])
  next
    case None
    with op t obtain p3 where n: "new_index p2 = Some (i, p3)"
        "p' = (emit (tag # be16 a @ be16 b) p3)\<lparr>refs := (refs p3)((tag, a, b) \<mapsto> i)\<rparr>"
      by (auto simp: member_ref_def emit_def Option.bind_eq_Some_conv)
    show ?thesis
      by (rule plain_entry_good [OF g n(1), where tag = tag and e = "be16 a @ be16 b" and d = "be16 a @ be16 b"]) (use tag in \<open>auto simp: entry_shape_def pool_inv_def emit_def n(2) table_simps\<close>)
  qed
  then show "\<exists>new. pool_good p' (sl @ new)" by auto
qed

interpretation pfield: pool_operation "fieldref c n d" for c n d
  unfolding fieldref_def by (rule member_ref_operation) simp

interpretation pmethod: pool_operation "methodref c n d" for c n d
  unfolding methodref_def by (rule member_ref_operation) simp

interpretation piface: pool_operation "iface_ref c n d" for c n d
  unfolding iface_ref_def by (rule member_ref_operation) simp

interpretation pdynamic: pool_operation "invoke_dynamic boot n d" for boot n d
proof
  fix p i p'
  assume op: "invoke_dynamic boot n d p = Some (i, p')"
  then obtain b p2 where t: "pool_nat n d p = Some (b, p2)"
    by (auto simp: invoke_dynamic_def Option.bind_eq_Some_conv)
  have "pool_grows p2 p'"
    using op t by (auto simp: invoke_dynamic_def Option.bind_eq_Some_conv pool_grows_def emit_def split: option.splits dest!: new_index_Some)
  then show "pool_grows p p'" using pnat.grows [OF t] by (blast intro: pool_grows_trans)
  fix sl
  assume "pool_good p sl"
  then obtain new where g: "pool_good p2 (sl @ new)" using pnat.good [OF t] by blast
  have "\<exists>new'. pool_good p' ((sl @ new) @ new')"
  proof (cases "invoke_dynamics p2 (boot, b)")
    case (Some j)
    with op g t show ?thesis by (auto simp: invoke_dynamic_def intro: exI [of _ "[]"])
  next
    case None
    with op t obtain p3 where n: "new_index p2 = Some (i, p3)"
        "p' = (emit (18 # be16 boot @ be16 b) p3)\<lparr>invoke_dynamics := (invoke_dynamics p3)((boot, b) \<mapsto> i)\<rparr>"
      by (auto simp: invoke_dynamic_def emit_def Option.bind_eq_Some_conv)
    show ?thesis
      by (rule plain_entry_good [OF g n(1), where tag = 18 and e = "be16 boot @ be16 b" and d = "be16 boot @ be16 b"]) (auto simp: entry_shape_def pool_inv_def emit_def n(2) table_simps)
  qed
  then show "\<exists>new. pool_good p' (sl @ new)" by auto
qed

interpretation phandle_static: pool_operation "method_handle_static c n d f" for c n d f
proof
  fix p i p'
  assume op: "method_handle_static c n d f p = Some (i, p')"
  let ?ref = "if f then iface_ref c n d else methodref c n d"
  have ref: "pool_operation ?ref"
    by (simp add: pmethod.pool_operation_axioms piface.pool_operation_axioms)
  obtain r p1 where t: "?ref p = Some (r, p1)" "method_handle 6 r p1 = Some (i, p')"
    using op by (auto simp: method_handle_static_def Option.bind_eq_Some_conv split: if_splits)
  show "pool_grows p p'"
    using pool_operation.grows [OF ref t(1)] phandle.grows [OF t(2)] by (rule pool_grows_trans)
  fix sl
  assume "pool_good p sl"
  then show "\<exists>new. pool_good p' (sl @ new)"
    using pool_operation.good [OF ref t(1)] phandle.good [OF t(2)] by (metis append_assoc)
qed

interpretation pbootstrap: pool_operation "bootstrap h a" for h a
  by unfold_locales
     (auto simp: bootstrap_def pool_grows_def pool_good_def pool_inv_def Let_def split: option.splits intro: exI [of _ "[]"])

interpretation run_op: pool_operation "run_op a" for a
proof -
  show "pool_operation (run_op a)"
    by (cases a) (simp_all add: name_and_type_def
        utf8.pool_operation_axioms pclass.pool_operation_axioms pstring.pool_operation_axioms pinteger.pool_operation_axioms
        pfloat.pool_operation_axioms plong.pool_operation_axioms pdouble.pool_operation_axioms pnat.pool_operation_axioms
        pfield.pool_operation_axioms pmethod.pool_operation_axioms piface.pool_operation_axioms pmethod_type.pool_operation_axioms phandle.pool_operation_axioms
        phandle_static.pool_operation_axioms pbootstrap.pool_operation_axioms pdynamic.pool_operation_axioms)
qed


lemma run_ops_good:
  "run_ops ops p = Some p' \<Longrightarrow> pool_good p sl \<Longrightarrow> (\<exists>new. pool_good p' (sl @ new)) \<and> pool_grows p p'"
proof (induction ops arbitrary: p sl)
  case Nil
  then show ?case by (auto intro: exI [of _ "[]"])
next
  case (Cons a ops)
  then obtain i q where q: "run_op a p = Some (i, q)" "run_ops ops q = Some p'"
    by (auto simp: Option.bind_eq_Some_conv)
  obtain new where "pool_good q (sl @ new)" using run_op.good [OF q(1) Cons.prems(2)] by auto
  from Cons.IH [OF q(2) this] run_op.grows [OF q(1)] show ?case
    by (auto intro: pool_grows_trans)
qed

lemma pool_utf8_read:
  assumes "pool_inv p sl" "utf8s p s = Some i" "list_all (\<lambda>c. is_scalar c \<and> c < 0x10000) s"
  shows "cp_utf8 \<lparr>tags = 0 # map fst sl, data = [] # map snd sl\<rparr> i = Some s"
proof -
  have "slot sl i = Some (1, modified_utf8_bytes s)" using assms(1,2) by (auto simp: pool_inv_def table_ok_def)
  then have "i \<noteq> 0" "unat i - 1 < length sl" "sl ! (unat i - 1) = (1, modified_utf8_bytes s)"
    by (auto simp: slot_def idx_eq_Some split: if_splits)
  moreover from this have "unat i \<noteq> 0" by (simp add: unat_eq_zero)
  ultimately show ?thesis
    by (simp add: cp_utf8_def Let_def idx_def nth_Cons' mutf8_roundtrip [OF assms(3)])
qed

lemma pool_class_read:
  assumes "pool_inv p sl" "classes p s = Some i" "list_all (\<lambda>c. is_scalar c \<and> c < 0x10000) s"
  shows "cp_class_name \<lparr>tags = 0 # map fst sl, data = [] # map snd sl\<rparr> i = Some s"
proof -
  obtain j where j: "utf8s p s = Some j" "slot sl i = Some (7, be16 j)"
    using assms(1,2) unfolding pool_inv_def text_table_ok_def by blast
  then have "i \<noteq> 0" "unat i - 1 < length sl" "sl ! (unat i - 1) = (7, be16 j)"
    by (auto simp: slot_def idx_eq_Some split: if_splits)
  moreover from this have "unat i \<noteq> 0" by (simp add: unat_eq_zero)
  moreover have "be16_of (be16 j ! 0) (be16 j ! 1) = j" by (simp add: be16_def be16_of_be16)
  ultimately show ?thesis
    using pool_utf8_read [OF assms(1) j(1) assms(3)] by (simp add: cp_class_name_def Let_def idx_def nth_Cons')
qed

lemma pool_class_table: "pool_class s p = Some (i, p') \<Longrightarrow> classes p' s = Some i"
  by (auto simp: pool_class_def Let_def Option.bind_eq_Some_conv split: option.splits)

lemma run_ops_grows: "run_ops ops p = Some p' \<Longrightarrow> pool_grows p p'"
proof (induction ops arbitrary: p)
  case (Cons a ops)
  then obtain i q where "run_op a p = Some (i, q)" "run_ops ops q = Some p'"
    by (auto simp: Option.bind_eq_Some_conv)
  then show ?case using Cons.IH run_op.grows by (blast intro: pool_grows_trans)
qed simp

lemma chunks_loop_concat: "concat (utf8_chunks_loop m out cur len s) = concat out @ cur @ s"
  by (induction s arbitrary: out cur len) (auto simp: Let_def)

lemma mutf8_length: "c < 0x110000 \<Longrightarrow> length (encode_mutf8 c) = modified_utf8_width c"
proof -
  assume c: "c < 0x110000"
  define u where "u = (of_nat c :: u32)"
  have uc: "unat u = c" using c by (simp add: u_def unat_of_nat take_bit_eq_mod)
  have "u = 0 \<longleftrightarrow> c = 0" "u < 0x80 \<longleftrightarrow> c < 0x80" "u < 0x800 \<longleftrightarrow> c < 0x800"
    using uc by (auto simp: word_less_nat_alt unat_eq_zero)
  then show ?thesis
    by (simp add: encode_mutf8_def u_def [symmetric] modified_utf8_width_def Let_def)
qed

lemma chunks_loop_fit:
  assumes "list_all (\<lambda>c. c < 0x110000) s" "3 \<le> m" "length (modified_utf8_bytes cur) = len" "len \<le> m"
    and "list_all (\<lambda>c. length (modified_utf8_bytes c) \<le> m) out"
  shows "list_all (\<lambda>c. length (modified_utf8_bytes c) \<le> m) (utf8_chunks_loop m out cur len s)"
  using assms
proof (induction s arbitrary: out cur len)
  case (Cons c s)
  have w: "length (encode_mutf8 c) = modified_utf8_width c" "modified_utf8_width c \<le> 3"
    using Cons.prems(1) by (simp_all add: mutf8_length) (simp add: modified_utf8_width_def)
  show ?case
  proof (cases "m < len + modified_utf8_width c \<and> cur \<noteq> []")
    case True
    then show ?thesis
      using Cons.prems w Cons.IH [of "[c]" "modified_utf8_width c" "out @ [cur]"]
      by (simp add: Let_def modified_utf8_bytes_def)
  next
    case False
    then have "len + modified_utf8_width c \<le> m"
      using Cons.prems w(2) by (cases "cur = []") (auto simp: modified_utf8_bytes_def)
    with False show ?thesis
      using Cons.prems w Cons.IH [of "cur @ [c]" "len + modified_utf8_width c" out]
      by (auto simp: Let_def modified_utf8_bytes_def)
  qed
qed simp

section \<open>Properties\<close>

text \<open>
  C3: the class file reader parses the pool the writer wrote, whatever sequence of operations built it, as long as its
  count is not \<open>0xFFFF\<close> (where the count of a wide entry saturates): it stops exactly at the end of the pool, and
  every interned text of the Basic Multilingual Plane, and every class with such a name, is read back at its index.
  For other text this is false: see \<open>supplementary_not_read_back\<close>.
\<close>

theorem pool_header_reads_back:
  assumes "run_ops ops pool_new = Some p" "pcount p \<noteq> 0xFFFF"
  shows "\<exists>cp. parse_cp (cursor_new (write_header p @ rest)) = Ok (cp, \<lparr>cb = write_header p @ rest, ci = length (write_header p)\<rparr>) \<and>
    (\<forall>s i. list_all (\<lambda>c. is_scalar c \<and> c < 0x10000) s \<longrightarrow>
      (utf8s p s = Some i \<longrightarrow> Cp_utf8 cp i = Ok s) \<and> (classes p s = Some i \<longrightarrow> Cp_class_name cp i = Ok s))"
proof -
  have "pool_good pool_new []" by (simp add: pool_good_def pool_inv_new)
  then obtain sl where inv: "pool_inv p sl"
    using run_ops_good [OF assms(1)] assms(2) by (fastforce simp: pool_good_def)
  then have parse: "parse_pool (cursor_new (write_header p @ rest)) =
      Some (\<lparr>tags = 0 # map fst sl, data = [] # map snd sl\<rparr>, \<lparr>cb = write_header p @ rest, ci = length (write_header p)\<rparr>)"
    using parse_header [of "pbytes p" sl "pcount p" "cursor_new (write_header p @ rest)" "[]" rest]
    by (simp add: pool_inv_def cursor_new_def write_header_def)
  show ?thesis
    using pool_utf8_read [OF inv] pool_class_read [OF inv]
    by (intro exI [of _ "\<lparr>tags = 0 # map fst sl, data = [] # map snd sl\<rparr>"])
      (simp add: parse_cp_reads_format utf8_reads_format class_name_reads_format parse)
qed

lemma pool_header_witness:
  "\<exists>p cp. run_ops [OpClass [0x41], OpLong 7, OpMethod [0x41] [0x66] [0x28]] pool_new = Some p \<and>
     parse_cp (cursor_new (write_header p @ [1])) = Ok (cp, \<lparr>cb = write_header p @ [1], ci = length (write_header p)\<rparr>) \<and>
     Cp_utf8 cp 1 = Ok [0x41] \<and> Cp_class_name cp 2 = Ok [0x41]"
proof -
  obtain p where p: "run_ops [OpClass [0x41], OpLong 7, OpMethod [0x41] [0x66] [0x28]] pool_new = Some p" "pcount p \<noteq> 0xFFFF"
      "utf8s p [0x41] = Some 1" "classes p [0x41] = Some 2"
    by (simp add: pool_class_def pool_utf8_def pool_long_def methodref_def member_ref_def pool_nat_def pool_new_def
        new_index_def new_wide_index_def emit_def MAX_UTF8_CONST_def modified_utf8_bytes_def encode_mutf8_def Let_def)
  from pool_header_reads_back [OF p(1,2), of "[1]"] p show ?thesis by (fastforce simp: is_scalar_def)
qed

text \<open>C13: an index given once is given again for the same text, whatever the pool interned since.\<close>

theorem interned_index_is_stable:
  assumes "pool_utf8 s p = Some (i, p1)" "run_ops ops p1 = Some p2"
  shows "pool_utf8 s p2 = Some (i, p2)"
proof -
  have "utf8s p1 s = Some i" by (rule pool_utf8_table [OF assms(1)])
  then have "utf8s p2 s = Some i"
    using run_ops_grows [OF assms(2)] by (auto simp: pool_grows_def map_le_def dom_def)
  then show ?thesis by (simp add: pool_utf8_def)
qed

lemma interned_index_witness:
  "\<exists>p1 p2. pool_utf8 [0x41] pool_new = Some (1, p1) \<and> run_ops [OpUtf8 [0x42]] p1 = Some p2 \<and>
     pool_utf8 [0x41] p2 = Some (1, p2)"
proof -
  obtain p1 p2 where p: "pool_utf8 [0x41] pool_new = Some (1, p1)" "run_ops [OpUtf8 [0x42]] p1 = Some p2"
    by (simp add: pool_utf8_def pool_new_def new_index_def emit_def MAX_UTF8_CONST_def modified_utf8_bytes_def
        encode_mutf8_def Let_def)
  from interned_index_is_stable [OF p] p show ?thesis by blast
qed

text \<open>
  C14: \<open>utf8_chunks\<close> loses nothing and splits no character: its pieces concatenate to the string, and
  each fits the constant it is cut for.
\<close>

theorem utf8_chunks_fit:
  assumes "3 \<le> m" "list_all (\<lambda>c. c < 0x110000) s"
  shows "concat (utf8_chunks s m) = s \<and> list_all (\<lambda>c. length (modified_utf8_bytes c) \<le> m) (utf8_chunks s m)"
  using assms chunks_loop_fit [of s m "[]" 0 "[]"]
  by (simp add: utf8_chunks_def chunks_loop_concat modified_utf8_bytes_def)

lemma utf8_chunks_witness:
  "concat (utf8_chunks [0x41, 0, 0x42] 3) = [0x41, 0, 0x42] \<and>
   list_all (\<lambda>c. length (modified_utf8_bytes c) \<le> 3) (utf8_chunks [0x41, 0, 0x42] 3)"
  by (rule utf8_chunks_fit) simp_all

text \<open>
  The bytes written for a character above \<open>0xFFFF\<close> are no modified UTF-8 of it: the reader
  rejects those of U+1F600, and reads those of U+20000 as U+0000.
\<close>

theorem supplementary_not_read_back:
  "mutf8_text (modified_utf8_bytes [0x1F600]) = None \<and>
   mutf8_text (modified_utf8_bytes [0x20000]) = Some [0]"
  by (simp add: modified_utf8_bytes_def encode_mutf8_def mutf8_3_def char_from_u32_def)

end
