(* ===== verification/ClassWriter.thy ===== *)
theory ClassWriter
  imports Pool "HOL-Library.Mapping"
begin

text \<open>
  \<open>crates/backend/src/classfile.rs\<close>, second half: the members of a class and \<open>ClassEmit::write_with_pool\<close>,
  which interns every constant first and then writes header, pool, members and attributes.  A
  function that only interns is a pool operation (\<open>None\<close>: panic); \<open>write_with_pool\<close> has the source's
  \<open>io::Result\<close>, with the panic as its third outcome.  A function the source gives \<open>out: &mut Vec<u8>\<close> returns
  the bytes it appends.
\<close>

section \<open>Members\<close>

definition ACC_STATIC :: u16 where "ACC_STATIC = 0x0008"

definition ACC_FINAL :: u16 where "ACC_FINAL = 0x0010"

definition ACC_SYNTHETIC :: u16 where "ACC_SYNTHETIC = 0x1000"

definition ACC_MANDATED :: u16 where "ACC_MANDATED = 0x8000"

text \<open>\<open>Annotation\<close> and \<open>ElementValue\<close>; a float or a double is its bits, which is all the pool uses of it.\<close>

datatype annotation =
    Annotation (an_desc: str) (an_visible: bool) (an_elems: "(str \<times> ElementValue) list")
  and ElementValue =
    EV_Int u8 i32 | EV_Long i64 | EV_Float u32 | EV_Double u64 | EV_Str str | EV_Enum str str | EV_Class str
  | EV_Annot annotation | EV_Array "ElementValue list"

definition marker :: "str \<Rightarrow> annotation" where
  "marker desc = Annotation desc True []"

record field_info =
  fd_access :: u16
  fd_name :: str
  fd_desc :: str

record exception_entry =
  start_pc :: u16
  end_pc :: u16
  handler_pc :: u16
  catch_type :: u16

record code_info =
  max_stack :: u16
  max_locals :: u16
  code_bytes :: bytes
  exceptions :: "exception_entry list"
  stack_map :: "bytes option"

record method_info =
  md_access :: u16
  md_name :: str
  md_desc :: str
  md_code :: "code_info option"
  java_annots :: "annotation list"
  param_annots :: "annotation list list"
  md_signature :: "str option"
  param_names :: "str option list"
  param_flags :: "u16 list"
  local_names :: "str option list"

record inner_class_entry =
  inner_class :: str
  outer_class :: "str option"
  inner_name :: "str option"
  inner_access :: u16

record class_emit =
  ce_access :: u16
  this_name :: str
  super_name :: str
  interfaces :: "str list"
  ce_fields :: "field_info list"
  ce_methods :: "method_info list"
  ce_source :: str
  scala_signature :: "str option"
  scala_raw :: bool
  inner_classes :: "inner_class_entry list"
  enclosing_method :: "(str \<times> (str \<times> str) option) option"
  ce_signature :: "str option"
  field_signatures :: "(str, str) mapping"
  field_constants :: "(str, i64) mapping"
  class_annotations :: "annotation list"
  field_annotations :: "(str, annotation list) mapping"

text \<open>\<open>io::Error::new(io::ErrorKind::InvalidData, message)\<close>\<close>

datatype io_error = InvalidData str

section \<open>Annotations\<close>

lemma elem_size: "(name, v) \<in> set elems \<Longrightarrow> Suc (size v) < size_list (size_prod (\<lambda>_. 0) size) elems"
  by (induction elems) auto

lemma item_size: "v \<in> set items \<Longrightarrow> size v < Suc (size_list size items)"
  by (induction items) auto

function encode_annotation :: "annotation \<Rightarrow> pool \<Rightarrow> (bytes \<times> pool) option"
  and encode_elem :: "str \<times> ElementValue \<Rightarrow> pool \<Rightarrow> (bytes \<times> pool) option"
  and encode_element_value :: "ElementValue \<Rightarrow> pool \<Rightarrow> (bytes \<times> pool) option" where
  "encode_annotation (Annotation desc visible elems) p = do {
     (d, p) \<leftarrow> pool_utf8 desc p;
     (es, p) \<leftarrow> pool_all encode_elem elems p;
     Some (be16 d @ be16 (of_nat (length elems)) @ concat es, p)
   }"
| "encode_elem (name, v) p = do {
     (n, p) \<leftarrow> pool_utf8 name p;
     (e, p) \<leftarrow> encode_element_value v p;
     Some (be16 n @ e, p)
   }"
| "encode_element_value (EV_Int tag n) p = do { (i, p) \<leftarrow> pool_integer n p; Some (tag # be16 i, p) }"
| "encode_element_value (EV_Long n) p = do { (i, p) \<leftarrow> pool_long n p; Some (byte CHR ''J'' # be16 i, p) }"
| "encode_element_value (EV_Float f) p = do { (i, p) \<leftarrow> pool_float f p; Some (byte CHR ''F'' # be16 i, p) }"
| "encode_element_value (EV_Double d) p = do { (i, p) \<leftarrow> pool_double d p; Some (byte CHR ''D'' # be16 i, p) }"
| "encode_element_value (EV_Str s) p = do { (i, p) \<leftarrow> pool_utf8 s p; Some (byte CHR ''s'' # be16 i, p) }"
| "encode_element_value (EV_Enum desc name) p = do {
     (d, p) \<leftarrow> pool_utf8 desc p;
     (n, p) \<leftarrow> pool_utf8 name p;
     Some (byte CHR ''e'' # be16 d @ be16 n, p)
   }"
| "encode_element_value (EV_Class desc) p = do { (i, p) \<leftarrow> pool_utf8 desc p; Some (byte CHR ''c'' # be16 i, p) }"
| "encode_element_value (EV_Annot a) p = do { (b, p) \<leftarrow> encode_annotation a p; Some (byte CHR ''@'' # b, p) }"
| "encode_element_value (EV_Array items) p = do {
     (es, p) \<leftarrow> pool_all encode_element_value items p;
     Some (byte CHR ''['' # be16 (of_nat (length items)) @ concat es, p)
   }"
  by pat_completeness auto
termination
  by (relation "measure (\<lambda>x. case x of Inl (a, _) \<Rightarrow> size a | Inr (Inl (e, _)) \<Rightarrow> Suc (size (snd e)) | Inr (Inr (v, _)) \<Rightarrow> size v)")
     (auto simp: item_size intro: Suc_lessD [OF elem_size])

text \<open>\<open>chosen.dedup_by(|a, b| a.desc == b.desc)\<close>: of neighbours with one descriptor the first stays.\<close>

fun dedup_by_desc :: "annotation list \<Rightarrow> annotation list" where
  "dedup_by_desc (a # b # as) =
     (if an_desc b = an_desc a then dedup_by_desc (a # as) else a # dedup_by_desc (b # as))"
| "dedup_by_desc as = as"

text \<open>One turn of the loop of \<open>annotation_attrs\<close>: the attribute of the annotations of one visibility.\<close>

definition visible_attr ::
  "bool \<Rightarrow> annotation list \<Rightarrow> (u16 \<times> bytes) option \<Rightarrow> pool \<Rightarrow> ((u16 \<times> bytes) list \<times> pool) option" where
  "visible_attr visible annots extra_visible p =
     (let chosen = dedup_by_desc (filter (\<lambda>a. an_visible a = visible) annots);
          extra = (if visible then extra_visible else None);
          n = length chosen + (case extra of None \<Rightarrow> 0 | Some (k, _) \<Rightarrow> unat k) in
      if n = 0 then Some ([], p)
      else do {
        (name, p) \<leftarrow> pool_utf8 (lit (if visible then ''RuntimeVisibleAnnotations'' else ''RuntimeInvisibleAnnotations'')) p;
        (es, p) \<leftarrow> pool_all encode_annotation chosen p;
        Some ([(name, be16 (of_nat n) @ concat es @ (case extra of None \<Rightarrow> [] | Some (_, bs) \<Rightarrow> bs))], p)
      })"

definition annotation_attrs ::
  "annotation list \<Rightarrow> (u16 \<times> bytes) option \<Rightarrow> pool \<Rightarrow> ((u16 \<times> bytes) list \<times> pool) option" where
  "annotation_attrs annots extra_visible p = do {
     (vis, p) \<leftarrow> visible_attr True annots extra_visible p;
     (inv, p) \<leftarrow> visible_attr False annots extra_visible p;
     Some (vis @ inv, p)
   }"

text \<open>The annotations of one parameter, and one turn of the loop of \<open>param_annotation_attrs\<close>.\<close>

definition param_chosen :: "bool \<Rightarrow> annotation list \<Rightarrow> pool \<Rightarrow> (bytes \<times> pool) option" where
  "param_chosen visible annots p =
     (let chosen = filter (\<lambda>a. an_visible a = visible) annots in do {
        (es, p) \<leftarrow> pool_all encode_annotation chosen p;
        Some (be16 (of_nat (length chosen)) @ concat es, p)
      })"

definition param_visible_attr :: "bool \<Rightarrow> annotation list list \<Rightarrow> pool \<Rightarrow> ((u16 \<times> bytes) list \<times> pool) option" where
  "param_visible_attr visible params p =
     (if \<not> list_ex (\<lambda>a. an_visible a = visible) (concat params) then Some ([], p)
      else do {
        (name, p) \<leftarrow> pool_utf8 (lit (if visible then ''RuntimeVisibleParameterAnnotations''
                                     else ''RuntimeInvisibleParameterAnnotations'')) p;
        (bodies, p) \<leftarrow> pool_all (param_chosen visible) params p;
        Some ([(name, of_nat (length params) # concat bodies)], p)
      })"

definition param_annotation_attrs :: "annotation list list \<Rightarrow> pool \<Rightarrow> ((u16 \<times> bytes) list \<times> pool) option" where
  "param_annotation_attrs params p = do {
     (vis, p) \<leftarrow> param_visible_attr True params p;
     (inv, p) \<leftarrow> param_visible_attr False params p;
     Some (vis @ inv, p)
   }"

definition write_attr :: "u16 \<Rightarrow> bytes \<Rightarrow> bytes" where
  "write_attr name body = be16 name @ be32 (of_nat (length body)) @ body"

definition write_attrs :: "(u16 \<times> bytes) list \<Rightarrow> bytes" where
  "write_attrs attrs = concat (map (\<lambda>(name, body). write_attr name body) attrs)"

section \<open>Descriptors\<close>

text \<open>\<open>while i < end && P(bytes[i]) { i += 1; }\<close>\<close>

function scan_while :: "(u8 \<Rightarrow> bool) \<Rightarrow> bytes \<Rightarrow> nat \<Rightarrow> nat \<Rightarrow> nat" where
  "scan_while P bs stop i = (if i < stop \<and> P (bs ! i) then scan_while P bs stop (i + 1) else i)"
  by pat_completeness auto
termination
  by (relation "measure (\<lambda>(P, bs, stop, i). stop - i)") auto

declare scan_while.simps [simp del]

definition params_start :: "bytes \<Rightarrow> nat" where
  "params_start bs = (case bs of b # _ \<Rightarrow> (if b = byte CHR ''('' then 1 else 0) | [] \<Rightarrow> 0)"

lemma scan_while_ge: "i \<le> scan_while P bs stop i"
  by (induction P bs stop i rule: scan_while.induct) (subst scan_while.simps, auto)

lemma scan_while_less: "i < stop \<Longrightarrow> stop - Suc (scan_while P bs stop i) < stop - i"
  using scan_while_ge [of i P bs stop] by simp

lemma scan_while_twice_less: "i < stop \<Longrightarrow> stop - Suc (scan_while P bs stop (scan_while Q bs stop i)) < stop - i"
  using scan_while_ge [of i Q bs stop] scan_while_ge [of "scan_while Q bs stop i" P bs stop] by simp

text \<open>
  The two loops over a descriptor are two pieces of code, each with its own walk past the brackets and one type.
  \<open>stop\<close> is where \<open>desc.find(')')\<close> found the parenthesis, so \<open>bytes[i]\<close> is in range wherever it is read.
\<close>

function param_loop :: "str \<Rightarrow> bytes \<Rightarrow> nat \<Rightarrow> nat \<Rightarrow> str list option" where
  "param_loop desc bs stop i =
     (if i < stop then do {
        let j = scan_while (\<lambda>b. b = byte CHR ''['') bs stop i;
        let j = (if j < stop \<and> bs ! j = byte CHR ''L'' then scan_while (\<lambda>b. b \<noteq> byte CHR '';'') bs stop j else j);
        let j = j + 1;
        d \<leftarrow> slice_str desc i (min j stop);
        ds \<leftarrow> param_loop desc bs stop j;
        Some (d # ds)
      } else Some [])"
  by pat_completeness auto
termination
  by (relation "measure (\<lambda>(desc, bs, stop, i). stop - i)") (auto intro: scan_while_less scan_while_twice_less)

declare param_loop.simps [simp del]

definition param_descriptors :: "str \<Rightarrow> str list option" where
  "param_descriptors desc =
     (case find_char desc (chr CHR '')'') of
        None \<Rightarrow> Some []
      | Some stop \<Rightarrow> param_loop desc (as_bytes desc) stop (params_start (as_bytes desc)))"

function count_loop :: "bytes \<Rightarrow> nat \<Rightarrow> nat \<Rightarrow> nat \<Rightarrow> nat" where
  "count_loop bs stop i n =
     (if i < stop then
        let n = n + 1;
            i = scan_while (\<lambda>b. b = byte CHR ''['') bs stop i;
            i = (if i < stop \<and> bs ! i = byte CHR ''L'' then scan_while (\<lambda>b. b \<noteq> byte CHR '';'') bs stop i else i)
        in count_loop bs stop (i + 1) n
      else n)"
  by pat_completeness auto
termination
  by (relation "measure (\<lambda>(bs, stop, i, n). stop - i)") (auto intro: scan_while_less scan_while_twice_less)

declare count_loop.simps [simp del]

definition method_parameter_count :: "str \<Rightarrow> nat" where
  "method_parameter_count desc =
     (case find_char desc (chr CHR '')'') of
        None \<Rightarrow> 0
      | Some stop \<Rightarrow> count_loop (as_bytes desc) stop (params_start (as_bytes desc)) 0)"

section \<open>Interning\<close>

text \<open>The first part of \<open>write_with_pool\<close>: the class, its supertypes, its signature and its fields.\<close>

record field_data =
  f_access :: u16
  f_name :: u16
  f_desc :: u16
  f_sig :: "u16 option"
  f_const :: "u16 option"
  f_annots :: "(u16 \<times> bytes) list"

record head_data =
  h_this :: u16
  h_super :: u16
  h_ifaces :: "u16 list"
  h_sig_attr :: "u16 option"
  h_const_attr :: "u16 option"
  h_class_sig :: "u16 option"
  h_fields :: "field_data list"

definition intern_field :: "class_emit \<Rightarrow> field_info \<Rightarrow> pool \<Rightarrow> (field_data \<times> pool) option" where
  "intern_field c f p = do {
     (sig, p) \<leftarrow> pool_opt pool_utf8 (Mapping.lookup (field_signatures c) (fd_name f)) p;
     (cst, p) \<leftarrow> pool_opt pool_long (Mapping.lookup (field_constants c) (fd_name f)) p;
     (annots, p) \<leftarrow> (case Mapping.lookup (field_annotations c) (fd_name f) of
                      Some a \<Rightarrow> annotation_attrs a None p
                    | None \<Rightarrow> Some ([], p));
     (n, p) \<leftarrow> pool_utf8 (encode_method_name (fd_name f)) p;
     (d, p) \<leftarrow> pool_utf8 (fd_desc f) p;
     Some (\<lparr>f_access = fd_access f, f_name = n, f_desc = d, f_sig = sig, f_const = cst, f_annots = annots\<rparr>, p)
   }"

definition needs_sig_attr :: "class_emit \<Rightarrow> bool" where
  "needs_sig_attr c \<longleftrightarrow>
     ce_signature c \<noteq> None \<or> \<not> Mapping.is_empty (field_signatures c) \<or>
     list_ex (\<lambda>m. md_signature m \<noteq> None) (ce_methods c)"

definition intern_head :: "class_emit \<Rightarrow> pool \<Rightarrow> (head_data \<times> pool) option" where
  "intern_head c p = do {
     (this_i, p) \<leftarrow> pool_class (this_name c) p;
     (super_i, p) \<leftarrow> pool_class (super_name c) p;
     (ifaces, p) \<leftarrow> pool_all pool_class (interfaces c) p;
     (sig_attr, p) \<leftarrow> pool_when (needs_sig_attr c) (pool_utf8 (lit ''Signature'')) p;
     (const_attr, p) \<leftarrow> pool_when (\<not> Mapping.is_empty (field_constants c)) (pool_utf8 (lit ''ConstantValue'')) p;
     (class_sig, p) \<leftarrow> pool_opt pool_utf8 (ce_signature c) p;
     (fields, p) \<leftarrow> pool_all (intern_field c) (ce_fields c) p;
     Some (\<lparr>h_this = this_i, h_super = super_i, h_ifaces = ifaces, h_sig_attr = sig_attr,
            h_const_attr = const_attr, h_class_sig = class_sig, h_fields = fields\<rparr>, p)
   }"

text \<open>The names of the attributes, \<open>SourceFile\<close> and the \<open>Scala\<close> markers.\<close>

record name_data =
  n_code :: u16
  n_stack_map :: u16
  n_lvt :: "u16 option"
  n_src :: u16
  n_src_name :: u16
  n_scala_raw :: "u16 option"
  n_scala_sig :: "u16 option"

definition intern_names :: "class_emit \<Rightarrow> pool \<Rightarrow> (name_data \<times> pool) option" where
  "intern_names c p = do {
     (code, p) \<leftarrow> pool_utf8 (lit ''Code'') p;
     (smt, p) \<leftarrow> pool_utf8 (lit ''StackMapTable'') p;
     (lvt, p) \<leftarrow> pool_when (list_ex (\<lambda>m. md_code m \<noteq> None \<and> (param_names m \<noteq> [] \<or> local_names m \<noteq> [])) (ce_methods c))
                  (pool_utf8 (lit ''LocalVariableTable'')) p;
     (src, p) \<leftarrow> pool_utf8 (lit ''SourceFile'') p;
     (src_name, p) \<leftarrow> pool_utf8 (ce_source c) p;
     (raw, p) \<leftarrow> pool_when (scala_raw c) (pool_utf8 (lit ''Scala'')) p;
     (ssig, p) \<leftarrow> pool_when (scala_signature c \<noteq> None \<and> \<not> scala_raw c) (pool_utf8 (lit ''ScalaSig'')) p;
     Some (\<lparr>n_code = code, n_stack_map = smt, n_lvt = lvt, n_src = src, n_src_name = src_name,
            n_scala_raw = raw, n_scala_sig = ssig\<rparr>, p)
   }"

text \<open>The pieces of the signature, and the annotation built from them.\<close>

definition sig_chunks :: "class_emit \<Rightarrow> str list" where
  "sig_chunks c = (case scala_signature c of None \<Rightarrow> [] | Some s \<Rightarrow> utf8_chunks s MAX_UTF8_CONST)"

definition long_sig :: "class_emit \<Rightarrow> bool" where
  "long_sig c \<longleftrightarrow> 1 < length (sig_chunks c)"

record sig_data =
  s_type :: "u16 option"
  s_bytes :: "u16 option"
  s_utf8s :: "u16 list"

definition intern_signature :: "class_emit \<Rightarrow> pool \<Rightarrow> (sig_data \<times> pool) option" where
  "intern_signature c p = do {
     (ty, p) \<leftarrow> pool_when (scala_signature c \<noteq> None)
                 (pool_utf8 (lit (if long_sig c then ''Lscala/reflect/ScalaLongSignature;''
                                  else ''Lscala/reflect/ScalaSignature;''))) p;
     (bn, p) \<leftarrow> pool_when (scala_signature c \<noteq> None) (pool_utf8 (lit ''bytes'')) p;
     (us, p) \<leftarrow> pool_all pool_utf8 (sig_chunks c) p;
     Some (\<lparr>s_type = ty, s_bytes = bn, s_utf8s = us\<rparr>, p)
   }"

definition scala_sig_annot :: "class_emit \<Rightarrow> sig_data \<Rightarrow> (u16 \<times> bytes) option" where
  "scala_sig_annot c s =
     (case (s_type s, s_bytes s) of
        (Some ty, Some bn) \<Rightarrow>
          Some (1, be16 ty @ be16 1 @ be16 bn @
                   (if long_sig c then byte CHR ''['' # be16 (of_nat (length (s_utf8s s))) else []) @
                   concat (map (\<lambda>u. byte CHR ''s'' # be16 u) (s_utf8s s)))
      | _ \<Rightarrow> None)"

text \<open>Nesting, bootstrap methods and \<open>MethodParameters\<close>.\<close>

record nest_data =
  n_inner_attr :: "u16 option"
  n_inner :: "(u16 \<times> u16 \<times> u16 \<times> u16) list"
  n_enclosing_attr :: "u16 option"
  n_enclosing :: "(u16 \<times> u16) option"
  n_bootstrap :: "u16 option"
  n_method_params :: "u16 option"

text \<open>\<open>m.map_or(0, |x| op(pool, x))\<close>\<close>

definition pool_or_zero :: "('a \<Rightarrow> pool \<Rightarrow> (u16 \<times> pool) option) \<Rightarrow> 'a option \<Rightarrow> pool \<Rightarrow> (u16 \<times> pool) option" where
  "pool_or_zero op m p = (case m of None \<Rightarrow> Some (0, p) | Some x \<Rightarrow> op x p)"

definition intern_inner :: "inner_class_entry \<Rightarrow> pool \<Rightarrow> ((u16 \<times> u16 \<times> u16 \<times> u16) \<times> pool) option" where
  "intern_inner e p = do {
     (inner, p) \<leftarrow> pool_class (inner_class e) p;
     (outer, p) \<leftarrow> pool_or_zero pool_class (outer_class e) p;
     (name, p) \<leftarrow> pool_or_zero (\<lambda>n. pool_utf8 (encode_method_name n)) (inner_name e) p;
     Some ((inner, outer, name, inner_access e), p)
   }"

definition intern_enclosing :: "str \<times> (str \<times> str) option \<Rightarrow> pool \<Rightarrow> ((u16 \<times> u16) \<times> pool) option" where
  "intern_enclosing e p = do {
     (c, p) \<leftarrow> pool_class (fst e) p;
     (nt, p) \<leftarrow> pool_or_zero (\<lambda>(n, d). name_and_type (encode_method_name n) d) (snd e) p;
     Some ((c, nt), p)
   }"

definition intern_nesting :: "class_emit \<Rightarrow> pool \<Rightarrow> (nest_data \<times> pool) option" where
  "intern_nesting c p = do {
     (ia, p) \<leftarrow> pool_when (inner_classes c \<noteq> []) (pool_utf8 (lit ''InnerClasses'')) p;
     (is, p) \<leftarrow> pool_all intern_inner (inner_classes c) p;
     (ea, p) \<leftarrow> pool_when (enclosing_method c \<noteq> None) (pool_utf8 (lit ''EnclosingMethod'')) p;
     (en, p) \<leftarrow> pool_opt intern_enclosing (enclosing_method c) p;
     (bm, p) \<leftarrow> pool_when (has_bootstraps p) (pool_utf8 (lit ''BootstrapMethods'')) p;
     (mp, p) \<leftarrow> pool_when (list_ex (\<lambda>m. param_names m \<noteq> []) (ce_methods c)) (pool_utf8 (lit ''MethodParameters'')) p;
     Some (\<lparr>n_inner_attr = ia, n_inner = is, n_enclosing_attr = ea, n_enclosing = en, n_bootstrap = bm,
            n_method_params = mp\<rparr>, p)
   }"

section \<open>Methods\<close>

record method_data =
  m_access :: u16
  m_name :: u16
  m_desc :: u16
  m_code :: "code_info option"
  m_annots :: "(u16 \<times> bytes) list"
  m_sig :: "u16 option"
  m_params :: "(u16 option \<times> u16) list"
  m_lvt :: "(u16 \<times> u16 \<times> u16) list"

text \<open>\<open>slot += n\<close> of a \<open>u16\<close>, checked.\<close>

definition add_slot :: "u16 \<Rightarrow> u16 \<Rightarrow> u16 option" where
  "add_slot at n = (if 0xFFFF < unat at + unat n then None else Some (at + n))"

text \<open>The loop over the parameters of one method's \<open>LocalVariableTable\<close>.\<close>

fun lvt_params :: "(str \<times> str option) list \<Rightarrow> u16 \<Rightarrow> pool \<Rightarrow> ((u16 \<times> u16 \<times> u16) list \<times> pool) option" where
  "lvt_params [] at p = Some ([], p)"
| "lvt_params ((desc, name) # ps) at p = do {
     (e, p) \<leftarrow> pool_opt (\<lambda>name p. do {
                  (n, p) \<leftarrow> pool_utf8 (encode_method_name name) p;
                  (d, p) \<leftarrow> pool_utf8 desc p;
                  Some ((n, d, at), p)
                }) name p;
     at \<leftarrow> add_slot at (if desc = lit ''J'' \<or> desc = lit ''D'' then 2 else 1);
     (es, p) \<leftarrow> lvt_params ps at p;
     Some ((case e of None \<Rightarrow> [] | Some e \<Rightarrow> [e]) @ es, p)
   }"

definition lvt_entries :: "class_emit \<Rightarrow> method_info \<Rightarrow> pool \<Rightarrow> ((u16 \<times> u16 \<times> u16) list \<times> pool) option" where
  "lvt_entries c m p =
     (let names = (if param_names m = [] then local_names m else param_names m) in
      if md_code m \<noteq> None \<and> names \<noteq> [] then do {
        (this, p) \<leftarrow> pool_when (md_access m AND ACC_STATIC = 0) (\<lambda>p. do {
                       (n, p) \<leftarrow> pool_utf8 (lit ''this'') p;
                       (d, p) \<leftarrow> pool_utf8 (lit ''L'' @ this_name c @ lit '';'') p;
                       Some ((n, d, 0), p)
                     }) p;
        ds \<leftarrow> param_descriptors (md_desc m);
        (es, p) \<leftarrow> lvt_params (zip ds names) (if this = None then 0 else 1) p;
        Some ((case this of None \<Rightarrow> [] | Some e \<Rightarrow> [e]) @ es, p)
      } else Some ([], p))"

definition bad_param_count :: "method_info \<Rightarrow> bool" where
  "bad_param_count m \<longleftrightarrow>
     length (param_names m) \<noteq> length (param_flags m) \<or>
     (param_names m \<noteq> [] \<and> length (param_names m) \<noteq> method_parameter_count (md_desc m))"

definition illegal_flags :: "method_info \<Rightarrow> bool" where
  "illegal_flags m \<longleftrightarrow>
     list_ex (\<lambda>flags. flags AND NOT (ACC_FINAL OR ACC_SYNTHETIC OR ACC_MANDATED) \<noteq> 0) (param_flags m)"

definition intern_param :: "str option \<times> u16 \<Rightarrow> pool \<Rightarrow> ((u16 option \<times> u16) \<times> pool) option" where
  "intern_param e p = do { (n, p) \<leftarrow> pool_opt pool_utf8 (fst e) p; Some ((n, snd e), p) }"

text \<open>The part of the loop over the methods before its checks.\<close>

definition method_front ::
  "method_info \<Rightarrow> pool \<Rightarrow> ((u16 \<times> u16 \<times> (u16 \<times> bytes) list \<times> u16 option) \<times> pool) option" where
  "method_front m p = do {
     (n, p) \<leftarrow> pool_utf8 (md_name m) p;
     (d, p) \<leftarrow> pool_utf8 (md_desc m) p;
     (annots, p) \<leftarrow> annotation_attrs (java_annots m) None p;
     (pannots, p) \<leftarrow> param_annotation_attrs (param_annots m) p;
     (sig, p) \<leftarrow> pool_opt pool_utf8 (md_signature m) p;
     Some ((n, d, annots @ pannots, sig), p)
   }"

definition intern_method :: "class_emit \<Rightarrow> method_info \<Rightarrow> pool \<Rightarrow> (method_data \<times> pool, io_error) result" where
  "intern_method c m p =
     rbind (unwrap (method_front m p)) (\<lambda>((n, d, annots, sig), p).
     if bad_param_count m then
       Err (InvalidData (lit ''MethodParameters count for '' @ md_name m @ md_desc m @
                         lit '' does not match its descriptor''))
     else if illegal_flags m then
       Err (InvalidData (lit ''illegal MethodParameters flags on '' @ md_name m @ md_desc m))
     else
       rbind (unwrap (pool_all intern_param (zip (param_names m) (param_flags m)) p)) (\<lambda>(params, p).
       if 255 < length params then
         Err (InvalidData (lit ''too many MethodParameters entries on '' @ md_name m @ md_desc m))
       else
         rbind (unwrap (lvt_entries c m p)) (\<lambda>(lvt, p).
         Ok (\<lparr>m_access = md_access m, m_name = n, m_desc = d, m_code = md_code m, m_annots = annots,
              m_sig = sig, m_params = params, m_lvt = lvt\<rparr>, p))))"

fun intern_methods :: "class_emit \<Rightarrow> method_info list \<Rightarrow> pool \<Rightarrow> (method_data list \<times> pool, io_error) result" where
  "intern_methods c [] p = Ok ([], p)"
| "intern_methods c (m # ms) p =
     rbind (intern_method c m p) (\<lambda>(d, p).
     rbind (intern_methods c ms p) (\<lambda>(ds, p). Ok (d # ds, p)))"

section \<open>Writing\<close>

text \<open>\<open>u16::from(b)\<close>\<close>

definition u16_from :: "bool \<Rightarrow> u16" where
  "u16_from b = (if b then 1 else 0)"

text \<open>An attribute whose body is one index, written where both its name and the index were interned.\<close>

definition index_attr :: "u16 option \<Rightarrow> u16 option \<Rightarrow> bytes" where
  "index_attr name i = (case (name, i) of (Some a, Some s) \<Rightarrow> be16 a @ be32 2 @ be16 s | _ \<Rightarrow> [])"

definition write_field :: "head_data \<Rightarrow> field_data \<Rightarrow> bytes" where
  "write_field h f =
     be16 (f_access f) @ be16 (f_name f) @ be16 (f_desc f) @
     be16 (u16_from (f_sig f \<noteq> None) + u16_from (f_const f \<noteq> None) + of_nat (length (f_annots f))) @
     index_attr (h_const_attr h) (f_const f) @
     index_attr (h_sig_attr h) (f_sig f) @
     write_attrs (f_annots f)"

definition write_exception :: "exception_entry \<Rightarrow> bytes" where
  "write_exception e = be16 (start_pc e) @ be16 (end_pc e) @ be16 (handler_pc e) @ be16 (catch_type e)"

definition code_body :: "name_data \<Rightarrow> code_info \<Rightarrow> (u16 \<times> u16 \<times> u16) list \<Rightarrow> bytes" where
  "code_body n c lvt =
     (let lvt_attr = (if lvt = [] then None else n_lvt n) in
      be16 (max_stack c) @ be16 (max_locals c) @ be32 (of_nat (length (code_bytes c))) @ code_bytes c @
      be16 (of_nat (length (exceptions c))) @ concat (map write_exception (exceptions c)) @
      be16 (u16_from (stack_map c \<noteq> None) + u16_from (lvt_attr \<noteq> None)) @
      (case stack_map c of None \<Rightarrow> [] | Some sm \<Rightarrow> write_attr (n_stack_map n) sm) @
      (case lvt_attr of
         None \<Rightarrow> []
       | Some a \<Rightarrow>
           be16 a @ be32 (of_nat (2 + length lvt * 10)) @ be16 (of_nat (length lvt)) @
           concat (map (\<lambda>(name, desc, at).
             be16 0 @ be16 (of_nat (length (code_bytes c))) @ be16 name @ be16 desc @ be16 at) lvt)))"

text \<open>\<open>method_params_attr.expect(..)\<close> of a method that has parameter names cannot panic: the attribute's name was
  interned because of it.  \<open>write_method_params\<close> gives \<open>None\<close> if it did.\<close>

definition write_method_params :: "u16 option \<Rightarrow> (u16 option \<times> u16) list \<Rightarrow> bytes option" where
  "write_method_params attr params =
     (if params = [] then Some []
      else do {
        a \<leftarrow> attr;
        Some (be16 a @ be32 (of_nat (1 + length params * 4)) @ [of_nat (length params)] @
              concat (map (\<lambda>(name, flags). be16 (case name of None \<Rightarrow> 0 | Some n \<Rightarrow> n) @ be16 flags) params))
      })"

definition write_method :: "head_data \<Rightarrow> name_data \<Rightarrow> nest_data \<Rightarrow> method_data \<Rightarrow> bytes option" where
  "write_method h n t m = do {
     params \<leftarrow> write_method_params (n_method_params t) (m_params m);
     Some (be16 (m_access m) @ be16 (m_name m) @ be16 (m_desc m) @
           be16 (u16_from (m_code m \<noteq> None) + of_nat (length (m_annots m)) + u16_from (m_sig m \<noteq> None) +
                 u16_from (m_params m \<noteq> [])) @
           (case m_code m of None \<Rightarrow> [] | Some c \<Rightarrow> write_attr (n_code n) (code_body n c (m_lvt m))) @
           write_attrs (m_annots m) @
           index_attr (h_sig_attr h) (m_sig m) @
           params)
   }"

fun write_methods :: "head_data \<Rightarrow> name_data \<Rightarrow> nest_data \<Rightarrow> method_data list \<Rightarrow> bytes option" where
  "write_methods h n t [] = Some []"
| "write_methods h n t (m # ms) = do {
     b \<leftarrow> write_method h n t m;
     bs \<leftarrow> write_methods h n t ms;
     Some (b @ bs)
   }"

definition write_class_attrs ::
  "head_data \<Rightarrow> name_data \<Rightarrow> nest_data \<Rightarrow> (u16 \<times> bytes) list \<Rightarrow> pool \<Rightarrow> bytes" where
  "write_class_attrs h n t class_annots p =
     be16 (1 + u16_from (h_class_sig h \<noteq> None) + of_nat (length class_annots) +
           u16_from (n_scala_sig n \<noteq> None) + u16_from (n_scala_raw n \<noteq> None) +
           u16_from (n_inner_attr t \<noteq> None) + u16_from (n_bootstrap t \<noteq> None) +
           u16_from (n_enclosing_attr t \<noteq> None)) @
     index_attr (h_sig_attr h) (h_class_sig h) @
     (case n_inner_attr t of
        None \<Rightarrow> []
      | Some ic \<Rightarrow>
          be16 ic @ be32 (of_nat (2 + length (n_inner t) * 8)) @ be16 (of_nat (length (n_inner t))) @
          concat (map (\<lambda>(inner, outer, name, flags). be16 inner @ be16 outer @ be16 name @ be16 flags) (n_inner t))) @
     (case n_bootstrap t of
        None \<Rightarrow> []
      | Some bm \<Rightarrow> write_attr bm (bootstrap_body p)) @
     (case (n_enclosing_attr t, n_enclosing t) of
        (Some em, Some (c, nt)) \<Rightarrow> be16 em @ be32 4 @ be16 c @ be16 nt
      | _ \<Rightarrow> []) @
     (case n_scala_raw n of None \<Rightarrow> [] | Some raw \<Rightarrow> be16 raw @ be32 0) @
     (case n_scala_sig n of None \<Rightarrow> [] | Some ss \<Rightarrow> write_attr ss [5, 2, 0]) @
     write_attrs class_annots @
     be16 (n_src n) @ be32 2 @ be16 (n_src_name n)"

definition write_class ::
  "class_emit \<Rightarrow> head_data \<Rightarrow> name_data \<Rightarrow> nest_data \<Rightarrow> (u16 \<times> bytes) list \<Rightarrow> method_data list \<Rightarrow> pool \<Rightarrow> bytes option" where
  "write_class c h n t class_annots ms p = do {
     methods \<leftarrow> write_methods h n t ms;
     Some (be32 0xCAFEBABE @ be16 0 @ be16 52 @ write_header p @
           be16 (ce_access c) @ be16 (h_this h) @ be16 (h_super h) @
           be16 (of_nat (length (h_ifaces h))) @ concat (map be16 (h_ifaces h)) @
           be16 (of_nat (length (h_fields h))) @ concat (map (write_field h) (h_fields h)) @
           be16 (of_nat (length ms)) @ methods @
           write_class_attrs h n t class_annots p)
   }"

definition write_with_pool :: "class_emit \<Rightarrow> pool \<Rightarrow> (bytes, io_error) result" where
  "write_with_pool c p =
     rbind (unwrap (intern_head c p)) (\<lambda>(h, p).
     rbind (unwrap (intern_names c p)) (\<lambda>(n, p).
     rbind (unwrap (intern_signature c p)) (\<lambda>(s, p).
     rbind (unwrap (intern_nesting c p)) (\<lambda>(t, p).
     rbind (unwrap (annotation_attrs (class_annotations c) (scala_sig_annot c s) p)) (\<lambda>(class_annots, p).
     rbind (intern_methods c (ce_methods c) p) (\<lambda>(ms, p).
     unwrap (write_class c h n t class_annots ms p)))))))"

end
