(* ===== verification/ClassWriterOps.thy ===== *)
theory ClassWriterOps
  imports ClassWriter
begin

text \<open>
  Every interning function of the class writer keeps the contract of a pool operation: what was
  interned stays at its index, and the bytes stay the bytes of a readable pool.
\<close>

lemmas [pool_steps] = utf8.pool_operation_axioms pclass.pool_operation_axioms pinteger.pool_operation_axioms
  pfloat.pool_operation_axioms plong.pool_operation_axioms pdouble.pool_operation_axioms pnat.pool_operation_axioms

lemma pool_fail [pool_steps]: "pool_operation (\<lambda>p. None)"
  by unfold_locales simp_all

lemma pool_none [pool_steps]: "(\<And>x. pool_operation (k x)) \<Longrightarrow> pool_operation (\<lambda>p. m \<bind> (\<lambda>x. k x p))"
  by (cases m) (auto intro: pool_fail)

lemma pool_if [pool_steps]:
  "(b \<Longrightarrow> pool_operation f) \<Longrightarrow> (\<not> b \<Longrightarrow> pool_operation g) \<Longrightarrow> pool_operation (\<lambda>p. if b then f p else g p)"
  by (cases b) simp_all

lemma pool_when_pool [pool_steps]: "pool_operation op \<Longrightarrow> pool_operation (\<lambda>p. pool_when (b p) op p)"
  by unfold_locales (auto simp: pool_when_Some pool_operation.grows intro: exI [of _ "[]"] dest: pool_operation.good)

lemma pool_or_zero_operation [pool_steps]: "(\<And>x. pool_operation (op x)) \<Longrightarrow> pool_operation (pool_or_zero op m)"
  by (cases m) (auto simp: pool_or_zero_def [abs_def] intro: pool_steps)

lemma encode_operations:
  "pool_operation (encode_annotation a)" "pool_operation (encode_element_value v)"
proof (induction a and v)
  case (Annotation desc visible elems)
  have "pool_operation (encode_elem e)" if "e \<in> set elems" for e
  proof -
    obtain name v where e: "e = (name, v)" by (cases e)
    have "encode_elem e = (\<lambda>p. pool_utf8 name p \<bind> (\<lambda>(n, p). encode_element_value v p \<bind> (\<lambda>(b, p). Some (be16 n @ b, p))))"
      by (rule ext) (simp add: e)
    moreover have "pool_operation (encode_element_value v)" using Annotation [OF that, of v] by (simp add: e)
    ultimately show ?thesis by (auto intro!: pool_steps)
  qed
  moreover have "encode_annotation (Annotation desc visible elems) = (\<lambda>p. pool_utf8 desc p \<bind> (\<lambda>(d, p).
      pool_all encode_elem elems p \<bind> (\<lambda>(es, p). Some (be16 d @ be16 (of_nat (length elems)) @ concat es, p))))"
    by (rule ext) simp
  ultimately show ?case by (auto intro!: pool_steps)
next
  case (EV_Annot a)
  moreover have "encode_element_value (EV_Annot a) = (\<lambda>p. encode_annotation a p \<bind> (\<lambda>(b, p). Some (byte CHR ''@'' # b, p)))"
    by (rule ext) simp
  ultimately show ?case by (auto intro!: pool_steps)
next
  case (EV_Array items)
  have "encode_element_value (EV_Array items) = (\<lambda>p. pool_all encode_element_value items p \<bind> (\<lambda>(es, p).
      Some (byte CHR ''['' # be16 (of_nat (length items)) @ concat es, p)))"
    by (rule ext) simp
  with EV_Array show ?case by (auto intro!: pool_steps)
qed (simp_all only: encode_element_value.simps [abs_def], auto intro!: pool_steps)

interpretation encode_annotation: pool_operation "encode_annotation a" for a
  by (rule encode_operations)

interpretation encode_element_value: pool_operation "encode_element_value v" for v
  by (rule encode_operations)

lemma visible_attr_operation [pool_steps]: "pool_operation (visible_attr visible annots extra)"
  unfolding visible_attr_def [abs_def] Let_def by (intro pool_steps encode_operations)

lemma annotation_attrs_operation [pool_steps]: "pool_operation (annotation_attrs annots extra)"
  unfolding annotation_attrs_def [abs_def] by (intro pool_steps)

lemma param_annotation_attrs_operation [pool_steps]: "pool_operation (param_annotation_attrs params)"
proof -
  have "pool_operation (param_chosen visible annots)" for visible annots
    unfolding param_chosen_def [abs_def] Let_def by (intro pool_steps encode_operations)
  then have "pool_operation (param_visible_attr visible params)" for visible
    unfolding param_visible_attr_def [abs_def] by (intro pool_steps)
  then show ?thesis unfolding param_annotation_attrs_def [abs_def] by (intro pool_steps)
qed

lemma intern_field_operation [pool_steps]: "pool_operation (intern_field c f)"
proof -
  have "pool_operation (\<lambda>p. case Mapping.lookup (field_annotations c) (fd_name f) of
      Some a \<Rightarrow> annotation_attrs a None p | None \<Rightarrow> Some ([], p))"
    by (cases "Mapping.lookup (field_annotations c) (fd_name f)") (auto intro: pool_steps)
  then show ?thesis unfolding intern_field_def [abs_def] by (intro pool_steps)
qed

interpretation intern_head: pool_operation "intern_head c" for c
  unfolding intern_head_def [abs_def] by (intro pool_steps)

interpretation intern_names: pool_operation "intern_names c" for c
  unfolding intern_names_def [abs_def] by (intro pool_steps)

interpretation intern_signature: pool_operation "intern_signature c" for c
  unfolding intern_signature_def [abs_def] by (intro pool_steps)

lemma intern_inner_operation [pool_steps]: "pool_operation (intern_inner e)"
  unfolding intern_inner_def [abs_def] by (intro pool_steps)

lemma intern_enclosing_operation [pool_steps]: "pool_operation (intern_enclosing e)"
proof -
  have "pool_operation (\<lambda>p. (\<lambda>(n, d). name_and_type (encode_method_name n) d) e p)" for e
    by (cases e) (simp add: name_and_type_def pnat.pool_operation_axioms)
  then show ?thesis unfolding intern_enclosing_def [abs_def] by (intro pool_steps)
qed

interpretation intern_nesting: pool_operation "intern_nesting c" for c
  unfolding intern_nesting_def [abs_def] by (intro pool_steps)

text \<open>The methods are interned in the result type of the writer: the contract is that of its \<open>Ok\<close> part.\<close>

definition res_ok :: "('a, 'e) result \<Rightarrow> 'a option" where
  "res_ok r = (case r of Ok x \<Rightarrow> Some x | _ \<Rightarrow> None)"

lemma res_ok_simps [simp]: "res_ok (Ok x) = Some x" "res_ok (Err e) = None" "res_ok Panic = None"
  "res_ok (unwrap m) = m"
  by (auto simp: res_ok_def unwrap_def split: option.split)

lemma res_ok_bind: "res_ok (rbind m k) = res_ok m \<bind> (\<lambda>x. res_ok (k x))"
  by (cases m) simp_all

lemma res_ok_Some: "res_ok r = Some x \<longleftrightarrow> r = Ok x"
  by (cases r) simp_all

lemma lvt_params_operation [pool_steps]: "pool_operation (lvt_params ps k)"
proof (induction ps arbitrary: k)
  case Nil
  have "lvt_params [] k = (\<lambda>p. Some ([], p))" by (rule ext) simp
  then show ?case by (simp add: pool_return)
next
  case (Cons e ps)
  obtain desc name where e: "e = (desc, name)" by (cases e)
  have "lvt_params ((desc, name) # ps) k = (\<lambda>p.
      pool_opt (\<lambda>name p. pool_utf8 (encode_method_name name) p \<bind> (\<lambda>(n, p).
        pool_utf8 desc p \<bind> (\<lambda>(d, p). Some ((n, d, k), p)))) name p \<bind> (\<lambda>(e, p).
      add_slot k (if desc = lit ''J'' \<or> desc = lit ''D'' then 2 else 1) \<bind> (\<lambda>k.
      lvt_params ps k p \<bind> (\<lambda>(es, p).
      Some ((case e of None \<Rightarrow> [] | Some e \<Rightarrow> [e]) @ es, p)))))"
    by (rule ext) simp
  then show ?case unfolding e by (simp only:) (intro pool_steps Cons.IH)
qed

lemma lvt_entries_operation [pool_steps]: "pool_operation (lvt_entries c m)"
  unfolding lvt_entries_def [abs_def] Let_def by (intro pool_steps)

lemma intern_param_operation [pool_steps]: "pool_operation (intern_param e)"
  unfolding intern_param_def [abs_def] by (intro pool_steps)

lemma method_front_operation [pool_steps]: "pool_operation (method_front m)"
  unfolding method_front_def [abs_def] by (intro pool_steps)

lemma res_ok_if [simp]: "res_ok (if b then x else y) = (if b then res_ok x else res_ok y)"
  by simp

lemma intern_method_operation: "pool_operation (\<lambda>p. res_ok (intern_method c m p))"
proof -
  have "(\<lambda>p. res_ok (intern_method c m p)) = (\<lambda>p.
      method_front m p \<bind> (\<lambda>(x, p).
      if bad_param_count m then None else if illegal_flags m then None else
      pool_all intern_param (zip (param_names m) (param_flags m)) p \<bind> (\<lambda>(params, p).
      if 255 < length params then None else
      lvt_entries c m p \<bind> (\<lambda>(lvt, p).
      Some (\<lparr>m_access = md_access m, m_name = fst x, m_desc = fst (snd x), m_code = md_code m,
             m_annots = fst (snd (snd x)), m_sig = snd (snd (snd x)), m_params = params, m_lvt = lvt\<rparr>, p)))))"
    by (rule ext) (simp add: intern_method_def res_ok_bind case_prod_unfold if_distrib [of res_ok] cong: if_cong)
  moreover have "pool_operation \<dots>" by (intro pool_steps)
  ultimately show ?thesis by simp
qed

interpretation intern_methods: pool_operation "\<lambda>p. res_ok (intern_methods c ms p)" for c ms
proof (induction ms)
  case Nil
  then show ?case by (simp add: pool_return)
next
  case (Cons m ms)
  have "(\<lambda>p. res_ok (intern_methods c (m # ms) p)) = (\<lambda>p. res_ok (intern_method c m p) \<bind> (\<lambda>(d, p).
      res_ok (intern_methods c ms p) \<bind> (\<lambda>(ds, p). Some (d # ds, p))))"
    by (rule ext) (simp add: res_ok_bind case_prod_unfold)
  then show ?case by (simp only:) (intro pool_steps intern_method_operation Cons.IH)
qed

text \<open>What was interned on the way is still there at the end.\<close>

lemma texts_kept: "pool_grows p q \<Longrightarrow> utf8s p s = Some i \<Longrightarrow> utf8s q s = Some i"
  by (auto simp: pool_grows_def map_le_def dom_def)

lemma interned_text: "pool_utf8 s p = Some (i, p') \<Longrightarrow> pool_grows p' q \<Longrightarrow> utf8s q s = Some i"
  using pool_utf8_table texts_kept by blast

end
