(* ===== verification/ClassWriterRead.thy ===== *)
theory ClassWriterRead
  imports ClassWriterOps
begin

text \<open>
  What the class file reader does on the bytes the writer wrote.  \<open>cursor_at pre rest\<close> is a cursor between
  \<open>pre\<close> and \<open>rest\<close>: reading the bytes of a value moves them from \<open>rest\<close> to \<open>pre\<close>.
\<close>

section \<open>A cursor between two parts of its input\<close>

definition cursor_at :: "bytes \<Rightarrow> bytes \<Rightarrow> cursor" where
  "cursor_at pre rest = \<lparr>cb = pre @ rest, ci = length pre\<rparr>"

named_theorems reads \<open>reading the bytes of a value\<close>

lemma cursor_new_at: "cursor_new bs = cursor_at [] bs"
  by (simp add: cursor_new_def cursor_at_def)

lemma u1_reads [reads]: "u1 (cursor_at pre (b # rest)) = Some (b, cursor_at (pre @ [b]) rest)"
  by (simp add: cursor_at_def u1_at [of _ pre b rest])

lemma u2_reads [reads]: "u2 (cursor_at pre (be16 v @ rest)) = Some (v, cursor_at (pre @ be16 v) rest)"
  by (simp add: cursor_at_def u2_be16 [of _ pre v rest])

lemma u4_be32: "push_bit 16 (ucast (ucast (drop_bit 16 v) :: u16)) OR ucast (ucast v :: u16) = (v :: u32)"
proof (rule bit_word_eqI)
  fix n assume "n < LENGTH(32)"
  then show "bit (push_bit 16 (ucast (ucast (drop_bit 16 v) :: u16)) OR ucast (ucast v :: u16) :: u32) n = bit v n"
    by (auto simp: bit_simps)
qed

lemma u4_reads [reads]: "u4 (cursor_at pre (be32 v @ rest)) = Some (v, cursor_at (pre @ be32 v) rest)"
  by (simp add: u4_def be32_def u2_reads u4_be32)

lemma take_bytes_reads [reads]: "n = length d \<Longrightarrow> take_bytes n (cursor_at pre (d @ rest)) = Some (d, cursor_at (pre @ d) rest)"
  by (simp add: cursor_at_def take_bytes_at [of _ pre d rest])

lemma take_bytes_end [reads]: "n = length d \<Longrightarrow> take_bytes n (cursor_at pre d) = Some (d, cursor_at (pre @ d) [])"
  using take_bytes_reads [of n d pre "[]"] by simp

lemma small_of_nat: "n < 65536 \<Longrightarrow> unat (of_nat n :: u16) = n" "n < 2 ^ 32 \<Longrightarrow> unat (of_nat n :: u32) = n"
  by (simp_all add: unat_of_nat take_bit_nat_eq_self)

section \<open>Attributes and members\<close>

definition short_attrs :: "(u16 \<times> bytes) list \<Rightarrow> bool" where
  "short_attrs attrs \<longleftrightarrow> list_all (\<lambda>(name, body). length body < 2 ^ 32) attrs"

lemma write_attrs_simps [simp]: "write_attrs [] = []" "write_attrs ((name, body) # as) = write_attr name body @ write_attrs as"
  "write_attrs (as @ bs) = write_attrs as @ write_attrs bs"
  by (simp_all add: write_attrs_def)

lemma skip_attr_reads [reads]:
  "length body < 2 ^ 32 \<Longrightarrow>
     pass_attr (cursor_at pre (write_attr name body @ rest)) = Some ((), cursor_at (pre @ write_attr name body) rest)"
  by (simp add: pass_attr_def write_attr_def reads small_of_nat)

lemma skip_attr_times:
  "short_attrs attrs \<Longrightarrow>
     read_times (length attrs) pass_attr (cursor_at pre (write_attrs attrs @ rest)) = Some (cursor_at (pre @ write_attrs attrs) rest)"
  by (induction attrs arbitrary: pre) (auto simp: short_attrs_def reads)

lemma skip_attrs_reads [reads]:
  "short_attrs attrs \<Longrightarrow> length attrs < 65536 \<Longrightarrow>
     pass_attrs (cursor_at pre (be16 (of_nat (length attrs)) @ write_attrs attrs @ rest)) =
       Some ((), cursor_at (pre @ be16 (of_nat (length attrs)) @ write_attrs attrs) rest)"
  by (simp add: pass_attrs_def reads small_of_nat skip_attr_times)

lemma u2_times:
  "read_times (length vs) u2 (cursor_at pre (concat (map be16 vs) @ rest)) = Some (cursor_at (pre @ concat (map be16 vs)) rest)"
  by (induction vs arbitrary: pre) (auto simp: reads)

text \<open>The bytes of a field or a method: three indices, and a count that is the count of its attributes.\<close>

definition member_bytes :: "bytes \<Rightarrow> bool" where
  "member_bytes b \<longleftrightarrow> (\<exists>a n d attrs. b = be16 a @ be16 n @ be16 d @ be16 (of_nat (length attrs)) @ write_attrs attrs \<and>
     short_attrs attrs \<and> length attrs < 65536)"

lemma skip_members_reads:
  "list_all member_bytes bs \<Longrightarrow> n = length bs \<Longrightarrow>
     members_passed part attrs n (cursor_at pre (concat bs @ rest)) = Ok (cursor_at (pre @ concat bs) rest)"
proof (induction bs arbitrary: n pre)
  case Nil
  then show ?case by simp
next
  case (Cons b bs)
  obtain a m d as where b: "b = be16 a @ be16 m @ be16 d @ be16 (of_nat (length as)) @ write_attrs as"
    "short_attrs as" "length as < 65536"
    using Cons.prems by (auto simp: member_bytes_def)
  show ?case using Cons.IH [of "length bs" "pre @ b"] Cons.prems b(2,3) by (simp add: b(1) reads)
qed

section \<open>Element values\<close>

text \<open>Text of the Basic Multilingual Plane: what the modified UTF-8 of the pool can carry.\<close>

definition bmp :: "str \<Rightarrow> bool" where
  "bmp s \<longleftrightarrow> list_all (\<lambda>c. is_scalar c \<and> c < 0x10000) s"

text \<open>The text \<open>read_value\<close> collects, and the values whose bytes it can read.\<close>

fun element_text :: "ElementValue \<Rightarrow> str" and annotation_text :: "annotation \<Rightarrow> str" where
  "element_text (EV_Str s) = s"
| "element_text (EV_Annot a) = annotation_text a"
| "element_text (EV_Array items) = concat (map element_text items)"
| "element_text v = []"
| "annotation_text (Annotation desc visible elems) = concat (map (\<lambda>e. element_text (snd e)) elems)"

fun readable_value :: "ElementValue \<Rightarrow> bool" and readable_annotation :: "annotation \<Rightarrow> bool" where
  "readable_value (EV_Int tag n) \<longleftrightarrow> tag \<in> {byte CHR ''B'', byte CHR ''C'', byte CHR ''I'', byte CHR ''S'', byte CHR ''Z''}"
| "readable_value (EV_Str s) \<longleftrightarrow> bmp s"
| "readable_value (EV_Annot a) \<longleftrightarrow> readable_annotation a"
| "readable_value (EV_Array items) \<longleftrightarrow> length items < 65536 \<and> list_all readable_value items"
| "readable_value v \<longleftrightarrow> True"
| "readable_annotation (Annotation desc visible elems) \<longleftrightarrow> length elems < 65536 \<and> list_all (\<lambda>e. readable_value (snd e)) elems"

text \<open>A constant pool that has the texts of a pool.\<close>

definition pool_read :: "pool \<Rightarrow> cpool \<Rightarrow> bool" where
  "pool_read q cp \<longleftrightarrow> (\<forall>s i. utf8s q s = Some i \<longrightarrow> bmp s \<longrightarrow> cp_utf8 cp i = Some s)"

definition value_reads :: "nat \<Rightarrow> cpool \<Rightarrow> bytes \<Rightarrow> str \<Rightarrow> bool" where
  "value_reads f cp d txt \<longleftrightarrow>
     (\<forall>pre rest sink. read_value f cp (cursor_at pre (d @ rest)) sink = Some (sink @ txt, cursor_at (pre @ d) rest))"

lemma pool_all_steps:
  assumes "pool_all op xs p = Some (ys, p')" "pool_grows p' q" "\<And>x. x \<in> set xs \<Longrightarrow> pool_operation (op x)"
  shows "list_all2 (\<lambda>x y. \<exists>r r'. op x r = Some (y, r') \<and> pool_grows r' q) xs ys"
  using assms
proof (induction xs arbitrary: p ys)
  case Nil
  then show ?case by simp
next
  case (Cons x xs)
  then obtain y r zs where s: "op x p = Some (y, r)" "pool_all op xs r = Some (zs, p')" "ys = y # zs"
    by (auto simp: Option.bind_eq_Some_conv)
  have "pool_grows r p'" using s(2) Cons.prems(3) pool_all_operation [of xs op] by (auto dest: pool_operation.grows)
  then have "pool_grows r q" using Cons.prems(2) by (rule pool_grows_trans)
  then show ?case using s Cons by auto
qed

text \<open>The loop over the values of an array, or over the pairs of an annotation.\<close>

lemma read_values_reads:
  assumes "list_all2 (\<lambda>x b. \<exists>n b'. b = (if named then be16 n else []) @ b' \<and> value_reads f cp b' (txt x)) xs bs"
  shows "read_values f named (length xs) cp (cursor_at pre (concat bs @ rest)) sink =
    Some (sink @ concat (map txt xs), cursor_at (pre @ concat bs) rest)"
  using assms
proof (induction xs bs arbitrary: pre sink rule: list_all2_induct)
  case Nil
  then show ?case by simp
next
  case (Cons x xs b bs)
  then obtain n b' where b: "b = (if named then be16 n else []) @ b'" "value_reads f cp b' (txt x)" by auto
  then show ?case using Cons.IH [of "pre @ b" "sink @ txt x"] by (auto simp: reads value_reads_def)
qed

definition elem_reads :: "cpool \<Rightarrow> str \<times> ElementValue \<Rightarrow> bytes \<Rightarrow> bool" where
  "elem_reads cp e b \<longleftrightarrow>
     (\<exists>n b'. b = be16 n @ b' \<and> (\<forall>f. size (snd e) < f \<longrightarrow> value_reads f cp b' (element_text (snd e))))"

definition annotation_reads :: "pool \<Rightarrow> cpool \<Rightarrow> annotation \<Rightarrow> bytes \<Rightarrow> bool" where
  "annotation_reads q cp a d \<longleftrightarrow>
     (\<exists>i bs. d = be16 i @ be16 (of_nat (length (an_elems a))) @ concat bs \<and> utf8s q (an_desc a) = Some i \<and>
       list_all2 (elem_reads cp) (an_elems a) bs)"

lemma fuel_Suc: "n < f \<Longrightarrow> \<exists>g. f = Suc g \<and> n \<le> g"
  by (cases f) auto

lemma elems_read:
  assumes "list_all2 (elem_reads cp) es bs" "\<And>e. e \<in> set es \<Longrightarrow> size (snd e) < f"
  shows "read_values f True (length es) cp (cursor_at pre (concat bs @ rest)) sink =
    Some (sink @ concat (map (\<lambda>e. element_text (snd e)) es), cursor_at (pre @ concat bs) rest)"
proof (rule read_values_reads)
  show "list_all2 (\<lambda>e b. \<exists>n b'. b = (if True then be16 n else []) @ b' \<and> value_reads f cp b' (element_text (snd e))) es bs"
    using assms(1) by (rule list.rel_mono_strong) (use assms(2) in \<open>auto simp: elem_reads_def\<close>)
qed

lemma encode_elem_operation: "pool_operation (encode_elem e)"
proof -
  obtain name v where e: "e = (name, v)" by (cases e)
  have "encode_elem e = (\<lambda>p. pool_utf8 name p \<bind> (\<lambda>(n, p). encode_element_value v p \<bind> (\<lambda>(b, p). Some (be16 n @ b, p))))"
    by (rule ext) (simp add: e)
  then show ?thesis by (auto intro!: pool_steps encode_operations)
qed

lemma encode_annotation_reads:
  assumes cp: "pool_read q cp"
  shows "encode_annotation a p = Some (d, p') \<Longrightarrow> pool_grows p' q \<Longrightarrow> readable_annotation a \<Longrightarrow> annotation_reads q cp a d"
    and "encode_element_value v p = Some (d, p') \<Longrightarrow> pool_grows p' q \<Longrightarrow> readable_value v \<Longrightarrow> size v < f \<Longrightarrow>
      value_reads f cp d (element_text v)"
proof (induction a and v arbitrary: p d p' and p d p' f)
  case (Annotation desc visible elems)
  obtain i r bs where s: "pool_utf8 desc p = Some (i, r)" "pool_all encode_elem elems r = Some (bs, p')"
    "d = be16 i @ be16 (of_nat (length elems)) @ concat bs"
    using Annotation.prems(1) by (auto simp: Option.bind_eq_Some_conv)
  have "pool_grows r p'" using pool_operation.grows [OF pool_all_operation s(2)] encode_elem_operation by blast
  then have i: "utf8s q desc = Some i" using s(1) Annotation.prems(2) interned_text pool_grows_trans by blast
  have "list_all2 (elem_reads cp) elems bs"
    using pool_all_steps [OF s(2) Annotation.prems(2) encode_elem_operation]
  proof (rule list.rel_mono_strong)
    fix e b
    assume e: "e \<in> set elems" and "\<exists>r r'. encode_elem e r = Some (b, r') \<and> pool_grows r' q"
    then obtain r r' where r: "encode_elem e r = Some (b, r')" "pool_grows r' q" by blast
    then obtain n r1 b' where b: "encode_element_value (snd e) r1 = Some (b', r')" "b = be16 n @ b'"
      by (cases e) (auto simp: Option.bind_eq_Some_conv)
    have "readable_value (snd e)" using e Annotation.prems(3) by (auto simp: list_all_iff)
    then show "elem_reads cp e b"
      using Annotation.IH [OF e, of "snd e", OF _ b(1) r(2)] b(2) by (auto simp: elem_reads_def snds.simps)
  qed
  then show ?case using s(3) i by (auto simp: annotation_reads_def)
next
  case (EV_Annot a)
  obtain g where f: "f = Suc g" "size (EV_Annot a) \<le> g" using fuel_Suc [OF EV_Annot.prems(4)] by auto
  obtain b where b: "encode_annotation a p = Some (b, p')" "d = byte CHR ''@'' # b"
    using EV_Annot.prems(1) by (auto simp: Option.bind_eq_Some_conv)
  obtain desc vis es where a: "a = Annotation desc vis es" by (cases a)
  obtain i bs where r: "b = be16 i @ be16 (of_nat (length es)) @ concat bs" "list_all2 (elem_reads cp) es bs"
    using EV_Annot.IH [OF b(1) EV_Annot.prems(2)] EV_Annot.prems(3) by (auto simp: annotation_reads_def a)
  have l: "length es < 65536" using EV_Annot.prems(3) by (simp add: a)
  have "size (snd e) < g" if "e \<in> set es" for e
    using elem_size [of "fst e" "snd e" es] that f(2) by (simp add: a)
  then show ?case
    using elems_read [OF r(2), of g] by (simp add: value_reads_def b(2) r(1) f(1) a reads small_of_nat l)
next
  case (EV_Array items)
  obtain g where f: "f = Suc g" "size (EV_Array items) \<le> g" using fuel_Suc [OF EV_Array.prems(4)] by auto
  obtain bs where b: "pool_all encode_element_value items p = Some (bs, p')"
    "d = byte CHR ''['' # be16 (of_nat (length items)) @ concat bs"
    using EV_Array.prems(1) by (auto simp: Option.bind_eq_Some_conv)
  have l: "length items < 65536" using EV_Array.prems(3) by simp
  have "list_all2 (\<lambda>v b. \<exists>n b'. b = (if False then be16 n else []) @ b' \<and> value_reads g cp b' (element_text v)) items bs"
    using pool_all_steps [OF b(1) EV_Array.prems(2) encode_operations(2)]
  proof (rule list.rel_mono_strong)
    fix v b
    assume v: "v \<in> set items" and "\<exists>r r'. encode_element_value v r = Some (b, r') \<and> pool_grows r' q"
    then obtain r r' where r: "encode_element_value v r = Some (b, r')" "pool_grows r' q" by blast
    have "readable_value v" using v EV_Array.prems(3) by (auto simp: list_all_iff)
    moreover have "size v < g" using item_size [OF v] f(2) by simp
    ultimately show "\<exists>n b'. b = (if False then be16 n else []) @ b' \<and> value_reads g cp b' (element_text v)"
      using EV_Array.IH [OF v r] by auto
  qed
  from read_values_reads [OF this] show ?case
    by (simp add: value_reads_def b(2) f(1) reads small_of_nat l)
next
  case (EV_Str s)
  obtain g where f: "f = Suc g" using fuel_Suc [OF EV_Str.prems(4)] by auto
  obtain i where i: "pool_utf8 s p = Some (i, p')" "d = byte CHR ''s'' # be16 i"
    using EV_Str.prems(1) by (auto simp: Option.bind_eq_Some_conv)
  have "cp_utf8 cp i = Some s" using interned_text [OF i(1) EV_Str.prems(2)] EV_Str.prems(3) cp by (simp add: pool_read_def)
  then show ?case by (simp add: value_reads_def i(2) f reads)
qed (auto simp: value_reads_def reads Option.bind_eq_Some_conv dest!: fuel_Suc)

section \<open>The signature annotation\<close>

lemma element_value_reads:
  assumes "\<And>f. n < f \<Longrightarrow> value_reads f cp b txt"
  shows "element_value cp (cursor_at pre (b @ rest)) sink = Some (sink @ txt, cursor_at (pre @ b) rest)"
proof -
  let ?c = "cursor_at pre (b @ rest)"
  have "element_value cp ?c sink = read_value (Suc (bytes_left ?c + n)) cp ?c sink"
    unfolding element_value_def by (rule value_fuel) (simp_all add: bytes_left_def)
  also have "\<dots> = Some (sink @ txt, cursor_at (pre @ b) rest)"
    using assms [of "Suc (bytes_left ?c + n)"] by (simp add: value_reads_def)
  finally show ?thesis .
qed

lemma pairs_skip:
  "list_all2 (elem_reads cp) es bs \<Longrightarrow>
     pairs_text (length es) False cp None (cursor_at pre (concat bs @ rest)) = Some (None, cursor_at (pre @ concat bs) rest)"
proof (induction es bs arbitrary: pre rule: list_all2_induct)
  case Nil
  then show ?case by simp
next
  case (Cons e es b bs)
  then obtain n b' where b: "b = be16 n @ b'" "\<And>f. size (snd e) < f \<Longrightarrow> value_reads f cp b' (element_text (snd e))"
    by (auto simp: elem_reads_def)
  show ?case using Cons.IH [of "pre @ b"] element_value_reads [OF b(2)] by (simp add: b(1) reads)
qed

definition signature_desc :: "str \<Rightarrow> bool" where
  "signature_desc d \<longleftrightarrow> str_contains d (lit ''ScalaSignature'') \<or> str_contains d (lit ''ScalaLongSignature'')"

text \<open>A Java annotation the reader can step over.\<close>

definition plain_annotation :: "annotation \<Rightarrow> bool" where
  "plain_annotation a \<longleftrightarrow> readable_annotation a \<and> bmp (an_desc a) \<and> \<not> signature_desc (an_desc a)"

lemma annotations_skip:
  assumes cp: "pool_read q cp"
  shows "list_all2 (annotation_reads q cp) as bs \<Longrightarrow> list_all plain_annotation as \<Longrightarrow>
     annotations_text (length as + k) cp (cursor_at pre (concat bs @ rest)) =
       annotations_text k cp (cursor_at (pre @ concat bs) rest)"
proof (induction as bs arbitrary: pre rule: list_all2_induct)
  case Nil
  then show ?case by simp
next
  case (Cons a as b bs)
  then obtain i ds where a: "b = be16 i @ be16 (of_nat (length (an_elems a))) @ concat ds" "utf8s q (an_desc a) = Some i"
    "list_all2 (elem_reads cp) (an_elems a) ds"
    by (auto simp: annotation_reads_def)
  have l: "length (an_elems a) < 65536" using Cons.prems by (cases a) (simp add: plain_annotation_def)
  have "cp_utf8 cp i = Some (an_desc a)" using a(2) cp Cons.prems by (simp add: pool_read_def plain_annotation_def)
  then show ?case
    using Cons.IH [of "pre @ b"] Cons.prems pairs_skip [OF a(3)]
    by (simp add: a(1) reads Let_def unwrap_or_default_def plain_annotation_def signature_desc_def small_of_nat l)
qed

lemma chunks_not_empty: "utf8_chunks_loop m out cur len s \<noteq> []"
  by (induction m out cur len s rule: utf8_chunks_loop.induct) (auto simp: Let_def)

lemma text_reads: "cp_utf8 cp u = Some s \<Longrightarrow> 0 < f \<Longrightarrow> value_reads f cp (byte CHR ''s'' # be16 u) s"
  by (cases f) (simp_all add: value_reads_def reads)

lemma texts_read:
  assumes "list_all2 (\<lambda>s u. cp_utf8 cp u = Some s) ss us" "length ss < 65536" "1 < f"
  shows "value_reads f cp (byte CHR ''['' # be16 (of_nat (length us)) @ concat (map (\<lambda>u. byte CHR ''s'' # be16 u) us)) (concat ss)"
proof -
  obtain g where f: "f = Suc g" "0 < g" using assms(3) by (cases f) auto
  let ?bs = "map (\<lambda>u. byte CHR ''s'' # be16 u) us"
  have "list_all2 (\<lambda>x b. \<exists>n b'. b = (if False then be16 n else []) @ b' \<and> value_reads g cp b' (id x)) ss ?bs"
    using assms(1) f(2) text_reads by (auto simp: list_all2_conv_all_nth)
  from read_values_reads [OF this] show ?thesis
    using assms(2) list_all2_lengthD [OF assms(1)] by (simp add: value_reads_def f(1) reads small_of_nat)
qed

lemma signature_descs: "signature_desc (lit ''Lscala/reflect/ScalaSignature;'')" "signature_desc (lit ''Lscala/reflect/ScalaLongSignature;'')"
  by code_simp+

lemma bmp_lit [simp]: "bmp (lit s)"
proof -
  have "is_scalar (of_char c) \<and> of_char c < (0x10000 :: nat)" for c
    using nat_of_char_less_256 [of c] by (intro conjI is_scalar_small) linarith+
  then show ?thesis by (simp add: bmp_def lit_def list_all_iff)
qed

lemma lit_read: "pool_read q cp \<Longrightarrow> pool_utf8 (lit s) p = Some (i, p') \<Longrightarrow> pool_grows p' q \<Longrightarrow> cp_utf8 cp i = Some (lit s)"
  using interned_text [of "lit s" p i p' q] by (simp add: pool_read_def del: lit_simps)

lemma signature_annotation_reads:
  assumes cp: "pool_read q cp"
    and c: "scala_signature c = Some s" "bmp s" "length (sig_chunks c) < 65536"
    and i: "intern_signature c p = Some (sd, p')" "pool_grows p' q"
  shows "\<exists>b. scala_sig_annot c sd = Some (1, b) \<and>
     (\<forall>pre. annotations_text (Suc 0) cp (cursor_at pre b) = Some (Some s))"
proof -
  obtain ty bn r1 r2 where t: "pool_utf8 (lit (if long_sig c then ''Lscala/reflect/ScalaLongSignature;'' else ''Lscala/reflect/ScalaSignature;'')) p = Some (ty, r1)"
    "pool_utf8 (lit ''bytes'') r1 = Some (bn, r2)" "pool_all pool_utf8 (sig_chunks c) r2 = Some (s_utf8s sd, p')"
    "s_type sd = Some ty" "s_bytes sd = Some bn"
    using i(1) c(1) by (auto simp: intern_signature_def Option.bind_eq_Some_conv pool_when_Some)
  have g2: "pool_grows r2 q" using pool_operation.grows [OF pool_all_operation t(3)] utf8.pool_operation_axioms i(2) pool_grows_trans by blast
  have g1: "pool_grows r1 q" using utf8.grows [OF t(2)] g2 by (rule pool_grows_trans)
  have ty: "cp_utf8 cp ty = Some (lit (if long_sig c then ''Lscala/reflect/ScalaLongSignature;'' else ''Lscala/reflect/ScalaSignature;''))"
    by (rule lit_read [OF cp t(1) g1])
  have bn: "cp_utf8 cp bn = Some (lit ''bytes'')"
    by (rule lit_read [OF cp t(2) g2])
  have cat: "concat (sig_chunks c) = s" by (simp add: sig_chunks_def c(1) utf8_chunks_def chunks_loop_concat)
  have "bmp x" if "x \<in> set (sig_chunks c)" for x using that c(2) by (auto simp: cat [symmetric] bmp_def list_all_iff)
  then have us: "list_all2 (\<lambda>s u. cp_utf8 cp u = Some s) (sig_chunks c) (s_utf8s sd)"
    using pool_all_steps [OF t(3) i(2) utf8.pool_operation_axioms] cp
    by (auto simp: pool_read_def elim!: list.rel_mono_strong dest: interned_text)
  define v where "v = (if long_sig c then byte CHR ''['' # be16 (of_nat (length (s_utf8s sd))) else []) @
     concat (map (\<lambda>u. byte CHR ''s'' # be16 u) (s_utf8s sd))"
  have v: "value_reads f cp v s" if "1 < f" for f
  proof (cases "long_sig c")
    case True
    then show ?thesis using texts_read [OF us c(3) that] by (simp add: v_def cat)
  next
    case False
    then obtain x u where x: "sig_chunks c = [x]" "s_utf8s sd = [u]" "cp_utf8 cp u = Some x"
      using us chunks_not_empty [of MAX_UTF8_CONST "[]" "[]" 0 s]
      by (cases "sig_chunks c"; cases "s_utf8s sd") (auto simp: long_sig_def sig_chunks_def c(1) utf8_chunks_def)
    then show ?thesis using text_reads [OF x(3), of f] that cat False by (simp add: v_def)
  qed
  have "scala_sig_annot c sd = Some (1, be16 ty @ be16 1 @ be16 bn @ v)" by (simp add: scala_sig_annot_def t(4,5) v_def)
  moreover have "annotations_text (Suc 0) cp (cursor_at pre (be16 ty @ be16 1 @ be16 bn @ v)) = Some (Some s)" for pre
  proof -
    have e: "element_value cp (cursor_at r v) [] = Some (s, cursor_at (r @ v) [])" for r
      using element_value_reads [of 1 cp v s r "[]" "[]"] v by simp
    have d: "signature_desc (lit (if long_sig c then ''Lscala/reflect/ScalaLongSignature;'' else ''Lscala/reflect/ScalaSignature;''))"
      using signature_descs by simp
    show ?thesis using d [unfolded signature_desc_def]
      by (simp only: annotations_text.simps reads ty bn Let_def unwrap_or_default_def Option.bind.bind_lunit
           option.case prod.case unat_1 One_nat_def pairs_text.simps e simp_thms if_True)
  qed
  ultimately show ?thesis by blast
qed

end
