(* ===== verification/ClassWriterSound.thy ===== *)
theory ClassWriterSound
  imports ClassWriterRead
begin

text \<open>
  The class file \<open>write_with_pool\<close> writes is one the reader of \<open>crates/pickle/src/classfile.rs\<close> takes apart:
  every count is the count of what follows, every length the length of its body, and the signature the
  class carries is the one that is read.
\<close>

section \<open>The attributes as a list\<close>

lemma index_attr_list: "index_attr name i = write_attrs (case (name, i) of (Some a, Some s) \<Rightarrow> [(a, be16 s)] | _ \<Rightarrow> [])"
  by (auto simp: index_attr_def write_attr_def split: option.split)

lemma attrs_short: "length (write_attrs attrs) < 2 ^ 32 \<Longrightarrow> short_attrs attrs"
  by (induction attrs) (auto simp: short_attrs_def write_attr_def)

definition field_ok :: "head_data \<Rightarrow> field_data \<Rightarrow> bool" where
  "field_ok h f \<longleftrightarrow> (f_sig f \<noteq> None \<longrightarrow> h_sig_attr h \<noteq> None) \<and> (f_const f \<noteq> None \<longrightarrow> h_const_attr h \<noteq> None) \<and>
     length (f_annots f) \<le> 2"

definition method_ok :: "head_data \<Rightarrow> method_data \<Rightarrow> bool" where
  "method_ok h m \<longleftrightarrow> (m_sig m \<noteq> None \<longrightarrow> h_sig_attr h \<noteq> None) \<and> length (m_annots m) \<le> 4"

lemma member_bytesI:
  "b = be16 a @ be16 n @ be16 d @ be16 (of_nat (length attrs)) @ write_attrs attrs \<Longrightarrow> length attrs < 65536 \<Longrightarrow>
     length b < 2 ^ 32 \<Longrightarrow> member_bytes b"
  unfolding member_bytes_def by (intro exI [of _ a] exI [of _ n] exI [of _ d] exI [of _ attrs]) (auto intro: attrs_short)

lemma write_field_member:
  assumes "field_ok h f" "length (write_field h f) < 2 ^ 32"
  shows "member_bytes (write_field h f)"
proof -
  let ?attrs = "(case (h_const_attr h, f_const f) of (Some a, Some s) \<Rightarrow> [(a, be16 s)] | _ \<Rightarrow> []) @
    (case (h_sig_attr h, f_sig f) of (Some a, Some s) \<Rightarrow> [(a, be16 s)] | _ \<Rightarrow> []) @ f_annots f"
  have "write_field h f = be16 (f_access f) @ be16 (f_name f) @ be16 (f_desc f) @ be16 (of_nat (length ?attrs)) @ write_attrs ?attrs"
    using assms(1) by (auto simp: write_field_def index_attr_list field_ok_def u16_from_def split: option.split)
  moreover have "length ?attrs < 65536" using assms(1) by (auto simp: field_ok_def split: option.split)
  ultimately show ?thesis using assms(2) by (rule member_bytesI)
qed

lemma write_method_params_attr:
  "write_method_params attr params = Some b \<Longrightarrow> \<exists>as. b = write_attrs as \<and> length as = (if params = [] then 0 else 1)"
proof (cases "params = []")
  case True
  moreover assume "write_method_params attr params = Some b"
  ultimately show ?thesis by (auto simp: write_method_params_def intro: exI [of _ "[]"])
next
  case False
  assume "write_method_params attr params = Some b"
  then obtain a where a: "b = be16 a @ be32 (of_nat (1 + length params * 4)) @ [of_nat (length params)] @
      concat (map (\<lambda>(name, flags). be16 (case name of None \<Rightarrow> 0 | Some n \<Rightarrow> n) @ be16 flags) params)"
    using False by (auto simp: write_method_params_def Option.bind_eq_Some_conv)
  have "length (concat (map (\<lambda>(name, flags). be16 (case name of None \<Rightarrow> 0 | Some n \<Rightarrow> n) @ be16 flags) params)) = length params * 4"
    by (induction params) auto
  then show ?thesis using False a
    by (intro exI [of _ "[(a, [of_nat (length params)] @
      concat (map (\<lambda>(name, flags). be16 (case name of None \<Rightarrow> 0 | Some n \<Rightarrow> n) @ be16 flags) params))]"]) (simp add: write_attr_def)
qed

lemma write_method_member:
  assumes "method_ok h m" "write_method h n t m = Some b" "length b < 2 ^ 32"
  shows "member_bytes b"
proof -
  obtain ps where ps: "write_method_params (n_method_params t) (m_params m) = Some ps"
    "b = be16 (m_access m) @ be16 (m_name m) @ be16 (m_desc m) @
         be16 (u16_from (m_code m \<noteq> None) + of_nat (length (m_annots m)) + u16_from (m_sig m \<noteq> None) + u16_from (m_params m \<noteq> [])) @
         (case m_code m of None \<Rightarrow> [] | Some c \<Rightarrow> write_attr (n_code n) (code_body n c (m_lvt m))) @
         write_attrs (m_annots m) @ index_attr (h_sig_attr h) (m_sig m) @ ps"
    using assms(2) by (auto simp: write_method_def Option.bind_eq_Some_conv)
  obtain as where as: "ps = write_attrs as" "length as = (if m_params m = [] then 0 else 1)"
    using write_method_params_attr [OF ps(1)] by auto
  let ?attrs = "(case m_code m of None \<Rightarrow> [] | Some c \<Rightarrow> [(n_code n, code_body n c (m_lvt m))]) @ m_annots m @
    (case (h_sig_attr h, m_sig m) of (Some a, Some s) \<Rightarrow> [(a, be16 s)] | _ \<Rightarrow> []) @ as"
  have "b = be16 (m_access m) @ be16 (m_name m) @ be16 (m_desc m) @ be16 (of_nat (length ?attrs)) @ write_attrs ?attrs"
    using assms(1) as(2) by (auto simp: ps(2) as(1) index_attr_list method_ok_def u16_from_def add.commute split: option.split)
  moreover have "length ?attrs < 65536" using assms(1) as(2) by (auto simp: method_ok_def split: option.split)
  ultimately show ?thesis using assms(3) by (rule member_bytesI)
qed

lemma inner_length:
  "length (concat (map (\<lambda>(inner, outer, name, flags). be16 inner @ be16 outer @ be16 name @ be16 flags) es)) = length es * 8"
  by (induction es) auto

text \<open>The attributes of the class before its annotations.\<close>

definition opt_attr :: "u16 option \<Rightarrow> bytes \<Rightarrow> (u16 \<times> bytes) list" where
  "opt_attr name body = (case name of None \<Rightarrow> [] | Some a \<Rightarrow> [(a, body)])"

definition front_attrs :: "head_data \<Rightarrow> name_data \<Rightarrow> nest_data \<Rightarrow> pool \<Rightarrow> (u16 \<times> bytes) list" where
  "front_attrs h n t p =
     (case (h_sig_attr h, h_class_sig h) of (Some a, Some s) \<Rightarrow> [(a, be16 s)] | _ \<Rightarrow> []) @
     opt_attr (n_inner_attr t) (be16 (of_nat (length (n_inner t))) @
       concat (map (\<lambda>(inner, outer, name, flags). be16 inner @ be16 outer @ be16 name @ be16 flags) (n_inner t))) @
     opt_attr (n_bootstrap t) (bootstrap_body p) @
     (case (n_enclosing_attr t, n_enclosing t) of (Some em, Some (c, nt)) \<Rightarrow> [(em, be16 c @ be16 nt)] | _ \<Rightarrow> []) @
     opt_attr (n_scala_raw n) [] @
     opt_attr (n_scala_sig n) [5, 2, 0]"

lemma attr_counts:
  "of_nat (length (opt_attr a body)) = u16_from (a \<noteq> None)"
  "(s \<noteq> None \<longrightarrow> a \<noteq> None) \<Longrightarrow>
     of_nat (length (case (a, s) of (Some a, Some s) \<Rightarrow> [(a, be16 s)] | _ \<Rightarrow> [])) = u16_from (s \<noteq> None)"
  "(a \<noteq> None \<longleftrightarrow> e \<noteq> None) \<Longrightarrow>
     of_nat (length (case (a, e) of (Some em, Some (c, nt)) \<Rightarrow> [(em, be16 c @ be16 nt)] | _ \<Rightarrow> [])) = u16_from (a \<noteq> None)"
  by (auto simp: opt_attr_def u16_from_def split: option.split)

lemma front_attrs_length: "length (front_attrs h n t p) \<le> 6"
  by (auto simp: front_attrs_def opt_attr_def split: option.split)

lemma write_class_attrs_list:
  assumes "h_class_sig h \<noteq> None \<longrightarrow> h_sig_attr h \<noteq> None" "n_enclosing_attr t \<noteq> None \<longleftrightarrow> n_enclosing t \<noteq> None"
  shows "write_class_attrs h n t annots p =
    be16 (of_nat (length (front_attrs h n t p @ annots @ [(n_src n, be16 (n_src_name n))]))) @
    write_attrs (front_attrs h n t p) @ write_attrs annots @ write_attr (n_src n) (be16 (n_src_name n))"
proof -
  have "of_nat (length (front_attrs h n t p)) = (u16_from (h_class_sig h \<noteq> None) + u16_from (n_scala_sig n \<noteq> None) +
      u16_from (n_scala_raw n \<noteq> None) + u16_from (n_inner_attr t \<noteq> None) + u16_from (n_bootstrap t \<noteq> None) +
      u16_from (n_enclosing_attr t \<noteq> None))"
    unfolding front_attrs_def length_append of_nat_add attr_counts attr_counts(2) [OF assms(1)] attr_counts(3) [OF assms(2)]
    by (simp add: algebra_simps)
  moreover have "write_attrs (front_attrs h n t p) =
     index_attr (h_sig_attr h) (h_class_sig h) @
     (case n_inner_attr t of
        None \<Rightarrow> []
      | Some ic \<Rightarrow>
          be16 ic @ be32 (of_nat (2 + length (n_inner t) * 8)) @ be16 (of_nat (length (n_inner t))) @
          concat (map (\<lambda>(inner, outer, name, flags). be16 inner @ be16 outer @ be16 name @ be16 flags) (n_inner t))) @
     (case n_bootstrap t of
        None \<Rightarrow> []
      | Some bm \<Rightarrow> write_attr bm (bootstrap_body p)) @
     (case (n_enclosing_attr t, n_enclosing t) of
        (Some em, Some (c, nt)) \<Rightarrow> be16 em @ be32 4 @ be16 c @ be16 nt
      | _ \<Rightarrow> []) @
     (case n_scala_raw n of None \<Rightarrow> [] | Some raw \<Rightarrow> be16 raw @ be32 0) @
     (case n_scala_sig n of None \<Rightarrow> [] | Some ss \<Rightarrow> write_attr ss [5, 2, 0])"
    by (simp add: front_attrs_def opt_attr_def index_attr_list write_attr_def inner_length split: option.split)
  ultimately show ?thesis by (simp add: write_class_attrs_def write_attr_def ac_simps)
qed

section \<open>What interning promises\<close>

lemma unwrap_eq_Ok: "unwrap m = Ok x \<longleftrightarrow> m = Some x"
  by (cases m) simp_all

lemma visible_attr_length: "visible_attr v annots extra p = Some (as, p') \<Longrightarrow> length as \<le> 1"
  by (auto simp: visible_attr_def Let_def Option.bind_eq_Some_conv split: if_splits)

lemma annotation_attrs_length: "annotation_attrs annots extra p = Some (as, p') \<Longrightarrow> length as \<le> 2"
  by (fastforce simp: annotation_attrs_def Option.bind_eq_Some_conv dest: visible_attr_length)

lemma param_annotation_attrs_length: "param_annotation_attrs params p = Some (as, p') \<Longrightarrow> length as \<le> 2"
  by (auto simp: param_annotation_attrs_def param_visible_attr_def Option.bind_eq_Some_conv split: if_splits)

lemma lookup_not_empty: "Mapping.lookup m k = Some v \<Longrightarrow> \<not> Mapping.is_empty m"
  by (auto simp: Mapping.is_empty_def keys_dom_lookup)

lemma intern_field_ok:
  assumes "intern_field c f r = Some (d, r')"
  shows "f_sig d \<noteq> None \<longrightarrow> needs_sig_attr c" "f_const d \<noteq> None \<longrightarrow> \<not> Mapping.is_empty (field_constants c)"
    "length (f_annots d) \<le> 2"
proof -
  obtain r1 r2 r3 where s: "pool_opt pool_utf8 (Mapping.lookup (field_signatures c) (fd_name f)) r = Some (f_sig d, r1)"
    "pool_opt pool_long (Mapping.lookup (field_constants c) (fd_name f)) r1 = Some (f_const d, r2)"
    "(case Mapping.lookup (field_annotations c) (fd_name f) of Some a \<Rightarrow> annotation_attrs a None r2 | None \<Rightarrow> Some ([], r2)) =
      Some (f_annots d, r3)"
    using assms by (auto simp: intern_field_def Option.bind_eq_Some_conv)
  show "f_sig d \<noteq> None \<longrightarrow> needs_sig_attr c" "f_const d \<noteq> None \<longrightarrow> \<not> Mapping.is_empty (field_constants c)"
    using s(1,2) by (auto simp: pool_opt_Some needs_sig_attr_def dest: lookup_not_empty)
  show "length (f_annots d) \<le> 2" using s(3) by (auto dest: annotation_attrs_length split: option.splits)
qed

lemma intern_head_ok:
  assumes "intern_head c p = Some (h, p')"
  shows "list_all (field_ok h) (h_fields h)" "length (h_fields h) = length (ce_fields c)"
    "length (h_ifaces h) = length (interfaces c)" "h_class_sig h \<noteq> None \<longrightarrow> h_sig_attr h \<noteq> None"
    "needs_sig_attr c \<longrightarrow> h_sig_attr h \<noteq> None"
proof -
  obtain this_i super_i ifs sa ca cs fs r1 r2 r3 r4 r5 r6 where s:
    "pool_all pool_class (interfaces c) r2 = Some (ifs, r3)"
    "pool_when (needs_sig_attr c) (pool_utf8 (lit ''Signature'')) r3 = Some (sa, r4)"
    "pool_when (\<not> Mapping.is_empty (field_constants c)) (pool_utf8 (lit ''ConstantValue'')) r4 = Some (ca, r5)"
    "pool_opt pool_utf8 (ce_signature c) r5 = Some (cs, r6)"
    "pool_all (intern_field c) (ce_fields c) r6 = Some (fs, p')"
    "h = \<lparr>h_this = this_i, h_super = super_i, h_ifaces = ifs, h_sig_attr = sa, h_const_attr = ca, h_class_sig = cs, h_fields = fs\<rparr>"
    using assms by (auto simp: intern_head_def Option.bind_eq_Some_conv)
  show "length (h_fields h) = length (ce_fields c)" "length (h_ifaces h) = length (interfaces c)"
    using pool_all_length [OF s(1)] pool_all_length [OF s(5)] by (simp_all add: s(6))
  show n: "needs_sig_attr c \<longrightarrow> h_sig_attr h \<noteq> None" using s(2) by (auto simp: s(6) pool_when_Some)
  show "h_class_sig h \<noteq> None \<longrightarrow> h_sig_attr h \<noteq> None"
    using n s(4) by (auto simp: s(6) pool_opt_Some needs_sig_attr_def)
  have field: "field_ok h d" if "intern_field c f r = Some (d, r')" for f r d r'
    using intern_field_ok [OF that] n s(3) by (auto simp: field_ok_def s(6) pool_when_Some)
  have "h_fields h = fs" by (simp add: s(6))
  then show "list_all (field_ok h) (h_fields h)"
    using pool_all_steps [OF s(5) pool_grows_refl intern_field_operation]
    by (auto simp: list_all_length list_all2_conv_all_nth intro: field)
qed

lemma intern_method_Ok:
  assumes "intern_method c m p = Ok (d, p')"
  shows "\<exists>x r. method_front m p = Some (x, r) \<and> m_annots d = fst (snd (snd x)) \<and> m_sig d = snd (snd (snd x))"
    "\<not> bad_param_count m" "\<not> illegal_flags m" "length (param_names m) \<le> 255"
proof -
  obtain x r params r' where s: "method_front m p = Some (x, r)" "\<not> bad_param_count m" "\<not> illegal_flags m"
    "pool_all intern_param (zip (param_names m) (param_flags m)) r = Some (params, r')" "\<not> 255 < length params"
    "m_annots d = fst (snd (snd x))" "m_sig d = snd (snd (snd x))"
    using assms by (auto simp: intern_method_def rbind_eq_Ok unwrap_eq_Ok case_prod_unfold split: if_split_asm)
  then show "\<exists>x r. method_front m p = Some (x, r) \<and> m_annots d = fst (snd (snd x)) \<and> m_sig d = snd (snd (snd x))"
    "\<not> bad_param_count m" "\<not> illegal_flags m" by blast+
  show "length (param_names m) \<le> 255"
    using pool_all_length [OF s(4)] s(2,5) by (simp add: bad_param_count_def)
qed

lemma method_front_ok:
  assumes "method_front m p = Some ((n, d, annots, sig), p')"
  shows "length annots \<le> 4" "sig \<noteq> None \<longrightarrow> md_signature m \<noteq> None"
proof -
  obtain as bs r1 r2 r3 where s: "annotation_attrs (java_annots m) None r1 = Some (as, r2)"
    "param_annotation_attrs (param_annots m) r2 = Some (bs, r3)" "annots = as @ bs"
    "pool_opt pool_utf8 (md_signature m) r3 = Some (sig, p')"
    using assms by (auto simp: method_front_def Option.bind_eq_Some_conv)
  show "length annots \<le> 4" using annotation_attrs_length [OF s(1)] param_annotation_attrs_length [OF s(2)] by (simp add: s(3))
  show "sig \<noteq> None \<longrightarrow> md_signature m \<noteq> None" using s(4) by (auto simp: pool_opt_Some)
qed

lemma intern_method_ok:
  assumes "intern_method c m p = Ok (d, p')" "m \<in> set (ce_methods c)" "needs_sig_attr c \<longrightarrow> h_sig_attr h \<noteq> None"
  shows "method_ok h d"
proof -
  obtain n ds annots sig r where f: "method_front m p = Some ((n, ds, annots, sig), r)" "m_annots d = annots" "m_sig d = sig"
    using intern_method_Ok(1) [OF assms(1)] by (metis prod.collapse)
  have "sig \<noteq> None \<longrightarrow> needs_sig_attr c"
    using method_front_ok(2) [OF f(1)] assms(2) by (auto simp: needs_sig_attr_def list_ex_iff)
  then show ?thesis using assms(3) method_front_ok(1) [OF f(1)] by (auto simp: method_ok_def f(2,3))
qed

lemma intern_methods_ok:
  assumes "needs_sig_attr c \<longrightarrow> h_sig_attr h \<noteq> None"
  shows "intern_methods c ms p = Ok (ds, p') \<Longrightarrow> set ms \<subseteq> set (ce_methods c) \<Longrightarrow>
    list_all (method_ok h) ds \<and> length ds = length ms"
proof (induction ms arbitrary: p ds)
  case Nil
  then show ?case by simp
next
  case (Cons m ms)
  obtain d es r where s: "intern_method c m p = Ok (d, r)" "intern_methods c ms r = Ok (es, p')" "ds = d # es"
    using Cons.prems(1) by (auto simp: rbind_eq_Ok)
  then show ?case using Cons.IH [OF s(2)] Cons.prems(2) intern_method_ok [OF s(1) _ assms] by simp
qed

lemma write_methods_list:
  "write_methods h n t ms = Some b \<Longrightarrow> \<exists>bs. b = concat bs \<and> list_all2 (\<lambda>m b. write_method h n t m = Some b) ms bs"
proof (induction ms arbitrary: b)
  case Nil
  then show ?case by (auto intro: exI [of _ "[]"])
next
  case (Cons m ms)
  obtain x y where s: "write_method h n t m = Some x" "write_methods h n t ms = Some y" "b = x @ y"
    using Cons.prems by (auto simp: Option.bind_eq_Some_conv)
  obtain bs where "y = concat bs" "list_all2 (\<lambda>m b. write_method h n t m = Some b) ms bs" using Cons.IH [OF s(2)] by blast
  with s show ?case by (intro exI [of _ "x # bs"]) simp
qed

section \<open>Reading the class back\<close>

abbreviation RVA :: str where
  "RVA \<equiv> lit ''RuntimeVisibleAnnotations''"

lemma attributes_skip:
  "list_all (\<lambda>(name, body). cp_utf8 cp name \<noteq> Some RVA \<and> length body < 2 ^ 32) as \<Longrightarrow>
     attribute_reads (length as + k) cp (cursor_at pre (write_attrs as @ rest)) =
       attribute_reads k cp (cursor_at (pre @ write_attrs as) rest)"
proof (induction as arbitrary: pre)
  case Nil
  then show ?case by simp
next
  case (Cons a as)
  obtain name body where a: "a = (name, body)" by (cases a)
  show ?case using Cons.IH [of "pre @ write_attr name body"] Cons.prems
    by (simp add: a write_attr_def reads small_of_nat del: lit_simps)
qed

lemma attribute_found:
  assumes "cp_utf8 cp name = Some RVA" "length body < 2 ^ 32" "signature_text body cp = Some (Some s)"
    "decode_annotation_string s = Some bs"
  shows "attribute_reads (Suc k) cp (cursor_at pre (write_attr name body @ rest)) = Ok (Some bs)"
  using assms by (simp add: write_attr_def reads small_of_nat del: lit_simps)

lemma dedup_set: "set (dedup_by_desc as) \<subseteq> set as" "length (dedup_by_desc as) \<le> length as"
  by (induction as rule: dedup_by_desc.induct) auto

text \<open>The annotations of the class: the first of their attributes is the one with the signature.\<close>

lemma class_annots_signature:
  assumes "annotation_attrs annots (Some (1, b)) p = Some (attrs, p')" "pool_grows p' q" "pool_read q cp"
    and "list_all plain_annotation (filter an_visible annots)" "length annots < 65535"
    and sig: "\<And>pre. annotations_text (Suc 0) cp (cursor_at pre b) = Some (Some s)"
  shows "\<exists>i body more. attrs = (i, body) # more \<and> cp_utf8 cp i = Some RVA \<and> signature_text body cp = Some (Some s)"
proof -
  let ?chosen = "dedup_by_desc (filter (\<lambda>a. an_visible a = True) annots)"
  obtain i es more r1 r2 where s: "pool_utf8 RVA p = Some (i, r1)" "pool_all encode_annotation ?chosen r1 = Some (es, r2)"
    "visible_attr False annots (Some (1, b)) r2 = Some (more, p')"
    "attrs = (i, be16 (of_nat (length ?chosen + 1)) @ concat es @ b) # more"
    using assms(1) by (auto simp: annotation_attrs_def visible_attr_def [of True] Let_def Option.bind_eq_Some_conv simp del: lit_simps)
  have g2: "pool_grows r2 q" using pool_operation.grows [OF visible_attr_operation s(3)] assms(2) by (rule pool_grows_trans)
  have g1: "pool_grows r1 q"
    using pool_operation.grows [OF pool_all_operation s(2)] encode_annotation.pool_operation_axioms g2 pool_grows_trans by blast
  have plain: "list_all plain_annotation ?chosen"
    using assms(4) dedup_set(1) [of "filter an_visible annots"] by (auto simp: list_all_iff)
  have "length ?chosen \<le> length annots" using dedup_set(2) length_filter_le order_trans by blast
  then have n: "unat (of_nat (length ?chosen + 1) :: u16) = length ?chosen + Suc 0" unfolding One_nat_def using assms(5) by (intro small_of_nat) simp
  have "list_all2 (annotation_reads q cp) ?chosen es"
    using pool_all_steps [OF s(2) g2 encode_annotation.pool_operation_axioms]
  proof (rule list.rel_mono_strong)
    fix a d
    assume "a \<in> set ?chosen" "\<exists>r r'. encode_annotation a r = Some (d, r') \<and> pool_grows r' q"
    then show "annotation_reads q cp a d"
      using encode_annotation_reads(1) [OF assms(3)] plain by (auto simp: list_all_iff plain_annotation_def)
  qed
  from annotations_skip [OF assms(3) this plain, of "Suc 0" "be16 (of_nat (length ?chosen + 1))" b]
  have "annotations_text (length ?chosen + Suc 0) cp (cursor_at (be16 (of_nat (length ?chosen + 1))) (concat es @ b)) = Some (Some s)"
    by (simp only: sig)
  then have "signature_text (be16 (of_nat (length ?chosen + 1)) @ concat es @ b) cp = Some (Some s)"
    unfolding signature_text_def cursor_new_at u2_reads Option.bind.bind_lunit prod.case n append_Nil .
  then show ?thesis using s(4) lit_read [OF assms(3) s(1) g1] by (auto simp del: lit_simps)
qed

text \<open>Every attribute before them has another name.\<close>

lemma lit_distinct: "lit ''Signature'' \<noteq> RVA" "lit ''InnerClasses'' \<noteq> RVA" "lit ''BootstrapMethods'' \<noteq> RVA"
  "lit ''EnclosingMethod'' \<noteq> RVA" "lit ''Scala'' \<noteq> RVA" "lit ''ScalaSig'' \<noteq> RVA"
  by (simp_all add: lit_def)

lemma when_named:
  assumes "pool_when b (pool_utf8 (lit s)) p = Some (a, p')" "pool_grows p' q" "pool_read q cp" "lit s \<noteq> RVA"
  shows "a = Some i \<Longrightarrow> cp_utf8 cp i \<noteq> Some RVA"
  using assms lit_read [of q cp s p i p'] by (auto simp: pool_when_Some simp del: lit_simps)

text \<open>What a step interned is in every pool that grows from it.\<close>

lemma when_grows: "pool_when b (pool_utf8 s) p = Some (a, p') \<Longrightarrow> pool_grows p' q \<Longrightarrow> pool_grows p q"
  by (meson pool_operation.grows pool_when_operation utf8.pool_operation_axioms pool_grows_trans)

lemma opt_grows: "pool_opt op m p = Some (a, p') \<Longrightarrow> pool_grows p' q \<Longrightarrow> (\<And>x. pool_operation (op x)) \<Longrightarrow> pool_grows p q"
  by (meson pool_operation.grows pool_opt_operation pool_grows_trans)

lemma all_grows: "pool_all op xs p = Some (ys, p') \<Longrightarrow> pool_grows p' q \<Longrightarrow> (\<And>x. pool_operation (op x)) \<Longrightarrow> pool_grows p q"
  by (meson pool_operation.grows pool_all_operation pool_grows_trans)

lemma intern_head_named:
  assumes "intern_head c p = Some (h, p')" and q: "pool_grows p' q" "pool_read q cp" and "h_sig_attr h = Some i"
  shows "cp_utf8 cp i \<noteq> Some RVA"
proof -
  obtain sa ca cs fs r3 r4 r5 r6 where s:
    "pool_when (needs_sig_attr c) (pool_utf8 (lit ''Signature'')) r3 = Some (sa, r4)"
    "pool_when (\<not> Mapping.is_empty (field_constants c)) (pool_utf8 (lit ''ConstantValue'')) r4 = Some (ca, r5)"
    "pool_opt pool_utf8 (ce_signature c) r5 = Some (cs, r6)"
    "pool_all (intern_field c) (ce_fields c) r6 = Some (fs, p')" "h_sig_attr h = sa"
    using assms(1) by (auto simp: intern_head_def Option.bind_eq_Some_conv simp del: lit_simps)
  have "pool_grows r4 q"
    by (rule when_grows [OF s(2) opt_grows [OF s(3) all_grows [OF s(4) q(1)]]]) (intro pool_steps)+
  from when_named [OF s(1) this q(2)] s(5) assms(4) lit_distinct show ?thesis by (simp del: lit_simps)
qed

lemma intern_names_named:
  assumes "intern_names c p = Some (n, p')" and q: "pool_grows p' q" "pool_read q cp"
  shows "n_scala_raw n = Some i \<Longrightarrow> cp_utf8 cp i \<noteq> Some RVA" "n_scala_sig n = Some i \<Longrightarrow> cp_utf8 cp i \<noteq> Some RVA"
proof -
  obtain raw sig r1 r2 where s:
    "pool_when (scala_raw c) (pool_utf8 (lit ''Scala'')) r1 = Some (raw, r2)"
    "pool_when (scala_signature c \<noteq> None \<and> \<not> scala_raw c) (pool_utf8 (lit ''ScalaSig'')) r2 = Some (sig, p')"
    "n_scala_raw n = raw" "n_scala_sig n = sig"
    using assms(1) by (auto simp: intern_names_def Option.bind_eq_Some_conv simp del: lit_simps)
  have "pool_grows r2 q" by (rule when_grows [OF s(2) q(1)])
  from when_named [OF s(1) this q(2)] when_named [OF s(2) q] s(3,4) lit_distinct
  show "n_scala_raw n = Some i \<Longrightarrow> cp_utf8 cp i \<noteq> Some RVA" "n_scala_sig n = Some i \<Longrightarrow> cp_utf8 cp i \<noteq> Some RVA"
    by (simp_all del: lit_simps)
qed

lemma intern_nesting_named:
  assumes "intern_nesting c p = Some (t, p')" and q: "pool_grows p' q" "pool_read q cp"
  shows "n_inner_attr t = Some i \<Longrightarrow> cp_utf8 cp i \<noteq> Some RVA" "n_bootstrap t = Some i \<Longrightarrow> cp_utf8 cp i \<noteq> Some RVA"
    "n_enclosing_attr t = Some i \<Longrightarrow> cp_utf8 cp i \<noteq> Some RVA" "n_enclosing_attr t \<noteq> None \<longleftrightarrow> n_enclosing t \<noteq> None"
proof -
  obtain ia ics ea en bm mp r1 r2 r3 r4 r5 where s:
    "pool_when (inner_classes c \<noteq> []) (pool_utf8 (lit ''InnerClasses'')) p = Some (ia, r1)"
    "pool_all intern_inner (inner_classes c) r1 = Some (ics, r2)"
    "pool_when (enclosing_method c \<noteq> None) (pool_utf8 (lit ''EnclosingMethod'')) r2 = Some (ea, r3)"
    "pool_opt intern_enclosing (enclosing_method c) r3 = Some (en, r4)"
    "pool_when (has_bootstraps r4) (pool_utf8 (lit ''BootstrapMethods'')) r4 = Some (bm, r5)"
    "pool_when (list_ex (\<lambda>m. param_names m \<noteq> []) (ce_methods c)) (pool_utf8 (lit ''MethodParameters'')) r5 = Some (mp, p')"
    "n_inner_attr t = ia" "n_enclosing_attr t = ea" "n_enclosing t = en" "n_bootstrap t = bm"
    using assms(1) by (auto simp: intern_nesting_def Option.bind_eq_Some_conv simp del: lit_simps)
  have g5: "pool_grows r5 q" by (rule when_grows [OF s(6) q(1)])
  have g4: "pool_grows r4 q" by (rule when_grows [OF s(5) g5])
  have g3: "pool_grows r3 q" by (rule opt_grows [OF s(4) g4]) (intro pool_steps)
  have g1: "pool_grows r1 q" by (rule all_grows [OF s(2) when_grows [OF s(3) g3]]) (intro pool_steps)
  from when_named [OF s(1) g1 q(2)] when_named [OF s(3) g3 q(2)] when_named [OF s(5) g5 q(2)] lit_distinct
  show "n_inner_attr t = Some i \<Longrightarrow> cp_utf8 cp i \<noteq> Some RVA" "n_bootstrap t = Some i \<Longrightarrow> cp_utf8 cp i \<noteq> Some RVA"
    "n_enclosing_attr t = Some i \<Longrightarrow> cp_utf8 cp i \<noteq> Some RVA"
    by (simp_all add: s(7-10) del: lit_simps)
  show "n_enclosing_attr t \<noteq> None \<longleftrightarrow> n_enclosing t \<noteq> None"
    using s(3,4) by (auto simp: s(8,9) pool_when_Some pool_opt_Some)
qed

lemma front_attrs_named:
  assumes "\<And>i. h_sig_attr h = Some i \<Longrightarrow> P i" "\<And>i. n_scala_raw n = Some i \<Longrightarrow> P i" "\<And>i. n_scala_sig n = Some i \<Longrightarrow> P i"
    "\<And>i. n_inner_attr t = Some i \<Longrightarrow> P i" "\<And>i. n_bootstrap t = Some i \<Longrightarrow> P i" "\<And>i. n_enclosing_attr t = Some i \<Longrightarrow> P i"
  shows "list_all (\<lambda>(name, body). P name) (front_attrs h n t p)"
  using assms by (auto simp: front_attrs_def opt_attr_def split: option.split)

text \<open>
  A class whose counts fit their \<open>u16\<close> and whose visible Java annotations the reader can step over.  The
  pieces of a signature are counted too: \<open>65536\<close> of them hold four gigabytes.
\<close>

definition class_fits :: "class_emit \<Rightarrow> bool" where
  "class_fits c \<longleftrightarrow>
     length (interfaces c) < 65536 \<and> length (ce_fields c) < 65536 \<and> length (ce_methods c) < 65536 \<and>
     length (class_annotations c) < 65535 \<and> length (sig_chunks c) < 65536 \<and>
     list_all plain_annotation (filter an_visible (class_annotations c))"

lemma pool_texts:
  assumes "pool_good q sl" "pcount q \<noteq> 0xFFFF"
  shows "\<exists>cp. pool_read q cp \<and> (\<forall>pre rest. parse_pool (cursor_at pre (write_header q @ rest)) = Some (cp, cursor_at (pre @ write_header q) rest))"
proof -
  have inv: "pool_inv q sl" using assms by (simp add: pool_good_def)
  let ?cp = "\<lparr>tags = 0 # map fst sl, data = [] # map snd sl\<rparr>"
  have "parse_pool (cursor_at pre (write_header q @ rest)) = Some (?cp, cursor_at (pre @ write_header q) rest)" for pre rest
    using parse_header [of "pbytes q" sl "pcount q" "cursor_at pre (write_header q @ rest)" pre rest] inv
    by (simp add: pool_inv_def cursor_at_def write_header_def)
  moreover have "pool_read q ?cp" using pool_utf8_read [OF inv] by (simp add: pool_read_def bmp_def)
  ultimately show ?thesis by blast
qed

lemma rbind_Ok: "rbind m k = Ok y \<Longrightarrow> \<exists>x. m = Ok x \<and> k x = Ok y"
  by (cases m) simp_all

lemma write_with_pool_Ok:
  assumes "write_with_pool c p = Ok out"
  obtains h n s t annots ms p1 p2 p3 p4 p5 p6 where
    "intern_head c p = Some (h, p1)" "intern_names c p1 = Some (n, p2)" "intern_signature c p2 = Some (s, p3)"
    "intern_nesting c p3 = Some (t, p4)" "annotation_attrs (class_annotations c) (scala_sig_annot c s) p4 = Some (annots, p5)"
    "intern_methods c (ce_methods c) p5 = Ok (ms, p6)" "write_class c h n t annots ms p6 = Some out"
  using assms by (auto simp: write_with_pool_def unwrap_eq_Ok dest!: rbind_Ok)

lemma good_step: "pool_operation op \<Longrightarrow> op p = Some (x, p') \<Longrightarrow> \<exists>sl. pool_good p sl \<Longrightarrow> \<exists>sl. pool_good p' sl"
  by (meson pool_operation.good)

lemma part_length: "length (concat bs) < n \<Longrightarrow> b \<in> set bs \<Longrightarrow> length b < n"
  by (induction bs) auto

lemma write_class_reads:
  assumes i: "intern_head c p = Some (h, p1)" "intern_names c p1 = Some (n, p2)" "intern_signature c p2 = Some (sd, p3)"
    "intern_nesting c p3 = Some (t, p4)" "annotation_attrs (class_annotations c) (scala_sig_annot c sd) p4 = Some (annots, p5)"
    "intern_methods c (ce_methods c) p5 = Ok (ms, p6)" "write_class c h n t annots ms p6 = Some out"
    and good: "\<exists>sl. pool_good p sl"
    and c: "scala_signature c = Some s" "bmp s" "decode_annotation_string s = Some bs" "class_fits c"
    and out: "length out < 2 ^ 32" "pcount p6 \<noteq> 0xFFFF"
  shows "scala_signature_bytes_result out = Ok (Some bs)"
proof -
  have i6: "res_ok (intern_methods c (ce_methods c) p5) = Some (ms, p6)" by (simp add: i(6))
  have "\<exists>sl. pool_good p6 sl"
    using good
    by (rule good_step [OF intern_methods.pool_operation_axioms i6 good_step [OF annotation_attrs_operation i(5)
      good_step [OF intern_nesting.pool_operation_axioms i(4) good_step [OF intern_signature.pool_operation_axioms i(3)
      good_step [OF intern_names.pool_operation_axioms i(2) good_step [OF intern_head.pool_operation_axioms i(1)]]]]]])
  then obtain cp where cp: "pool_read p6 cp"
    "\<And>pre rest. parse_pool (cursor_at pre (write_header p6 @ rest)) = Some (cp, cursor_at (pre @ write_header p6) rest)"
    using pool_texts [OF _ out(2)] by blast
  have g5: "pool_grows p5 p6" by (rule intern_methods.grows [OF i6])
  have g4: "pool_grows p4 p6" using pool_operation.grows [OF annotation_attrs_operation i(5)] g5 by (rule pool_grows_trans)
  have g3: "pool_grows p3 p6" using intern_nesting.grows [OF i(4)] g4 by (rule pool_grows_trans)
  have g2: "pool_grows p2 p6" using intern_signature.grows [OF i(3)] g3 by (rule pool_grows_trans)
  have g1: "pool_grows p1 p6" using intern_names.grows [OF i(2)] g2 by (rule pool_grows_trans)
  note head = intern_head_ok [OF i(1)]
  have fits: "length (interfaces c) < 65536" "length (ce_fields c) < 65536" "length (ce_methods c) < 65536"
    "length (class_annotations c) < 65535" "length (sig_chunks c) < 65536" "list_all plain_annotation (filter an_visible (class_annotations c))"
    using c(4) by (simp_all add: class_fits_def)
  obtain b where b: "scala_sig_annot c sd = Some (1, b)"
    "\<And>pre. annotations_text (Suc 0) cp (cursor_at pre b) = Some (Some s)"
    using signature_annotation_reads [OF cp(1) c(1,2) fits(5) i(3) g3] by blast
  obtain ai body more where a: "annots = (ai, body) # more" "cp_utf8 cp ai = Some RVA" "signature_text body cp = Some (Some s)"
    using class_annots_signature [OF i(5) [unfolded b(1)] g5 cp(1) fits(6,4) b(2)] by blast
  have front: "list_all (\<lambda>(name, body). cp_utf8 cp name \<noteq> Some RVA) (front_attrs h n t p6)"
    by (rule front_attrs_named)
      (fact intern_head_named [OF i(1) g1 cp(1)] intern_names_named [OF i(2) g2 cp(1)] intern_nesting_named(1-3) [OF i(4) g4 cp(1)])+
  let ?front = "front_attrs h n t p6"
  define tail where "tail = write_attrs more @ write_attr (n_src n) (be16 (n_src_name n))"
  define k where "k = Suc (length more)"
  have k: "length (?front @ annots @ [(n_src n, be16 (n_src_name n))]) = length ?front + Suc k" by (simp add: a(1) k_def)
  obtain mb where mb: "write_methods h n t ms = Some mb" and o: "out = be32 0xCAFEBABE @ be16 0 @ be16 52 @ write_header p6 @
      be16 (ce_access c) @ be16 (h_this h) @ be16 (h_super h) @
      be16 (of_nat (length (h_ifaces h))) @ concat (map be16 (h_ifaces h)) @
      be16 (of_nat (length (h_fields h))) @ concat (map (write_field h) (h_fields h)) @
      be16 (of_nat (length ms)) @ mb @ be16 (of_nat (length ?front + Suc k)) @ write_attrs ?front @ write_attr ai body @ tail"
    using i(7) unfolding write_class_def write_class_attrs_list [OF head(4) intern_nesting_named(4) [OF i(4) g4 cp(1)]] k
    by (auto simp: Option.bind_eq_Some_conv a(1) tail_def)
  obtain bl where bl: "mb = concat bl" "list_all2 (\<lambda>m b. write_method h n t m = Some b) ms bl"
    using write_methods_list [OF mb] by blast
  have ms: "list_all (method_ok h) ms" "length ms = length (ce_methods c)" "length bl = length ms"
    using intern_methods_ok [OF head(5) i(6)] list_all2_lengthD [OF bl(2)] by simp_all
  have len: "length (concat (map (write_field h) (h_fields h))) < 2 ^ 32" "length (concat bl) < 2 ^ 32"
    "length (write_attrs ?front) < 2 ^ 32" "length body < 2 ^ 32"
    using out(1) by (simp_all add: o bl(1) write_attr_def)
  have fields: "list_all member_bytes (map (write_field h) (h_fields h))"
    using head(1) part_length [OF len(1)] write_field_member by (auto simp: list_all_iff)
  have "member_bytes (bl ! j)" if "j < length bl" for j
    using that bl(2) ms(1,3) part_length [OF len(2)]
    by (intro write_method_member [of h "ms ! j" n t]) (auto simp: list_all_length list_all2_conv_all_nth)
  then have methods: "list_all member_bytes bl" by (simp add: list_all_length)
  have attrs: "list_all (\<lambda>(name, body). cp_utf8 cp name \<noteq> Some RVA \<and> length body < 2 ^ 32) ?front"
    using front attrs_short [OF len(3)] by (auto simp: list_all_iff short_attrs_def)
  have "length annots \<le> 2" by (rule annotation_attrs_length [OF i(5)])
  then have n: "unat (of_nat (length ?front + Suc k) :: u16) = length ?front + Suc k"
    using front_attrs_length [of h n t p6] by (intro small_of_nat) (simp add: a(1) k_def)
  have "attributes_read
      (cursor_at pre (be16 (of_nat (length ?front + Suc k)) @ write_attrs ?front @ write_attr ai body @ tail)) cp = Ok (Some bs)" for pre
    unfolding attributes_read_def u2_reads ok_or_simps rbind.simps prod.case n attributes_skip [OF attrs]
    by (rule attribute_found [OF a(2) len(4) a(3) c(3)])
  then show ?thesis
    unfolding result_reads_format signature_read_def o bl(1) cursor_new_at
    using fits(1-3)
    by (simp add: u2_reads u4_reads cp(2) head(2,3) ms(2,3) small_of_nat u2_times [of "h_ifaces h", unfolded head(3)]
      skip_members_reads [OF fields] skip_members_reads [OF methods] del: map_append concat_append)
qed

section \<open>Properties\<close>

text \<open>
  C1: the class file writer and the class file reader agree: whatever the class holds (interfaces, fields,
  methods with code and annotations, nesting, bootstrap methods) and whatever its code interned before,
  the signature bytes the class was given are what the reader gets out of the file, split into constants
  or not.  The counts must fit their fields, the visible Java annotations of the class must be readable and no
  signatures themselves, and the constant pool must not be full.
\<close>

theorem class_signature_reads_back:
  assumes "run_ops ops pool_new = Some p" "write_with_pool c p = Ok out"
    and "scala_signature c = Some s" "encode_to_annotation_string bs = Some s"
    and "class_fits c" "length out < 2 ^ 32" "take 2 (drop 8 out) \<noteq> [0xFF, 0xFF]"
  shows "scala_signature_bytes_result out = Ok (Some bs)"
proof -
  obtain h n sd t annots ms p1 p2 p3 p4 p5 p6 where i:
    "intern_head c p = Some (h, p1)" "intern_names c p1 = Some (n, p2)" "intern_signature c p2 = Some (sd, p3)"
    "intern_nesting c p3 = Some (t, p4)" "annotation_attrs (class_annotations c) (scala_sig_annot c sd) p4 = Some (annots, p5)"
    "intern_methods c (ce_methods c) p5 = Ok (ms, p6)" "write_class c h n t annots ms p6 = Some out"
    using write_with_pool_Ok [OF assms(2)] by metis
  have "take 2 (drop 8 out) = be16 (pcount p6)"
    using i(7) by (auto simp: write_class_def write_header_def Option.bind_eq_Some_conv be32_def be16_def)
  then have full: "pcount p6 \<noteq> 0xFFFF" using assms(7) by (auto simp: be16_def)
  have "bmp s" using encode_ascii [OF assms(4)] by (auto simp: bmp_def list_all_iff intro!: is_scalar_small)
  moreover have "decode_annotation_string s = Some bs" using decode_encode [of bs] assms(4) by auto
  moreover have "\<exists>sl. pool_good p sl"
    using run_ops_good [OF assms(1), of "[]"] pool_inv_new by (auto simp: pool_good_def)
  ultimately show ?thesis using write_class_reads [OF i _ assms(3) _ _ assms(5,6) full] by blast
qed

definition sample_class :: class_emit where
  "sample_class = \<lparr>ce_access = 0x21, this_name = lit ''A'', super_name = lit ''B'', interfaces = [lit ''I''],
     ce_fields = [], ce_methods = [], ce_source = lit ''A'', scala_signature = Some [6, 1], scala_raw = False, inner_classes = [],
     enclosing_method = None, ce_signature = None, field_signatures = Mapping.empty, field_constants = Mapping.empty,
     class_annotations = [Annotation (lit ''LJ;'') True [(lit ''n'', EV_Str (lit ''v''))]],
     field_annotations = Mapping.empty\<rparr>"

lemma encode_mutf8_ascii: "0 < c \<Longrightarrow> c < 128 \<Longrightarrow> encode_mutf8 c = [of_nat c]"
proof -
  assume c: "0 < c" "c < 128"
  have "unat (of_nat c :: u32) = c" using c by (intro small_of_nat) simp
  then have "(of_nat c :: u32) \<noteq> 0" "(of_nat c :: u32) < 0x80" using c by (auto simp: word_less_nat_alt unat_eq_0)
  moreover have "ucast (of_nat c :: u32) = (of_nat c :: u8)" using c by (simp add: unsigned_of_nat take_bit_nat_eq_self)
  ultimately show ?thesis by (simp add: encode_mutf8_def)
qed

lemmas intern_simps = intern_head_def intern_field_def intern_names_def intern_signature_def intern_nesting_def
  annotation_attrs_def visible_attr_def pool_class_def pool_utf8_def pool_new_def new_index_def
  modified_utf8_bytes_def encode_mutf8_ascii MAX_UTF8_CONST_def emit_def pool_when_def pool_opt_def
  needs_sig_attr_def utf8_chunks_def modified_utf8_width_def sig_chunks_def long_sig_def has_bootstraps_def

lemmas write_simps = write_with_pool_def scala_sig_annot_def write_class_def write_header_def be32_def be16_def
  write_class_attrs_def write_attr_def index_attr_def

lemma sample_written: "case write_with_pool sample_class pool_new of
    Ok out \<Rightarrow> length out < 2 ^ 32 \<and> take 2 (drop 8 out) \<noteq> [0xFF, 0xFF] | _ \<Rightarrow> False"
  by (simp add: sample_class_def Let_def intern_simps write_simps)

lemma class_signature_witness:
  "\<exists>out. write_with_pool sample_class pool_new = Ok out \<and> scala_signature_bytes_result out = Ok (Some [5])"
proof -
  obtain out where out: "write_with_pool sample_class pool_new = Ok out" "length out < 2 ^ 32" "take 2 (drop 8 out) \<noteq> [0xFF, 0xFF]"
    using sample_written by (auto split: result.splits)
  have "encode_to_annotation_string [5] = Some [6, 1]" by code_simp
  moreover have "class_fits sample_class"
    by (simp add: sample_class_def class_fits_def sig_chunks_def utf8_chunks_def Let_def MAX_UTF8_CONST_def
      modified_utf8_width_def plain_annotation_def bmp_def signature_desc_def)
  ultimately show ?thesis
    using out class_signature_reads_back [of "[]" pool_new sample_class out "[6, 1]" "[5]"] by (simp add: sample_class_def)
qed

end
