(* ===== verification/Descriptors.thy ===== *)
theory Descriptors
  imports ClassWriter
begin

text \<open>
  The grammar of descriptors (JVMS 4.3), stated for itself, and the two loops of the class writer
  over the parameters of a method descriptor read by it.
\<close>

section \<open>The grammar\<close>

text \<open>
  A field type: a base type, a class or an array.  A name may have any character but the \<open>;\<close> that ends it and the \<open>)\<close>
  that ends the parameters, which no name the compiler encodes has.
\<close>

inductive field_type :: "str \<Rightarrow> bool" where
  base: "c \<in> set (lit ''BCDFIJSZ'') \<Longrightarrow> field_type [c]"
| class_type: "list_all is_scalar name \<Longrightarrow> chr CHR '';'' \<notin> set name \<Longrightarrow> chr CHR '')'' \<notin> set name \<Longrightarrow>
    field_type (chr CHR ''L'' # name @ [chr CHR '';''])"
| array_type: "field_type t \<Longrightarrow> field_type (chr CHR ''['' # t)"

text \<open>A method descriptor whose parameters have the types \<open>ts\<close>.\<close>

definition describes :: "str \<Rightarrow> str list \<Rightarrow> bool" where
  "describes desc ts \<longleftrightarrow> list_all field_type ts \<and>
     (\<exists>r. (r = lit ''V'' \<or> field_type r) \<and> desc = chr CHR ''('' # concat ts @ chr CHR '')'' # r)"

section \<open>Bytes of field types\<close>

lemma field_type_shape:
  "field_type t \<Longrightarrow> \<exists>n u. t = replicate n (chr CHR ''['') @ u \<and>
     ((\<exists>c\<in>set (lit ''BCDFIJSZ''). u = [c]) \<or>
      (\<exists>name. list_all is_scalar name \<and> chr CHR '';'' \<notin> set name \<and> u = chr CHR ''L'' # name @ [chr CHR '';'']))"
proof (induction rule: field_type.induct)
  case (base c)
  then show ?case by (intro exI [of _ 0] exI [of _ "[c]"]) simp
next
  case (class_type name)
  then show ?case by (intro exI [of _ 0] exI [of _ "chr CHR ''L'' # name @ [chr CHR '';'']"]) simp
next
  case (array_type t)
  then obtain n u where "t = replicate n (chr CHR ''['') @ u"
     "(\<exists>c\<in>set (lit ''BCDFIJSZ''). u = [c]) \<or>
      (\<exists>name. list_all is_scalar name \<and> chr CHR '';'' \<notin> set name \<and> u = chr CHR ''L'' # name @ [chr CHR '';''])" by blast
  then show ?case by (intro exI [of _ "Suc n"] exI [of _ u]) simp
qed

lemma field_type_no_paren: "field_type t \<Longrightarrow> chr CHR '')'' \<notin> set t"
  by (induction rule: field_type.induct) (auto simp: lit_def)

lemma field_type_nonempty: "field_type t \<Longrightarrow> t \<noteq> []"
  by (cases rule: field_type.cases) auto

lemma utf8_char_no_semicolon:
  assumes "is_scalar c" "c \<noteq> 0x3B"
  shows "(0x3B :: u8) \<notin> set (utf8_char c)"
proof -
  have c: "c < 0x110000" using assms by (auto simp: is_scalar_def)
  have eq: "(0x3B :: u8) = of_nat n \<longleftrightarrow> n = 0x3B" if "n < 256" for n
    using that by (auto simp: word_unat_eq_iff unat_of_nat take_bit_nat_eq_self)
  have "0xC0 + c div 64 < 256" if "c < 0x800" using that by linarith
  moreover have "0xE0 + c div 4096 < 256" if "c < 0x10000" using that by linarith
  moreover have "0xF0 + c div 262144 < 256" using c by linarith
  moreover have "0x80 + n mod 64 < 256" for n :: nat by (simp add: trans_less_add2)
  ultimately show ?thesis using assms(2) by (auto simp: utf8_char_def eq simp del: of_nat_add)
qed

lemma as_bytes_append: "as_bytes (s @ t) = as_bytes s @ as_bytes t"
  by (simp add: as_bytes_def)

lemma as_bytes_replicate: "as_bytes (replicate n 0x5B) = replicate n 0x5B"
proof (induction n)
  case (Suc n)
  then show ?case by (simp only: replicate_Suc as_bytes_simps(2) Suc.IH) (simp add: utf8_char_def)
qed (simp add: as_bytes_simps)

lemma as_bytes_no_semicolon: "list_all is_scalar s \<Longrightarrow> chr CHR '';'' \<notin> set s \<Longrightarrow> (0x3B :: u8) \<notin> set (as_bytes s)"
  using utf8_char_no_semicolon by (auto simp: as_bytes_def list_all_iff)

section \<open>One turn of the loops\<close>

lemma scan_while_to:
  "i \<le> j \<Longrightarrow> j \<le> stop \<Longrightarrow> (\<And>k. i \<le> k \<Longrightarrow> k < j \<Longrightarrow> P (bs ! k)) \<Longrightarrow> j = stop \<or> \<not> P (bs ! j) \<Longrightarrow> scan_while P bs stop i = j"
proof (induction "j - i" arbitrary: i)
  case 0
  then show ?case by (subst scan_while.simps) auto
next
  case (Suc d)
  then show ?case by (subst scan_while.simps) auto
qed

text \<open>Past the brackets, and past the type under them.\<close>

lemma one_type:
  assumes "field_type t" "bs = xs @ as_bytes t @ ys" "length xs + str_len t \<le> stop"
    "j = scan_while (\<lambda>b. b = byte CHR ''['') bs stop (length xs)"
  shows "(if j < stop \<and> bs ! j = byte CHR ''L'' then scan_while (\<lambda>b. b \<noteq> byte CHR '';'') bs stop j else j) + 1 = length xs + str_len t"
proof -
  obtain n u where t: "t = replicate n (chr CHR ''['') @ u"
    "(\<exists>c\<in>set (lit ''BCDFIJSZ''). u = [c]) \<or>
      (\<exists>name. list_all is_scalar name \<and> chr CHR '';'' \<notin> set name \<and> u = chr CHR ''L'' # name @ [chr CHR '';''])"
    using field_type_shape [OF assms(1)] by blast
  have bs: "bs = xs @ replicate n 0x5B @ as_bytes u @ ys" by (simp add: assms(2) t(1) as_bytes_append as_bytes_replicate)
  have len: "str_len t = n + str_len u" using as_bytes_simps(3) [of t] by (simp add: t(1) as_bytes_append as_bytes_replicate as_bytes_simps(3))
  from t(2) show ?thesis
  proof
    assume "\<exists>c\<in>set (lit ''BCDFIJSZ''). u = [c]"
    then obtain c where c: "c \<in> set (lit ''BCDFIJSZ'')" "u = [c]" by blast
    then have u: "as_bytes u = [of_nat c]" "str_len u = 1" "(of_nat c :: u8) \<noteq> 0x5B" "(of_nat c :: u8) \<noteq> 0x4C"
      by (auto simp: lit_def as_bytes_simps utf8_char_def len_utf8_def)
    have "j = length xs + n" unfolding assms(4)
      by (rule scan_while_to) (use assms(3) len u in \<open>auto simp: bs nth_append\<close>)
    then show ?thesis using u len by (simp add: bs nth_append)
  next
    assume "\<exists>name. list_all is_scalar name \<and> chr CHR '';'' \<notin> set name \<and> u = chr CHR ''L'' # name @ [chr CHR '';'']"
    then obtain name where name: "list_all is_scalar name" "chr CHR '';'' \<notin> set name" "u = chr CHR ''L'' # name @ [chr CHR '';'']" by blast
    have u: "as_bytes u = 0x4C # as_bytes name @ [0x3B]" "str_len u = str_len name + 2"
      using as_bytes_simps(3) [of u] by (simp_all add: name(3) as_bytes_append as_bytes_simps utf8_char_def)
    have no: "as_bytes name ! k \<noteq> 0x3B" if "k < str_len name" for k
      using as_bytes_no_semicolon [OF name(1,2)] that nth_mem [of k "as_bytes name"] by (metis as_bytes_simps(3))
    have j: "j = length xs + n" unfolding assms(4)
      by (rule scan_while_to) (use assms(3) len u in \<open>auto simp: bs nth_append\<close>)
    have "scan_while (\<lambda>b. b \<noteq> byte CHR '';'') bs stop j = length xs + n + 1 + str_len name"
      by (rule scan_while_to) (use assms(3) len u no j in \<open>auto simp: bs nth_append nth_Cons as_bytes_simps(3) split: nat.split\<close>)
    then show ?thesis using j u len assms(3) by (simp add: bs nth_append)
  qed
qed

lemma loops_on_types:
  assumes "list_all field_type ts" "stop = str_len (pre @ concat ts)"
  shows "param_loop (pre @ concat ts @ r) (as_bytes (pre @ concat ts @ r)) stop (str_len pre) = Some ts"
    and "count_loop (as_bytes (pre @ concat ts @ r)) stop (str_len pre) n = n + length ts"
proof -
  have "param_loop (pre @ concat ts @ r) (as_bytes (pre @ concat ts @ r)) stop (str_len pre) = Some ts \<and>
      count_loop (as_bytes (pre @ concat ts @ r)) stop (str_len pre) n = n + length ts"
    using assms
  proof (induction ts arbitrary: pre n)
    case Nil
    then show ?case by (simp add: param_loop.simps count_loop.simps)
  next
    case (Cons t ts)
    let ?desc = "pre @ concat (t # ts) @ r"
    have t: "field_type t" "t \<noteq> []" using Cons.prems(1) field_type_nonempty by auto
    have stop: "str_len pre + str_len t \<le> stop" using Cons.prems(2) by simp
    have more: "str_len pre < stop" using stop t(2) by (metis add_0_right add_less_cancel_left gr_zeroI less_le_trans str_len_eq_0)
    have turn: "(if j < stop \<and> as_bytes ?desc ! j = byte CHR ''L'' then scan_while (\<lambda>b. b \<noteq> byte CHR '';'') (as_bytes ?desc) stop j else j) + 1
        = str_len (pre @ t)" if "j = scan_while (\<lambda>b. b = byte CHR ''['') (as_bytes ?desc) stop (str_len pre)" for j
      using one_type [OF t(1), of "as_bytes ?desc" "as_bytes pre" "as_bytes (concat ts @ r)" stop j] stop that
      by (simp add: as_bytes_append as_bytes_simps(3))
    have slice: "slice_str ?desc (str_len pre) (min (str_len (pre @ t)) stop) = Some t"
      unfolding slice_str_Some using stop by (intro conjI exI [of _ pre] exI [of _ "concat ts @ r"]) (simp_all add: min_absorb1)
    have ih: "param_loop ?desc (as_bytes ?desc) stop (str_len (pre @ t)) = Some ts"
      "count_loop (as_bytes ?desc) stop (str_len (pre @ t)) (n + 1) = n + 1 + length ts"
      using Cons.IH [of "pre @ t" "n + 1"] Cons.prems by simp_all
    show ?case
      unfolding param_loop.simps [of ?desc _ _ "str_len pre"] count_loop.simps [of _ _ "str_len pre"] Let_def turn [OF refl]
      using more slice ih by simp
  qed
  then show "param_loop (pre @ concat ts @ r) (as_bytes (pre @ concat ts @ r)) stop (str_len pre) = Some ts"
    and "count_loop (as_bytes (pre @ concat ts @ r)) stop (str_len pre) n = n + length ts" by simp_all
qed

lemma find_char_append: "ch \<notin> set s \<Longrightarrow> find_char (s @ ch # t) ch = Some (str_len s)"
  by (induction s) auto

lemma parameters_described:
  assumes "describes desc ts"
  shows "param_descriptors desc = Some ts" "method_parameter_count desc = length ts"
proof -
  obtain r where r: "desc = [chr CHR ''(''] @ concat ts @ chr CHR '')'' # r" "list_all field_type ts"
    using assms by (auto simp: describes_def)
  have "chr CHR '')'' \<notin> set ([chr CHR ''(''] @ concat ts)"
    using r(2) field_type_no_paren by (auto simp: list_all_iff)
  then have f: "find_char desc (chr CHR '')'') = Some (str_len ([chr CHR ''(''] @ concat ts))"
    using find_char_append [of "chr CHR '')''" "[chr CHR ''(''] @ concat ts" r] by (simp add: r(1))
  have s: "params_start (as_bytes desc) = str_len [chr CHR ''('']"
    by (simp add: r(1) params_start_def as_bytes_simps utf8_char_def len_utf8_def)
  note loops = loops_on_types [OF r(2) refl, of "[chr CHR ''('']" "chr CHR '')'' # r", folded r(1)]
  show "param_descriptors desc = Some ts" by (simp only: param_descriptors_def f option.case s loops)
  show "method_parameter_count desc = length ts" by (simp only: method_parameter_count_def f option.case s loops add_0)
qed

end
