(* ===== verification/ClassWriterParams.thy ===== *)
theory ClassWriterParams
  imports ClassWriterSound Descriptors
begin

text \<open>
  The errors of \<open>write_with_pool\<close>: what the class file format asks of a method's \<open>MethodParameters\<close>, said without the
  writer's own checks, is what the writer lets through.
\<close>

section \<open>What the format asks\<close>

text \<open>
  JVMS 4.7.24: one flag word per name and, when there are names, one name per parameter of the descriptor; no flag but
  \<open>ACC_FINAL\<close> (bit 4), \<open>ACC_SYNTHETIC\<close> (bit 12) and \<open>ACC_MANDATED\<close> (bit 15); the count is a byte.
\<close>

definition params_legal :: "method_info \<Rightarrow> bool" where
  "params_legal m \<longleftrightarrow>
     length (param_names m) = length (param_flags m) \<and>
     (param_names m = [] \<or> (\<exists>ts. describes (md_desc m) ts \<and> length (param_names m) = length ts)) \<and>
     (\<forall>f\<in>set (param_flags m). \<forall>i<16. bit f i \<longrightarrow> i = 4 \<or> i = 12 \<or> i = 15) \<and>
     length (param_names m) < 256"

lemma legal_bits:
  fixes f :: u16
  shows "f AND NOT (ACC_FINAL OR ACC_SYNTHETIC OR ACC_MANDATED) = 0 \<longleftrightarrow> (\<forall>i<16. bit f i \<longrightarrow> i = 4 \<or> i = 12 \<or> i = 15)"
proof -
  have c: "bit (ACC_FINAL OR ACC_SYNTHETIC OR ACC_MANDATED) i \<longleftrightarrow> i = 4 \<or> i = 12 \<or> i = 15" if "i < 16" for i
  proof -
    have "i \<in> set [0..<16]" using that by simp
    then show ?thesis by (auto simp: upt_rec ACC_FINAL_def ACC_SYNTHETIC_def ACC_MANDATED_def)
  qed
  have "f AND NOT (ACC_FINAL OR ACC_SYNTHETIC OR ACC_MANDATED) = 0 \<longleftrightarrow>
      (\<forall>i<16. \<not> (bit f i \<and> \<not> bit (ACC_FINAL OR ACC_SYNTHETIC OR ACC_MANDATED) i))"
    by (auto simp: bit_eq_iff bit_simps dest: bit_imp_le_length)
  then show ?thesis using c by auto
qed

lemma flags_legal: "\<not> illegal_flags m \<longleftrightarrow> (\<forall>f\<in>set (param_flags m). \<forall>i<16. bit f i \<longrightarrow> i = 4 \<or> i = 12 \<or> i = 15)"
  by (simp only: illegal_flags_def list_ex_iff legal_bits [symmetric]) blast

lemma legal_iff:
  assumes "describes (md_desc m) ts"
  shows "params_legal m \<longleftrightarrow> \<not> bad_param_count m \<and> \<not> illegal_flags m \<and> length (param_names m) \<le> 255"
proof -
  have "(\<exists>ts'. describes (md_desc m) ts' \<and> n = length ts') \<longleftrightarrow> n = method_parameter_count (md_desc m)" for n
    using parameters_described(2) assms by metis
  then show ?thesis
    unfolding params_legal_def flags_legal [symmetric] bad_param_count_def by auto
qed

lemma legal_passes: "params_legal m \<Longrightarrow> \<not> bad_param_count m \<and> \<not> illegal_flags m \<and> length (param_names m) \<le> 255"
  unfolding params_legal_def flags_legal [symmetric] bad_param_count_def
  using parameters_described(2) by force

section \<open>The errors of the writer\<close>

lemma unwrap_not_Err [simp]: "unwrap m \<noteq> Err e"
  by (cases m) simp_all

lemma rbind_eq_Err: "rbind m k = Err e \<longleftrightarrow> m = Err e \<or> (\<exists>x. m = Ok x \<and> k x = Err e)"
  by (cases m) simp_all

lemma intern_method_Err:
  assumes "intern_method c m p = Err e"
  shows "\<not> params_legal m"
proof
  assume "params_legal m"
  then have m: "\<not> bad_param_count m" "\<not> illegal_flags m" "length (param_names m) \<le> 255" using legal_passes by blast+
  show False
  proof (cases "method_front m p")
    case None
    then show False using assms by (simp add: intern_method_def)
  next
    case (Some y)
    then obtain n d annots sig r where y: "method_front m p = Some ((n, d, annots, sig), r)" by (cases y) auto
    show False
    proof (cases "pool_all intern_param (zip (param_names m) (param_flags m)) r")
      case None
      then show False using assms m(1,2) by (simp add: intern_method_def y)
    next
      case (Some z)
      then obtain params q where z: "pool_all intern_param (zip (param_names m) (param_flags m)) r = Some (params, q)" by (cases z) auto
      have "\<not> 255 < length params" using pool_all_length [OF z] m(3) by simp
      then have "rbind (unwrap (lvt_entries c m q)) (\<lambda>(lvt, p).
          Ok (\<lparr>m_access = md_access m, m_name = n, m_desc = d, m_code = md_code m, m_annots = annots,
               m_sig = sig, m_params = params, m_lvt = lvt\<rparr>, p)) = Err e"
        using assms m(1,2) by (simp add: intern_method_def y z)
      then show False by (cases "lvt_entries c m q") auto
    qed
  qed
qed

lemma intern_methods_Err: "intern_methods c ms p = Err e \<Longrightarrow> \<not> list_all params_legal ms"
  by (induction ms arbitrary: p) (auto simp: rbind_eq_Err dest: intern_method_Err)

lemma intern_methods_legal:
  "intern_methods c ms p = Ok (ds, p') \<Longrightarrow> list_all (\<lambda>m. \<exists>ts. describes (md_desc m) ts) ms \<Longrightarrow> list_all params_legal ms"
  by (induction ms arbitrary: p ds) (auto simp: rbind_eq_Ok legal_iff dest: intern_method_Ok(2-))

section \<open>Properties\<close>

text \<open>
  C15: a class whose methods have descriptors is written only if every method's \<open>MethodParameters\<close> are as the class
  file format wants them (one flag word per name, one name per parameter type of the descriptor, no flag but \<open>final\<close>,
  \<open>synthetic\<close> and \<open>mandated\<close>, fewer than 256), and the writer's only error is a method that breaks this.  The format
  is stated for itself: the parameters by the grammar of descriptors, the flags by the positions of their bits.
\<close>

theorem written_parameters_legal:
  assumes "list_all (\<lambda>m. \<exists>ts. describes (md_desc m) ts) (ce_methods c)"
  shows "case write_with_pool c p of
     Ok out \<Rightarrow> list_all params_legal (ce_methods c)
   | Err e \<Rightarrow> \<not> list_all params_legal (ce_methods c)
   | Panic \<Rightarrow> True"
proof (cases "write_with_pool c p")
  case (Ok out)
  then show ?thesis using assms by (auto elim!: write_with_pool_Ok dest: intern_methods_legal)
next
  case (Err e)
  then have "\<exists>q. intern_methods c (ce_methods c) q = Err e"
    by (auto simp: write_with_pool_def rbind_eq_Err unwrap_eq_Ok)
  with Err show ?thesis using intern_methods_Err by auto
qed simp

definition one_method :: "u16 \<Rightarrow> class_emit" where
  "one_method flags = sample_class\<lparr>ce_methods := [
     \<lparr>md_access = 1, md_name = lit ''f'', md_desc = lit ''(I)V'', md_code = None, java_annots = [], param_annots = [],
      md_signature = None, param_names = [Some (lit ''x'')], param_flags = [flags], local_names = []\<rparr>]\<rparr>"

text \<open>An abstract \<open>void f(int x)\<close>, with a flag that is legal and one that is not.\<close>

lemma one_count: "method_parameter_count [40, 73, 41, 86] = 1"
  by code_simp

lemmas one_method_simps = one_method_def sample_class_def Let_def intern_simps write_simps intern_method_def method_front_def
  param_annotation_attrs_def param_visible_attr_def bad_param_count_def one_count illegal_flags_def lvt_entries_def
  intern_param_def ACC_FINAL_def ACC_SYNTHETIC_def ACC_MANDATED_def write_method_def write_method_params_def

lemma one_method_written: "case write_with_pool (one_method 0x10) pool_new of Ok out \<Rightarrow> True | _ \<Rightarrow> False"
  by (simp add: one_method_simps)

lemma one_method_refused: "case write_with_pool (one_method 0x11) pool_new of Err e \<Rightarrow> True | _ \<Rightarrow> False"
  by (simp add: one_method_simps)

lemma one_method_describes: "list_all (\<lambda>m. \<exists>ts. describes (md_desc m) ts) (ce_methods (one_method flags))"
proof -
  have "describes (lit ''(I)V'') [lit ''I'']"
    using base [of "chr CHR ''I''"] by (simp add: describes_def lit_def)
  then show ?thesis by (auto simp: one_method_def)
qed

lemma written_parameters_witness:
  "(\<exists>out. write_with_pool (one_method 0x10) pool_new = Ok out \<and> list_all params_legal (ce_methods (one_method 0x10))) \<and>
   (\<exists>e. write_with_pool (one_method 0x11) pool_new = Err e \<and> \<not> list_all params_legal (ce_methods (one_method 0x11)))"
  using written_parameters_legal [OF one_method_describes [of "0x10"], where p = pool_new] one_method_written
    written_parameters_legal [OF one_method_describes [of "0x11"], where p = pool_new] one_method_refused
  by (simp split: result.splits)

text \<open>
  C16: cutting the parameters out of a descriptor and counting them, two separate loops over its bytes, are exact:
  for every method descriptor of the grammar, with whatever base types, classes (of any characters) and arrays, the
  pieces are its parameter types in order, and the count is their number.
\<close>

theorem parameter_lists_exact:
  assumes "describes desc ts"
  shows "param_descriptors desc = Some ts \<and> method_parameter_count desc = length ts"
  using parameters_described [OF assms] ..

lemma described_example: "describes (lit ''([LA;IJ)V'') [lit ''[LA;'', lit ''I'', lit ''J'']"
proof -
  have "field_type (chr CHR ''['' # chr CHR ''L'' # lit ''A'' @ [chr CHR '';''])"
    by (intro array_type class_type) (simp_all add: lit_def is_scalar_def)
  moreover have "field_type (lit ''I'')" "field_type (lit ''J'')"
    using base [of "chr CHR ''I''"] base [of "chr CHR ''J''"] by (simp_all add: lit_def)
  ultimately show ?thesis by (simp add: describes_def lit_def)
qed

lemma parameter_lists_witness:
  "param_descriptors (lit ''([LA;IJ)V'') = Some [lit ''[LA;'', lit ''I'', lit ''J''] \<and>
   method_parameter_count (lit ''([LA;IJ)V'') = 3"
  using parameter_lists_exact [OF described_example] by simp

end
