(* ===== verification/Pickle.thy ===== *)
theory Pickle
  imports Codec
begin

text \<open>
  \<open>crates/pickle/src/read.rs\<close>: the reader of scalac's pickle format.  A reading step takes the reader
  and returns a value with the reader moved, an error that says where, or a panic.  \<open>safe\<close> and
  \<open>local_reading\<close> are the contracts of a step, closed under the combinators the steps are built of.
\<close>

unbundle bit_operations_syntax

section \<open>Tags\<close>

abbreviation TERMname :: u8 where "TERMname \<equiv> 1"
abbreviation TYPEname :: u8 where "TYPEname \<equiv> 2"
abbreviation NONEsym :: u8 where "NONEsym \<equiv> 3"
abbreviation TYPEsym :: u8 where "TYPEsym \<equiv> 4"
abbreviation ALIASsym :: u8 where "ALIASsym \<equiv> 5"
abbreviation CLASSsym :: u8 where "CLASSsym \<equiv> 6"
abbreviation MODULEsym :: u8 where "MODULEsym \<equiv> 7"
abbreviation VALsym :: u8 where "VALsym \<equiv> 8"
abbreviation EXTref :: u8 where "EXTref \<equiv> 9"
abbreviation EXTMODCLASSref :: u8 where "EXTMODCLASSref \<equiv> 10"
abbreviation NOtpe :: u8 where "NOtpe \<equiv> 11"
abbreviation NOPREFIXtpe :: u8 where "NOPREFIXtpe \<equiv> 12"
abbreviation THIStpe :: u8 where "THIStpe \<equiv> 13"
abbreviation SINGLEtpe :: u8 where "SINGLEtpe \<equiv> 14"
abbreviation CONSTANTtpe :: u8 where "CONSTANTtpe \<equiv> 15"
abbreviation TYPEREFtpe :: u8 where "TYPEREFtpe \<equiv> 16"
abbreviation TYPEBOUNDStpe :: u8 where "TYPEBOUNDStpe \<equiv> 17"
abbreviation REFINEDtpe :: u8 where "REFINEDtpe \<equiv> 18"
abbreviation CLASSINFOtpe :: u8 where "CLASSINFOtpe \<equiv> 19"
abbreviation METHODtpe :: u8 where "METHODtpe \<equiv> 20"
abbreviation POLYtpe :: u8 where "POLYtpe \<equiv> 21"
abbreviation IMPLICITMETHODtpe :: u8 where "IMPLICITMETHODtpe \<equiv> 22"
abbreviation LITERAL :: u8 where "LITERAL \<equiv> 23"
abbreviation LITERALunit :: u8 where "LITERALunit \<equiv> 24"
abbreviation LITERALboolean :: u8 where "LITERALboolean \<equiv> 25"
abbreviation LITERALbyte :: u8 where "LITERALbyte \<equiv> 26"
abbreviation LITERALshort :: u8 where "LITERALshort \<equiv> 27"
abbreviation LITERALchar :: u8 where "LITERALchar \<equiv> 28"
abbreviation LITERALint :: u8 where "LITERALint \<equiv> 29"
abbreviation LITERALlong :: u8 where "LITERALlong \<equiv> 30"
abbreviation LITERALfloat :: u8 where "LITERALfloat \<equiv> 31"
abbreviation LITERALdouble :: u8 where "LITERALdouble \<equiv> 32"
abbreviation LITERALstring :: u8 where "LITERALstring \<equiv> 33"
abbreviation LITERALnull :: u8 where "LITERALnull \<equiv> 34"
abbreviation LITERALclass :: u8 where "LITERALclass \<equiv> 35"
abbreviation LITERALenum :: u8 where "LITERALenum \<equiv> 36"
abbreviation LITERALsymbol :: u8 where "LITERALsymbol \<equiv> 37"
abbreviation SYMANNOT :: u8 where "SYMANNOT \<equiv> 40"
abbreviation CHILDREN :: u8 where "CHILDREN \<equiv> 41"
abbreviation ANNOTATEDtpe :: u8 where "ANNOTATEDtpe \<equiv> 42"
abbreviation ANNOTINFO :: u8 where "ANNOTINFO \<equiv> 43"
abbreviation ANNOTARGARRAY :: u8 where "ANNOTARGARRAY \<equiv> 44"
abbreviation SUPERtpe :: u8 where "SUPERtpe \<equiv> 46"
abbreviation DEBRUIJNINDEXtpe :: u8 where "DEBRUIJNINDEXtpe \<equiv> 47"
abbreviation EXISTENTIALtpe :: u8 where "EXISTENTIALtpe \<equiv> 48"
abbreviation TREE :: u8 where "TREE \<equiv> 49"
abbreviation MODIFIERS :: u8 where "MODIFIERS \<equiv> 50"
abbreviation FIRST_SYM_TAG :: u8 where "FIRST_SYM_TAG \<equiv> 3"
abbreviation LAST_SYM_TAG :: u8 where "LAST_SYM_TAG \<equiv> 8"
abbreviation LAST_EXT_SYM_TAG :: u8 where "LAST_EXT_SYM_TAG \<equiv> 10"
abbreviation EMPTYtree :: u8 where "EMPTYtree \<equiv> 1"
abbreviation PACKAGEtree :: u8 where "PACKAGEtree \<equiv> 2"
abbreviation CLASStree :: u8 where "CLASStree \<equiv> 3"
abbreviation MODULEtree :: u8 where "MODULEtree \<equiv> 4"
abbreviation VALDEFtree :: u8 where "VALDEFtree \<equiv> 5"
abbreviation DEFDEFtree :: u8 where "DEFDEFtree \<equiv> 6"
abbreviation TYPEDEFtree :: u8 where "TYPEDEFtree \<equiv> 7"
abbreviation LABELtree :: u8 where "LABELtree \<equiv> 8"
abbreviation IMPORTtree :: u8 where "IMPORTtree \<equiv> 9"
abbreviation DOCDEFtree :: u8 where "DOCDEFtree \<equiv> 11"
abbreviation TEMPLATEtree :: u8 where "TEMPLATEtree \<equiv> 12"
abbreviation BLOCKtree :: u8 where "BLOCKtree \<equiv> 13"
abbreviation CASEtree :: u8 where "CASEtree \<equiv> 14"
abbreviation ALTERNATIVEtree :: u8 where "ALTERNATIVEtree \<equiv> 16"
abbreviation STARtree :: u8 where "STARtree \<equiv> 17"
abbreviation BINDtree :: u8 where "BINDtree \<equiv> 18"
abbreviation UNAPPLYtree :: u8 where "UNAPPLYtree \<equiv> 19"
abbreviation ARRAYVALUEtree :: u8 where "ARRAYVALUEtree \<equiv> 20"
abbreviation FUNCTIONtree :: u8 where "FUNCTIONtree \<equiv> 21"
abbreviation ASSIGNtree :: u8 where "ASSIGNtree \<equiv> 22"
abbreviation IFtree :: u8 where "IFtree \<equiv> 23"
abbreviation MATCHtree :: u8 where "MATCHtree \<equiv> 24"
abbreviation RETURNtree :: u8 where "RETURNtree \<equiv> 25"
abbreviation TREtree :: u8 where "TREtree \<equiv> 26"
abbreviation THROWtree :: u8 where "THROWtree \<equiv> 27"
abbreviation NEWtree :: u8 where "NEWtree \<equiv> 28"
abbreviation TYPEDtree :: u8 where "TYPEDtree \<equiv> 29"
abbreviation TYPEAPPLYtree :: u8 where "TYPEAPPLYtree \<equiv> 30"
abbreviation APPLYtree :: u8 where "APPLYtree \<equiv> 31"
abbreviation APPLYDYNAMICtree :: u8 where "APPLYDYNAMICtree \<equiv> 32"
abbreviation SUPERtree :: u8 where "SUPERtree \<equiv> 33"
abbreviation THIStree :: u8 where "THIStree \<equiv> 34"
abbreviation SELECTtree :: u8 where "SELECTtree \<equiv> 35"
abbreviation IDENTtree :: u8 where "IDENTtree \<equiv> 36"
abbreviation LITERALtree :: u8 where "LITERALtree \<equiv> 37"
abbreviation TYPEtree :: u8 where "TYPEtree \<equiv> 38"
abbreviation ANNOTATEDtree :: u8 where "ANNOTATEDtree \<equiv> 39"
abbreviation SINGLETONTYPEtree :: u8 where "SINGLETONTYPEtree \<equiv> 40"
abbreviation SELECTFROMTYPEtree :: u8 where "SELECTFROMTYPEtree \<equiv> 41"
abbreviation COMPOUNDTYPEtree :: u8 where "COMPOUNDTYPEtree \<equiv> 42"
abbreviation APPLIEDTYPEtree :: u8 where "APPLIEDTYPEtree \<equiv> 43"
abbreviation TYPEBOUNDStree :: u8 where "TYPEBOUNDStree \<equiv> 44"
abbreviation EXISTENTIALTYPEtree :: u8 where "EXISTENTIALTYPEtree \<equiv> 45"

section \<open>Errors\<close>

type_synonym Idx = nat

text \<open>One constructor for each message; the header is entry \<open>None\<close> (\<open>usize::MAX\<close> in the source).\<close>

datatype ReadMessage =
    UnexpectedEnd
  | NatTooLong
  | NatOverflow u64
  | ConstantTooLong nat
  | UnsupportedMajor nat
  | EntryOverruns nat
  | NotConsumed nat nat
  | RefOutOfRange Idx nat
  | UnknownTag u8
  | UnknownTreeTag u8

record ReadError =
  entry :: "nat option"
  err_tag :: u8
  err_offset :: nat
  message :: ReadMessage

section \<open>Entries\<close>

record SymInfo =
  si_name :: Idx
  si_owner :: Idx
  si_flags :: u64
  si_private_within :: "Idx option"
  si_info :: Idx

definition sym_info_has :: "SymInfo \<Rightarrow> u64 \<Rightarrow> bool" where
  "sym_info_has i flag = (si_flags i AND flag \<noteq> 0)"

text \<open>Floating point constants are their bits.\<close>

datatype Constant =
    Const_Unit | Const_Boolean bool | Const_Byte "8 word" | Const_Short "16 word" | Const_Char u32
  | Const_Int i32 | Const_Long i64 | Const_Float u32 | Const_Double u64 | Const_Str Idx | Const_Null
  | Const_Class Idx | Const_Enum Idx | Const_Symbol Idx

record AnnotInfo =
  ai_tpe :: Idx
  ai_args :: "Idx list"
  ai_assocs :: "(Idx \<times> Idx) list"

datatype Tree =
    Tree_Empty
  | Tree_PackageDef Idx Idx Idx Idx "Idx list"
  | Tree_ClassDef Idx Idx Idx Idx "Idx list"
  | Tree_ModuleDef Idx Idx Idx Idx
  | Tree_ValDef Idx Idx Idx Idx Idx
  | Tree_DefDef Idx Idx Idx "Idx list" "Idx list list" Idx Idx
  | Tree_TypeDef Idx Idx Idx Idx "Idx list"
  | Tree_LabelDef Idx Idx Idx "Idx list"
  | Tree_Import Idx Idx "(Idx \<times> Idx) list"
  | Tree_DocDef Idx Idx
  | Tree_Template Idx "Idx list" Idx "Idx list"
  | Tree_Block Idx "Idx list"
  | Tree_CaseDef Idx Idx Idx
  | Tree_Alternative "Idx list"
  | Tree_Star Idx
  | Tree_Bind Idx Idx Idx
  | Tree_UnApply Idx "Idx list"
  | Tree_ArrayValue Idx "Idx list"
  | Tree_Function Idx Idx "Idx list"
  | Tree_Assign Idx Idx
  | Tree_If Idx Idx Idx
  | Tree_Match Idx "Idx list"
  | Tree_Return Idx Idx
  | Tree_Try Idx Idx "Idx list"
  | Tree_Throw Idx
  | Tree_New Idx
  | Tree_Typed Idx Idx
  | Tree_TypeApply Idx "Idx list"
  | Tree_Apply Idx "Idx list"
  | Tree_ApplyDynamic Idx Idx "Idx list"
  | Tree_Super Idx Idx Idx
  | Tree_This Idx Idx
  | Tree_Select Idx Idx Idx
  | Tree_Ident Idx Idx
  | Tree_Literal Idx
  | Tree_TypeTree
  | Tree_Annotated Idx Idx
  | Tree_SingletonTypeTree Idx
  | Tree_SelectFromTypeTree Idx Idx
  | Tree_CompoundTypeTree Idx
  | Tree_AppliedTypeTree Idx "Idx list"
  | Tree_TypeBoundsTree Idx Idx
  | Tree_ExistentialTypeTree Idx "Idx list"

datatype Entry =
    Entry_TermName str
  | Entry_TypeName str
  | Entry_NoneSym
  | Entry_TypeSym SymInfo
  | Entry_AliasSym SymInfo
  | Entry_ClassSym SymInfo "Idx option"
  | Entry_ModuleSym SymInfo "Idx option"
  | Entry_ValSym SymInfo "Idx option"
  | Entry_ExtRef Idx "Idx option"
  | Entry_ExtModClassRef Idx "Idx option"
  | Entry_NoTpe
  | Entry_NoPrefixTpe
  | Entry_ThisTpe Idx
  | Entry_SingleTpe Idx Idx
  | Entry_SuperTpe Idx Idx
  | Entry_ConstantTpe Idx
  | Entry_TypeRefTpe Idx Idx "Idx list"
  | Entry_TypeBoundsTpe Idx Idx
  | Entry_RefinedTpe Idx "Idx list"
  | Entry_ClassInfoTpe Idx "Idx list"
  | Entry_MethodTpe Idx "Idx list"
  | Entry_ImplicitMethodTpe Idx "Idx list"
  | Entry_PolyTpe Idx "Idx list"
  | Entry_ExistentialTpe Idx "Idx list"
  | Entry_AnnotatedTpe Idx "Idx list"
  | Entry_DeBruijnIndexTpe nat nat
  | Entry_Literal Constant
  | Entry_SymAnnot Idx AnnotInfo
  | Entry_AnnotInfo AnnotInfo
  | Entry_AnnotArgArray "Idx list"
  | Entry_Children Idx "Idx list"
  | Entry_Tree "Idx option" Tree
  | Entry_Modifiers u64 Idx

text \<open>The references an entry holds.\<close>

fun tree_refs :: "Tree \<Rightarrow> Idx list" where
  "tree_refs Tree_Empty = []"
| "tree_refs (Tree_PackageDef a b c d e) = [a, b, c, d] @ e"
| "tree_refs (Tree_ClassDef a b c d e) = [a, b, c, d] @ e"
| "tree_refs (Tree_ModuleDef a b c d) = [a, b, c, d]"
| "tree_refs (Tree_ValDef a b c d e) = [a, b, c, d, e]"
| "tree_refs (Tree_DefDef a b c d e f g) = [a, b, c] @ d @ concat e @ [f, g]"
| "tree_refs (Tree_TypeDef a b c d e) = [a, b, c, d] @ e"
| "tree_refs (Tree_LabelDef a b c d) = [a, b, c] @ d"
| "tree_refs (Tree_Import a b c) = [a, b] @ concat (map (\<lambda>(x, y). [x, y]) c)"
| "tree_refs (Tree_DocDef a b) = [a, b]"
| "tree_refs (Tree_Template a b c d) = [a] @ b @ [c] @ d"
| "tree_refs (Tree_Block a b) = [a] @ b"
| "tree_refs (Tree_CaseDef a b c) = [a, b, c]"
| "tree_refs (Tree_Alternative a) = a"
| "tree_refs (Tree_Star a) = [a]"
| "tree_refs (Tree_Bind a b c) = [a, b, c]"
| "tree_refs (Tree_UnApply a b) = [a] @ b"
| "tree_refs (Tree_ArrayValue a b) = [a] @ b"
| "tree_refs (Tree_Function a b c) = [a, b] @ c"
| "tree_refs (Tree_Assign a b) = [a, b]"
| "tree_refs (Tree_If a b c) = [a, b, c]"
| "tree_refs (Tree_Match a b) = [a] @ b"
| "tree_refs (Tree_Return a b) = [a, b]"
| "tree_refs (Tree_Try a b c) = [a, b] @ c"
| "tree_refs (Tree_Throw a) = [a]"
| "tree_refs (Tree_New a) = [a]"
| "tree_refs (Tree_Typed a b) = [a, b]"
| "tree_refs (Tree_TypeApply a b) = [a] @ b"
| "tree_refs (Tree_Apply a b) = [a] @ b"
| "tree_refs (Tree_ApplyDynamic a b c) = [a, b] @ c"
| "tree_refs (Tree_Super a b c) = [a, b, c]"
| "tree_refs (Tree_This a b) = [a, b]"
| "tree_refs (Tree_Select a b c) = [a, b, c]"
| "tree_refs (Tree_Ident a b) = [a, b]"
| "tree_refs (Tree_Literal a) = [a]"
| "tree_refs Tree_TypeTree = []"
| "tree_refs (Tree_Annotated a b) = [a, b]"
| "tree_refs (Tree_SingletonTypeTree a) = [a]"
| "tree_refs (Tree_SelectFromTypeTree a b) = [a, b]"
| "tree_refs (Tree_CompoundTypeTree a) = [a]"
| "tree_refs (Tree_AppliedTypeTree a b) = [a] @ b"
| "tree_refs (Tree_TypeBoundsTree a b) = [a, b]"
| "tree_refs (Tree_ExistentialTypeTree a b) = [a] @ b"

definition sym_info_refs :: "SymInfo \<Rightarrow> Idx list" where
  "sym_info_refs i = [si_name i, si_owner i] @ (case si_private_within i of None \<Rightarrow> [] | Some p \<Rightarrow> [p]) @ [si_info i]"

definition annot_refs :: "AnnotInfo \<Rightarrow> Idx list" where
  "annot_refs a = ai_tpe a # ai_args a @ concat (map (\<lambda>(x, y). [x, y]) (ai_assocs a))"

definition opt_refs :: "Idx option \<Rightarrow> Idx list" where
  "opt_refs m = (case m of None \<Rightarrow> [] | Some i \<Rightarrow> [i])"

fun constant_refs :: "Constant \<Rightarrow> Idx list" where
  "constant_refs (Const_Str i) = [i]"
| "constant_refs (Const_Class i) = [i]"
| "constant_refs (Const_Enum i) = [i]"
| "constant_refs (Const_Symbol i) = [i]"
| "constant_refs _ = []"

fun entry_refs :: "Entry \<Rightarrow> Idx list" where
  "entry_refs (Entry_TermName s) = []"
| "entry_refs (Entry_TypeName s) = []"
| "entry_refs Entry_NoneSym = []"
| "entry_refs (Entry_TypeSym i) = sym_info_refs i"
| "entry_refs (Entry_AliasSym i) = sym_info_refs i"
| "entry_refs (Entry_ClassSym i t) = sym_info_refs i @ opt_refs t"
| "entry_refs (Entry_ModuleSym i a) = sym_info_refs i @ opt_refs a"
| "entry_refs (Entry_ValSym i a) = sym_info_refs i @ opt_refs a"
| "entry_refs (Entry_ExtRef n w) = n # opt_refs w"
| "entry_refs (Entry_ExtModClassRef n w) = n # opt_refs w"
| "entry_refs Entry_NoTpe = []"
| "entry_refs Entry_NoPrefixTpe = []"
| "entry_refs (Entry_ThisTpe i) = [i]"
| "entry_refs (Entry_SingleTpe p s) = [p, s]"
| "entry_refs (Entry_SuperTpe p s) = [p, s]"
| "entry_refs (Entry_ConstantTpe i) = [i]"
| "entry_refs (Entry_TypeRefTpe p s as) = p # s # as"
| "entry_refs (Entry_TypeBoundsTpe l h) = [l, h]"
| "entry_refs (Entry_RefinedTpe i is) = i # is"
| "entry_refs (Entry_ClassInfoTpe i is) = i # is"
| "entry_refs (Entry_MethodTpe i is) = i # is"
| "entry_refs (Entry_ImplicitMethodTpe i is) = i # is"
| "entry_refs (Entry_PolyTpe i is) = i # is"
| "entry_refs (Entry_ExistentialTpe i is) = i # is"
| "entry_refs (Entry_AnnotatedTpe i is) = i # is"
| "entry_refs (Entry_DeBruijnIndexTpe l i) = []"
| "entry_refs (Entry_Literal c) = constant_refs c"
| "entry_refs (Entry_SymAnnot s a) = s # annot_refs a"
| "entry_refs (Entry_AnnotInfo a) = annot_refs a"
| "entry_refs (Entry_AnnotArgArray is) = is"
| "entry_refs (Entry_Children s is) = s # is"
| "entry_refs (Entry_Tree t tree) = opt_refs t @ tree_refs tree"
| "entry_refs (Entry_Modifiers f p) = [p]"

fun entry_sym_info :: "Entry \<Rightarrow> SymInfo option" where
  "entry_sym_info (Entry_TypeSym i) = Some i"
| "entry_sym_info (Entry_AliasSym i) = Some i"
| "entry_sym_info (Entry_ClassSym i _) = Some i"
| "entry_sym_info (Entry_ModuleSym i _) = Some i"
| "entry_sym_info (Entry_ValSym i _) = Some i"
| "entry_sym_info _ = None"

record Pickle =
  major :: nat
  minor :: nat
  entries :: "Entry list"
  entry_tags :: "u8 list"

section \<open>The reader\<close>

record reader =
  rbytes :: bytes
  rpos :: nat
  rentry :: "nat option"
  rtag :: u8

definition reader_new :: "bytes \<Rightarrow> reader" where
  "reader_new b = \<lparr>rbytes = b, rpos = 0, rentry = None, rtag = 0\<rparr>"

type_synonym 'a reading = "reader \<Rightarrow> ('a \<times> reader, ReadError) result"

definition return :: "'a \<Rightarrow> 'a reading" where
  "return x r = Ok (x, r)"

definition fail :: "ReadMessage \<Rightarrow> 'a reading" where
  "fail msg r = Err \<lparr>entry = rentry r, err_tag = rtag r, err_offset = rpos r, message = msg\<rparr>"

text \<open>\<open>let x = f?; k\<close> where both use the reader.\<close>

definition and_then :: "'a reading \<Rightarrow> ('a \<Rightarrow> 'b reading) \<Rightarrow> 'b reading" where
  "and_then f k r = rbind (f r) (\<lambda>(x, r). k x r)"

definition read_byte :: "u8 reading" where
  "read_byte r =
     (if length (rbytes r) \<le> rpos r then fail UnexpectedEnd r
      else Ok (rbytes r ! rpos r, r\<lparr>rpos := rpos r + 1\<rparr>))"

fun long_nat_loop :: "nat \<Rightarrow> u64 \<Rightarrow> u64 reading" where
  "long_nat_loop 0 x = fail NatTooLong"
| "long_nat_loop (Suc k) x =
     and_then read_byte (\<lambda>b.
       let x = push_bit 7 x OR (ucast b AND 0x7f) in
       if (ucast b :: u64) AND 0x80 = 0 then return x else long_nat_loop k x)"

definition read_long_nat :: "u64 reading" where
  "read_long_nat = long_nat_loop 10 0"

definition read_nat :: "nat reading" where
  "read_nat =
     and_then read_long_nat (\<lambda>v. if 0xFFFFFFFF < v then fail (NatOverflow v) else return (unat v))"

text \<open>
  \<open>read_long len\<close>: the two shifts by \<open>64 - (len << 3)\<close> panic for \<open>len = 0\<close>, where they shift a
  64-bit integer by 64.
\<close>

fun long_loop :: "nat \<Rightarrow> i64 \<Rightarrow> i64 reading" where
  "long_loop 0 x = return x"
| "long_loop (Suc k) x = and_then read_byte (\<lambda>b. long_loop k (push_bit 8 x OR ucast b))"

definition read_long :: "nat \<Rightarrow> i64 reading" where
  "read_long len =
     (if 8 < len then fail (ConstantTooLong len)
      else and_then (long_loop len 0) (\<lambda>x r.
        let leading = 64 - len * 8 in
        if leading = 64 then Panic else Ok (signed_drop_bit leading (push_bit leading x), r)))"

definition check_ref :: "Idx \<Rightarrow> nat \<Rightarrow> unit reading" where
  "check_ref i nentries = (if nentries \<le> i then fail (RefOutOfRange i nentries) else return ())"

definition read_ref :: "nat \<Rightarrow> Idx reading" where
  "read_ref nentries = and_then read_nat (\<lambda>i. and_then (check_ref i nentries) (\<lambda>_. return i))"

text \<open>
  The loops \<open>while r.pos < end\<close>.  Every turn reads at least one byte or fails, so \<open>end - pos\<close> turns
  are enough: \<open>until k\<close> makes at most \<open>k\<close> of them, and \<open>until_fuel\<close> shows the bound is never met.
\<close>

fun until :: "nat \<Rightarrow> 'a reading \<Rightarrow> nat \<Rightarrow> 'a list reading" where
  "until 0 f end r = Ok ([], r)"
| "until (Suc k) f end r =
     (if rpos r < end then and_then f (\<lambda>x. and_then (until k f end) (\<lambda>xs. return (x # xs))) r
      else Ok ([], r))"

definition read_until :: "'a reading \<Rightarrow> nat \<Rightarrow> 'a list reading" where
  "read_until f end r = until (end - rpos r) f end r"

definition read_refs_until :: "nat \<Rightarrow> nat \<Rightarrow> Idx list reading" where
  "read_refs_until nentries end = read_until (read_ref nentries) end"

text \<open>\<open>for _ in 0..k\<close>, collecting into a vector.\<close>

fun collect :: "nat \<Rightarrow> 'a reading \<Rightarrow> 'a list reading" where
  "collect 0 f = return []"
| "collect (Suc k) f = and_then f (\<lambda>x. and_then (collect k f) (\<lambda>xs. return (x # xs)))"

definition is_sym_ref :: "u8 list \<Rightarrow> Idx \<Rightarrow> bool" where
  "is_sym_ref all_tags i =
     (case idx all_tags i of None \<Rightarrow> False | Some t \<Rightarrow> FIRST_SYM_TAG \<le> t \<and> t \<le> LAST_EXT_SYM_TAG)"

definition is_name_entry :: "u8 list \<Rightarrow> Idx \<Rightarrow> bool" where
  "is_name_entry all_tags i = (idx all_tags i = Some TERMname \<or> idx all_tags i = Some TYPEname)"

definition read_sym_info :: "u8 list \<Rightarrow> nat \<Rightarrow> SymInfo reading" where
  "read_sym_info all_tags n =
     and_then (read_ref n) (\<lambda>name.
     and_then (read_ref n) (\<lambda>owner.
     and_then read_long_nat (\<lambda>flags.
     and_then (read_ref n) (\<lambda>first.
     and_then (if is_sym_ref all_tags first then and_then (read_ref n) (\<lambda>info. return (Some first, info))
               else return (None, first)) (\<lambda>(private_within, info).
       return \<lparr>si_name = name, si_owner = owner, si_flags = flags, si_private_within = private_within,
               si_info = info\<rparr>)))))"

text \<open>One turn of \<open>read_annot_info\<close>'s loop: \<open>Inl\<close> is an argument, \<open>Inr\<close> a named one.\<close>

definition read_annot_arg :: "u8 list \<Rightarrow> nat \<Rightarrow> (Idx + Idx \<times> Idx) reading" where
  "read_annot_arg all_tags n =
     and_then (read_ref n) (\<lambda>a.
       if is_name_entry all_tags a then and_then (read_ref n) (\<lambda>v. return (Inr (a, v)))
       else return (Inl a))"

definition lefts :: "('a + 'b) list \<Rightarrow> 'a list" where
  "lefts xs = concat (map (\<lambda>x. case x of Inl a \<Rightarrow> [a] | Inr _ \<Rightarrow> []) xs)"

definition rights :: "('a + 'b) list \<Rightarrow> 'b list" where
  "rights xs = concat (map (\<lambda>x. case x of Inl _ \<Rightarrow> [] | Inr b \<Rightarrow> [b]) xs)"

definition read_annot_info :: "nat \<Rightarrow> u8 list \<Rightarrow> nat \<Rightarrow> AnnotInfo reading" where
  "read_annot_info end all_tags n =
     and_then (read_ref n) (\<lambda>tpe.
     and_then (read_until (read_annot_arg all_tags n) end) (\<lambda>xs.
       return \<lparr>ai_tpe = tpe, ai_args = lefts xs, ai_assocs = rights xs\<rparr>))"

section \<open>Names\<close>

text \<open>
  \<open>String::from_utf8_lossy\<close>: \<open>utf8_step\<close> is the number of bytes of the first character and the
  character, with U+FFFD for a maximal invalid prefix.
\<close>

definition cont_byte :: "bytes \<Rightarrow> nat \<Rightarrow> bool" where
  "cont_byte bs i = (case idx bs i of None \<Rightarrow> False | Some b \<Rightarrow> 0x80 \<le> b \<and> b \<le> 0xBF)"

definition second_byte :: "bytes \<Rightarrow> bool" where
  "second_byte bs =
     (case (idx bs 0, idx bs 1) of
        (Some b, Some c) \<Rightarrow>
          (if b = 0xE0 then 0xA0 \<le> c \<and> c \<le> 0xBF
           else if b = 0xED then 0x80 \<le> c \<and> c \<le> 0x9F
           else if b = 0xF0 then 0x90 \<le> c \<and> c \<le> 0xBF
           else if b = 0xF4 then 0x80 \<le> c \<and> c \<le> 0x8F
           else 0x80 \<le> c \<and> c \<le> 0xBF)
      | _ \<Rightarrow> False)"

definition low6 :: "bytes \<Rightarrow> nat \<Rightarrow> nat" where
  "low6 bs i = unat (bs ! i AND 0x3f)"

definition utf8_step :: "bytes \<Rightarrow> nat \<times> rchar" where
  "utf8_step bs =
     (let b = hd bs in
      if b < 0x80 then (1, unat b)
      else if 0xC2 \<le> b \<and> b \<le> 0xDF then
        (if second_byte bs then (2, unat (b AND 0x1f) * 64 + low6 bs 1) else (1, 0xFFFD))
      else if 0xE0 \<le> b \<and> b \<le> 0xEF then
        (if \<not> second_byte bs then (1, 0xFFFD)
         else if \<not> cont_byte bs 2 then (2, 0xFFFD)
         else (3, unat (b AND 0x0f) * 4096 + low6 bs 1 * 64 + low6 bs 2))
      else if 0xF0 \<le> b \<and> b \<le> 0xF4 then
        (if \<not> second_byte bs then (1, 0xFFFD)
         else if \<not> cont_byte bs 2 then (2, 0xFFFD)
         else if \<not> cont_byte bs 3 then (3, 0xFFFD)
         else (4, unat (b AND 0x07) * 262144 + low6 bs 1 * 4096 + low6 bs 2 * 64 + low6 bs 3))
      else (1, 0xFFFD))"

lemma utf8_step_pos: "0 < fst (utf8_step bs)"
  by (simp add: utf8_step_def Let_def)

function from_utf8_lossy :: "bytes \<Rightarrow> str" where
  "from_utf8_lossy bs =
     (if bs = [] then [] else snd (utf8_step bs) # from_utf8_lossy (drop (fst (utf8_step bs)) bs))"
  by pat_completeness auto
termination
  by (relation "measure length") (auto simp: utf8_step_pos)

declare from_utf8_lossy.simps [simp del]

definition read_name :: "nat \<Rightarrow> str reading" where
  "read_name end r =
     (if end < rpos r \<or> length (rbytes r) < end then Panic
      else Ok (from_utf8_lossy (take (end - rpos r) (drop (rpos r) (rbytes r))), r\<lparr>rpos := end\<rparr>))"

section \<open>Trees\<close>

definition read_selector :: "nat \<Rightarrow> (Idx \<times> Idx) reading" where
  "read_selector n = and_then (read_ref n) (\<lambda>from. and_then (read_ref n) (\<lambda>to. return (from, to)))"

abbreviation read_selectors :: "nat \<Rightarrow> nat \<Rightarrow> (Idx \<times> Idx) list reading" where
  "read_selectors n end \<equiv> read_until (read_selector n) end"

abbreviation read_refs :: "nat \<Rightarrow> nat \<Rightarrow> Idx list reading" where
  "read_refs n k \<equiv> collect k (read_ref n)"

definition read_params :: "nat \<Rightarrow> Idx list reading" where
  "read_params n = and_then read_nat (\<lambda>np. read_refs n np)"

abbreviation read_paramss :: "nat \<Rightarrow> nat \<Rightarrow> Idx list list reading" where
  "read_paramss n k \<equiv> collect k (read_params n)"

text \<open>The \<open>match\<close> of \<open>read_tree_entry\<close>, after the tree's tag and type.\<close>

text \<open>The arms of the terms and types.\<close>

definition read_term_tree :: "nat \<Rightarrow> nat \<Rightarrow> u8 \<Rightarrow> Tree reading" where
  "read_term_tree end n tt =
     (if tt = BLOCKtree then
        and_then (read_ref n) (\<lambda>expr. and_then (read_refs_until n end) (\<lambda>stats.
        return (Tree_Block expr stats)))
      else if tt = CASEtree then
        and_then (read_ref n) (\<lambda>pat. and_then (read_ref n) (\<lambda>guard.
        and_then (read_ref n) (\<lambda>body. return (Tree_CaseDef pat guard body))))
      else if tt = ALTERNATIVEtree then
        and_then (read_refs_until n end) (\<lambda>trees. return (Tree_Alternative trees))
      else if tt = STARtree then
        and_then (read_ref n) (\<lambda>elem. return (Tree_Star elem))
      else if tt = BINDtree then
        and_then (read_ref n) (\<lambda>sym. and_then (read_ref n) (\<lambda>name.
        and_then (read_ref n) (\<lambda>body. return (Tree_Bind sym name body))))
      else if tt = UNAPPLYtree then
        and_then (read_ref n) (\<lambda>f. and_then (read_refs_until n end) (\<lambda>args.
        return (Tree_UnApply f args)))
      else if tt = ARRAYVALUEtree then
        and_then (read_ref n) (\<lambda>elemtpt.
        and_then (read_refs_until n end) (\<lambda>elems.
        return (Tree_ArrayValue elemtpt elems)))
      else if tt = FUNCTIONtree then
        and_then (read_ref n) (\<lambda>sym. and_then (read_ref n) (\<lambda>body.
        and_then (read_refs_until n end) (\<lambda>vparams.
        return (Tree_Function sym body vparams))))
      else if tt = ASSIGNtree then
        and_then (read_ref n) (\<lambda>lhs. and_then (read_ref n) (\<lambda>rhs.
        return (Tree_Assign lhs rhs)))
      else if tt = IFtree then
        and_then (read_ref n) (\<lambda>cond. and_then (read_ref n) (\<lambda>thenp.
        and_then (read_ref n) (\<lambda>elsep. return (Tree_If cond thenp elsep))))
      else if tt = MATCHtree then
        and_then (read_ref n) (\<lambda>selector.
        and_then (read_refs_until n end) (\<lambda>cases. return (Tree_Match selector cases)))
      else if tt = RETURNtree then
        and_then (read_ref n) (\<lambda>sym. and_then (read_ref n) (\<lambda>expr.
        return (Tree_Return sym expr)))
      else if tt = TREtree then
        and_then (read_ref n) (\<lambda>block. and_then (read_ref n) (\<lambda>finalizer.
        and_then (read_refs_until n end) (\<lambda>catches.
        return (Tree_Try block finalizer catches))))
      else if tt = THROWtree then
        and_then (read_ref n) (\<lambda>expr. return (Tree_Throw expr))
      else if tt = NEWtree then
        and_then (read_ref n) (\<lambda>tpt. return (Tree_New tpt))
      else if tt = TYPEDtree then
        and_then (read_ref n) (\<lambda>expr. and_then (read_ref n) (\<lambda>tpt.
        return (Tree_Typed expr tpt)))
      else if tt = TYPEAPPLYtree then
        and_then (read_ref n) (\<lambda>f. and_then (read_refs_until n end) (\<lambda>args.
        return (Tree_TypeApply f args)))
      else if tt = APPLYtree then
        and_then (read_ref n) (\<lambda>f. and_then (read_refs_until n end) (\<lambda>args.
        return (Tree_Apply f args)))
      else if tt = APPLYDYNAMICtree then
        and_then (read_ref n) (\<lambda>sym. and_then (read_ref n) (\<lambda>f.
        and_then (read_refs_until n end) (\<lambda>args.
        return (Tree_ApplyDynamic sym f args))))
      else if tt = SUPERtree then
        and_then (read_ref n) (\<lambda>sym. and_then (read_ref n) (\<lambda>qual.
        and_then (read_ref n) (\<lambda>mix. return (Tree_Super sym qual mix))))
      else if tt = THIStree then
        and_then (read_ref n) (\<lambda>sym. and_then (read_ref n) (\<lambda>qual.
        return (Tree_This sym qual)))
      else if tt = SELECTtree then
        and_then (read_ref n) (\<lambda>sym. and_then (read_ref n) (\<lambda>qualifier.
        and_then (read_ref n) (\<lambda>selector. return (Tree_Select sym qualifier selector))))
      else if tt = IDENTtree then
        and_then (read_ref n) (\<lambda>sym. and_then (read_ref n) (\<lambda>name.
        return (Tree_Ident sym name)))
      else if tt = LITERALtree then
        and_then (read_ref n) (\<lambda>c. return (Tree_Literal c))
      else if tt = TYPEtree then
        return Tree_TypeTree
      else if tt = ANNOTATEDtree then
        and_then (read_ref n) (\<lambda>annot. and_then (read_ref n) (\<lambda>arg.
        return (Tree_Annotated annot arg)))
      else if tt = SINGLETONTYPEtree then
        and_then (read_ref n) (\<lambda>ref. return (Tree_SingletonTypeTree ref))
      else if tt = SELECTFROMTYPEtree then
        and_then (read_ref n) (\<lambda>qualifier. and_then (read_ref n) (\<lambda>selector.
        return (Tree_SelectFromTypeTree qualifier selector)))
      else if tt = COMPOUNDTYPEtree then
        and_then (read_ref n) (\<lambda>templ. return (Tree_CompoundTypeTree templ))
      else if tt = APPLIEDTYPEtree then
        and_then (read_ref n) (\<lambda>tpt. and_then (read_refs_until n end) (\<lambda>args.
        return (Tree_AppliedTypeTree tpt args)))
      else if tt = TYPEBOUNDStree then
        and_then (read_ref n) (\<lambda>lo. and_then (read_ref n) (\<lambda>hi.
        return (Tree_TypeBoundsTree lo hi)))
      else if tt = EXISTENTIALTYPEtree then
        and_then (read_ref n) (\<lambda>tpt.
        and_then (read_refs_until n end) (\<lambda>where_clauses.
        return (Tree_ExistentialTypeTree tpt where_clauses)))
      else fail (UnknownTreeTag tt))"

text \<open>The arms of the definitions, then those of the terms and types.\<close>

definition read_tree :: "nat \<Rightarrow> nat \<Rightarrow> u8 \<Rightarrow> Tree reading" where
  "read_tree end n tt =
     (if tt = EMPTYtree then return Tree_Empty
      else if tt = PACKAGEtree then
        and_then (read_ref n) (\<lambda>sym. and_then (read_ref n) (\<lambda>mods.
        and_then (read_ref n) (\<lambda>name. and_then (read_ref n) (\<lambda>pid.
        and_then (read_refs_until n end) (\<lambda>stats.
        return (Tree_PackageDef sym mods name pid stats))))))
      else if tt = CLASStree then
        and_then (read_ref n) (\<lambda>sym. and_then (read_ref n) (\<lambda>mods.
        and_then (read_ref n) (\<lambda>name. and_then (read_ref n) (\<lambda>template.
        and_then (read_refs_until n end) (\<lambda>tparams.
        return (Tree_ClassDef sym mods name template tparams))))))
      else if tt = MODULEtree then
        and_then (read_ref n) (\<lambda>sym. and_then (read_ref n) (\<lambda>mods.
        and_then (read_ref n) (\<lambda>name. and_then (read_ref n) (\<lambda>template.
        return (Tree_ModuleDef sym mods name template)))))
      else if tt = VALDEFtree then
        and_then (read_ref n) (\<lambda>sym. and_then (read_ref n) (\<lambda>mods.
        and_then (read_ref n) (\<lambda>name. and_then (read_ref n) (\<lambda>tpt.
        and_then (read_ref n) (\<lambda>rhs. return (Tree_ValDef sym mods name tpt rhs))))))
      else if tt = DEFDEFtree then
        and_then (read_ref n) (\<lambda>sym. and_then (read_ref n) (\<lambda>mods.
        and_then (read_ref n) (\<lambda>name. and_then read_nat (\<lambda>ntp.
        and_then (read_refs n ntp) (\<lambda>tparams. and_then read_nat (\<lambda>nss.
        and_then (read_paramss n nss) (\<lambda>vparamss. and_then (read_ref n) (\<lambda>tpt.
        and_then (read_ref n) (\<lambda>rhs.
        return (Tree_DefDef sym mods name tparams vparamss tpt rhs))))))))))
      else if tt = TYPEDEFtree then
        and_then (read_ref n) (\<lambda>sym. and_then (read_ref n) (\<lambda>mods.
        and_then (read_ref n) (\<lambda>name. and_then (read_ref n) (\<lambda>rhs.
        and_then (read_refs_until n end) (\<lambda>tparams.
        return (Tree_TypeDef sym mods name rhs tparams))))))
      else if tt = LABELtree then
        and_then (read_ref n) (\<lambda>sym. and_then (read_ref n) (\<lambda>name.
        and_then (read_ref n) (\<lambda>rhs. and_then (read_refs_until n end) (\<lambda>params.
        return (Tree_LabelDef sym name rhs params)))))
      else if tt = IMPORTtree then
        and_then (read_ref n) (\<lambda>sym. and_then (read_ref n) (\<lambda>expr.
        and_then (read_selectors n end) (\<lambda>selectors.
        return (Tree_Import sym expr selectors))))
      else if tt = DOCDEFtree then
        and_then (read_ref n) (\<lambda>comment. and_then (read_ref n) (\<lambda>defn.
        return (Tree_DocDef comment defn)))
      else if tt = TEMPLATEtree then
        and_then (read_ref n) (\<lambda>sym. and_then read_nat (\<lambda>np.
        and_then (read_refs n np) (\<lambda>parents. and_then (read_ref n) (\<lambda>self.
        and_then (read_refs_until n end) (\<lambda>body.
        return (Tree_Template sym parents self body))))))
      else read_term_tree end n tt)"

definition read_tree_entry :: "nat \<Rightarrow> nat \<Rightarrow> Entry reading" where
  "read_tree_entry end n =
     and_then read_byte (\<lambda>tt.
     and_then (if tt = EMPTYtree then return None else and_then (read_ref n) (\<lambda>tpe. return (Some tpe))) (\<lambda>tpe.
     and_then (read_tree end n tt) (\<lambda>tree. return (Entry_Tree tpe tree))))"

section \<open>Entry bodies\<close>

text \<open>\<open>if r.pos < end { Some(read_ref(r, n)?) } else { None }\<close>\<close>

definition read_optional :: "nat \<Rightarrow> nat \<Rightarrow> Idx option reading" where
  "read_optional end n r =
     (if rpos r < end then and_then (read_ref n) (\<lambda>i. return (Some i)) r else Ok (None, r))"

text \<open>\<open>r.long(end - r.pos)?\<close>; the subtraction panics past the end.\<close>

definition read_rest_long :: "nat \<Rightarrow> i64 reading" where
  "read_rest_long end r = (if end < rpos r then Panic else read_long (end - rpos r) r)"

definition read_ref_and_rest :: "nat \<Rightarrow> nat \<Rightarrow> (Idx \<Rightarrow> Idx list \<Rightarrow> Entry) \<Rightarrow> Entry reading" where
  "read_ref_and_rest end n mk =
     and_then (read_ref n) (\<lambda>i. and_then (read_refs_until n end) (\<lambda>rest. return (mk i rest)))"

text \<open>The \<open>match\<close> of \<open>read_entry\<close> on the entry's tag.\<close>

definition read_body :: "nat \<Rightarrow> u8 list \<Rightarrow> nat \<Rightarrow> u8 \<Rightarrow> Entry reading" where
  "read_body end all_tags n tag =
      (if tag = TERMname then and_then (read_name end) (\<lambda>s. return (Entry_TermName s))
       else if tag = TYPEname then and_then (read_name end) (\<lambda>s. return (Entry_TypeName s))
       else if tag = NONEsym then return Entry_NoneSym
       else if tag = EXTref \<or> tag = EXTMODCLASSref then
         and_then (read_ref n) (\<lambda>name. and_then (read_optional end n) (\<lambda>owner.
           return (if tag = EXTref then Entry_ExtRef name owner else Entry_ExtModClassRef name owner)))
       else if tag = TYPEsym then and_then (read_sym_info all_tags n) (\<lambda>i. return (Entry_TypeSym i))
       else if tag = ALIASsym then and_then (read_sym_info all_tags n) (\<lambda>i. return (Entry_AliasSym i))
       else if tag = CLASSsym then
         and_then (read_sym_info all_tags n) (\<lambda>info. and_then (read_optional end n) (\<lambda>this_type.
           return (Entry_ClassSym info this_type)))
       else if tag = MODULEsym \<or> tag = VALsym then
         and_then (read_sym_info all_tags n) (\<lambda>info. and_then (read_optional end n) (\<lambda>alias.
           return (if tag = MODULEsym then Entry_ModuleSym info alias else Entry_ValSym info alias)))
       else if tag = NOtpe then return Entry_NoTpe
       else if tag = NOPREFIXtpe then return Entry_NoPrefixTpe
       else if tag = THIStpe then and_then (read_ref n) (\<lambda>i. return (Entry_ThisTpe i))
       else if tag = SINGLEtpe then
         and_then (read_ref n) (\<lambda>prefix. and_then (read_ref n) (\<lambda>sym. return (Entry_SingleTpe prefix sym)))
       else if tag = SUPERtpe then
         and_then (read_ref n) (\<lambda>this. and_then (read_ref n) (\<lambda>super. return (Entry_SuperTpe this super)))
       else if tag = CONSTANTtpe then and_then (read_ref n) (\<lambda>i. return (Entry_ConstantTpe i))
       else if tag = TYPEREFtpe then
         and_then (read_ref n) (\<lambda>prefix. and_then (read_ref n) (\<lambda>sym.
         and_then (read_refs_until n end) (\<lambda>args. return (Entry_TypeRefTpe prefix sym args))))
       else if tag = TYPEBOUNDStpe then
         and_then (read_ref n) (\<lambda>lo. and_then (read_ref n) (\<lambda>hi. return (Entry_TypeBoundsTpe lo hi)))
       else if tag = REFINEDtpe then read_ref_and_rest end n Entry_RefinedTpe
       else if tag = CLASSINFOtpe then read_ref_and_rest end n Entry_ClassInfoTpe
       else if tag = METHODtpe \<or> tag = IMPLICITMETHODtpe then
         read_ref_and_rest end n (if tag = METHODtpe then Entry_MethodTpe else Entry_ImplicitMethodTpe)
       else if tag = POLYtpe then read_ref_and_rest end n Entry_PolyTpe
       else if tag = EXISTENTIALtpe then read_ref_and_rest end n Entry_ExistentialTpe
       else if tag = ANNOTATEDtpe then read_ref_and_rest end n Entry_AnnotatedTpe
       else if tag = DEBRUIJNINDEXtpe then
         and_then read_nat (\<lambda>level. and_then read_nat (\<lambda>index. return (Entry_DeBruijnIndexTpe level index)))
       else if tag = LITERALunit then return (Entry_Literal Const_Unit)
       else if tag = LITERALboolean then
         and_then (read_rest_long end) (\<lambda>x. return (Entry_Literal (Const_Boolean (x \<noteq> 0))))
       else if tag = LITERALbyte then and_then (read_rest_long end) (\<lambda>x. return (Entry_Literal (Const_Byte (ucast x))))
       else if tag = LITERALshort then and_then (read_rest_long end) (\<lambda>x. return (Entry_Literal (Const_Short (ucast x))))
       else if tag = LITERALchar then
         and_then (read_rest_long end) (\<lambda>x. return (Entry_Literal (Const_Char (ucast x AND 0xffff))))
       else if tag = LITERALint then and_then (read_rest_long end) (\<lambda>x. return (Entry_Literal (Const_Int (ucast x))))
       else if tag = LITERALlong then and_then (read_rest_long end) (\<lambda>x. return (Entry_Literal (Const_Long x)))
       else if tag = LITERALfloat then and_then (read_rest_long end) (\<lambda>x. return (Entry_Literal (Const_Float (ucast x))))
       else if tag = LITERALdouble then and_then (read_rest_long end) (\<lambda>x. return (Entry_Literal (Const_Double x)))
       else if tag = LITERALstring then and_then (read_ref n) (\<lambda>i. return (Entry_Literal (Const_Str i)))
       else if tag = LITERALnull then return (Entry_Literal Const_Null)
       else if tag = LITERALclass then and_then (read_ref n) (\<lambda>i. return (Entry_Literal (Const_Class i)))
       else if tag = LITERALenum then and_then (read_ref n) (\<lambda>i. return (Entry_Literal (Const_Enum i)))
       else if tag = LITERALsymbol then and_then (read_ref n) (\<lambda>i. return (Entry_Literal (Const_Symbol i)))
       else if tag = SYMANNOT then
         and_then (read_ref n) (\<lambda>sym. and_then (read_annot_info end all_tags n) (\<lambda>annot.
           return (Entry_SymAnnot sym annot)))
       else if tag = ANNOTINFO then and_then (read_annot_info end all_tags n) (\<lambda>a. return (Entry_AnnotInfo a))
       else if tag = ANNOTARGARRAY then and_then (read_refs_until n end) (\<lambda>xs. return (Entry_AnnotArgArray xs))
       else if tag = CHILDREN then read_ref_and_rest end n Entry_Children
       else if tag = MODIFIERS then
         and_then read_nat (\<lambda>hi. and_then read_nat (\<lambda>lo. and_then (read_ref n) (\<lambda>private_within.
           return (Entry_Modifiers (push_bit 32 (of_nat hi) OR of_nat lo) private_within))))
       else if tag = TREE then read_tree_entry end n
       else fail (UnknownTag tag))"

definition read_entry :: "nat \<Rightarrow> u8 list \<Rightarrow> nat \<Rightarrow> Entry reading" where
  "read_entry end all_tags n r = read_body end all_tags n (rtag r) r"

section \<open>The two passes\<close>

text \<open>An entry of the table: where its body starts, its tag, and where the body ends.\<close>

type_synonym extent = "nat \<times> u8 \<times> nat"

fun read_extents :: "nat \<Rightarrow> nat \<Rightarrow> extent list reading" where
  "read_extents i 0 = return []"
| "read_extents i (Suc k) = (\<lambda>r.
     and_then read_byte (\<lambda>tag r.
       and_then read_nat (\<lambda>len r.
         let start = rpos r; end = start + len in
         if length (rbytes r) < end then fail (EntryOverruns len) r
         else and_then (read_extents (Suc i) k) (\<lambda>rest. return ((start, tag, end) # rest)) (r\<lparr>rpos := end\<rparr>))
       (r\<lparr>rtag := tag\<rparr>))
     (r\<lparr>rentry := Some i, rtag := 0\<rparr>))"

fun read_bodies :: "nat \<Rightarrow> extent list \<Rightarrow> u8 list \<Rightarrow> nat \<Rightarrow> Entry list reading" where
  "read_bodies i [] all_tags n = return []"
| "read_bodies i ((start, tag, end) # rest) all_tags n = (\<lambda>r.
     and_then (read_entry end all_tags n) (\<lambda>e r.
       if rpos r \<noteq> end then fail (NotConsumed (rpos r - start) (end - start)) r
       else and_then (read_bodies (Suc i) rest all_tags n) (\<lambda>es. return (e # es)) r)
     (r\<lparr>rentry := Some i, rtag := tag, rpos := start\<rparr>))"

text \<open>The header and the first pass.\<close>

definition read_table :: "(nat \<times> nat \<times> extent list) reading" where
  "read_table =
     and_then read_nat (\<lambda>major.
     and_then read_nat (\<lambda>minor.
       if major \<noteq> MAJOR then fail (UnsupportedMajor major)
       else and_then read_nat (\<lambda>nentries.
            and_then (read_extents 0 nentries) (\<lambda>exts. return (major, minor, exts)))))"

definition read_pickle :: "bytes \<Rightarrow> (Pickle, ReadError) result" where
  "read_pickle bs =
     rbind (and_then read_table (\<lambda>(major, minor, exts).
              let all_tags = map (\<lambda>(_, tag, _). tag) exts in
              and_then (read_bodies 0 exts all_tags (length exts)) (\<lambda>es.
                return \<lparr>major = major, minor = minor, entries = es, entry_tags = all_tags\<rparr>))
            (reader_new bs))
       (\<lambda>(p, _). Ok p)"

end
