(* ===== verification/PickleNames.thy ===== *)
theory PickleNames
  imports Pickle
begin

text \<open>
  The accessors of \<open>Pickle\<close> in \<open>crates/pickle/src/read.rs\<close>.  \<open>full_name_at\<close> memoises the dotted name of
  every symbol on its way up the owners; the \<open>OnceLock\<close> slots are a list that is passed along.
  \<open>full_name\<close> is the name without the memory, and the memory is sound when every owner walk ends
  within \<open>MAX_DEPTH\<close> steps.
\<close>

section \<open>Accessors\<close>

definition pickle_entry :: "Pickle \<Rightarrow> Idx \<Rightarrow> Entry option" where
  "pickle_entry p i = idx (entries p) i"

definition pickle_name :: "Pickle \<Rightarrow> Idx \<Rightarrow> str option" where
  "pickle_name p i =
     (case idx (entries p) i of
        Some (Entry_TermName s) \<Rightarrow> Some s
      | Some (Entry_TypeName s) \<Rightarrow> Some s
      | _ \<Rightarrow> None)"

definition sym_name :: "Pickle \<Rightarrow> Idx \<Rightarrow> str option" where
  "sym_name p i =
     (case idx (entries p) i of
        None \<Rightarrow> None
      | Some (Entry_ExtRef name _) \<Rightarrow> pickle_name p name
      | Some (Entry_ExtModClassRef name _) \<Rightarrow> pickle_name p name
      | Some e \<Rightarrow> Option.bind (entry_sym_info e) (\<lambda>s. pickle_name p (si_name s)))"

definition sym_owner :: "Pickle \<Rightarrow> Idx \<Rightarrow> Idx option" where
  "sym_owner p i =
     (case idx (entries p) i of
        None \<Rightarrow> None
      | Some (Entry_ExtRef _ owner) \<Rightarrow> owner
      | Some (Entry_ExtModClassRef _ owner) \<Rightarrow> owner
      | Some e \<Rightarrow> map_option si_owner (entry_sym_info e))"

text \<open>\<open>const MAX_DEPTH\<close>: an owner chain longer than this is not a name.\<close>

definition MAX_DEPTH :: nat where
  "MAX_DEPTH = 64"

type_synonym slots = "str option option list"

text \<open>\<open>OnceLock::get_or_init\<close>.\<close>

definition get_or_init :: "slots \<Rightarrow> Idx \<Rightarrow> str option \<Rightarrow> str option \<times> slots" where
  "get_or_init slots i name =
     (case idx slots i of
        Some (Some known) \<Rightarrow> (known, slots)
      | _ \<Rightarrow> (name, slots[i := Some name]))"

definition package_marker :: "str \<Rightarrow> bool" where
  "package_marker n \<longleftrightarrow> n = lit ''<root>'' \<or> n = lit ''<empty>''"

text \<open>\<open>format!("{outer}.{n}")\<close>, or the name alone below the root.\<close>

definition dotted_name :: "str \<Rightarrow> str \<Rightarrow> str" where
  "dotted_name outer n = (if outer = [] then n else outer @ chr CHR ''.'' # n)"

function full_name_at :: "Pickle \<Rightarrow> slots \<Rightarrow> Idx \<Rightarrow> nat \<Rightarrow> str option \<times> slots" where
  "full_name_at p slots i depth =
     (case idx slots i of
        None \<Rightarrow> (None, slots)
      | Some (Some known) \<Rightarrow> (known, slots)
      | Some None \<Rightarrow>
          if MAX_DEPTH \<le> depth then (None, slots)
          else
            let (name, slots) =
              (case sym_name p i of
                 None \<Rightarrow> (None, slots)
               | Some n \<Rightarrow>
                   if package_marker n then (Some [], slots)
                   else
                     case sym_owner p i of
                       None \<Rightarrow> (Some n, slots)
                     | Some owner \<Rightarrow>
                         case full_name_at p slots owner (depth + 1) of
                           (outer, slots) \<Rightarrow> (map_option (\<lambda>a. dotted_name a n) outer, slots))
            in get_or_init slots i name)"
  by pat_completeness auto
termination
  by (relation "measure (\<lambda>(_, _, _, depth). MAX_DEPTH - depth)") auto

declare full_name_at.simps [simp del]

definition sym_full_name :: "Pickle \<Rightarrow> slots \<Rightarrow> Idx \<Rightarrow> str option \<times> slots" where
  "sym_full_name p slots i = full_name_at p slots i 0"

text \<open>The slots of a pickle that was just read.\<close>

definition no_names :: "Pickle \<Rightarrow> slots" where
  "no_names p = replicate (length (entries p)) None"

text \<open>A sequence of calls of \<open>sym_full_name\<close> on one pickle.\<close>

fun ask_names :: "Pickle \<Rightarrow> slots \<Rightarrow> Idx list \<Rightarrow> str option list \<times> slots" where
  "ask_names p slots [] = ([], slots)"
| "ask_names p slots (i # is) =
     (let (name, slots) = sym_full_name p slots i; (names, slots) = ask_names p slots is
      in (name # names, slots))"

section \<open>The name without the memory\<close>

text \<open>The owner walk from a symbol ends within \<open>k\<close> steps, and the name it spells.\<close>

fun walk_ends :: "Pickle \<Rightarrow> nat \<Rightarrow> Idx \<Rightarrow> bool" where
  "walk_ends p 0 i = False"
| "walk_ends p (Suc k) i =
     (case sym_name p i of
        None \<Rightarrow> True
      | Some n \<Rightarrow> package_marker n \<or> (case sym_owner p i of None \<Rightarrow> True | Some owner \<Rightarrow> walk_ends p k owner))"

fun full_name :: "Pickle \<Rightarrow> nat \<Rightarrow> Idx \<Rightarrow> str option" where
  "full_name p 0 i = None"
| "full_name p (Suc k) i =
     (case sym_name p i of
        None \<Rightarrow> None
      | Some n \<Rightarrow>
          if package_marker n then Some []
          else
            case sym_owner p i of
              None \<Rightarrow> Some n
            | Some owner \<Rightarrow> map_option (\<lambda>outer. dotted_name outer n) (full_name p k owner))"

lemma walk_mono: "walk_ends p k i \<Longrightarrow> k \<le> l \<Longrightarrow> walk_ends p l i \<and> full_name p l i = full_name p k i"
proof (induction k arbitrary: i l)
  case (Suc k)
  then obtain m where l: "l = Suc m" "k \<le> m" by (cases l) auto
  from Suc.prems(1) Suc.IH [OF _ l(2)] show ?case
    by (auto simp: l(1) split: option.splits)
qed simp

lemma sym_name_out_of_range: "length (entries p) \<le> i \<Longrightarrow> sym_name p i = None"
  by (simp add: sym_name_def idx_None)

definition sound_slots :: "Pickle \<Rightarrow> slots \<Rightarrow> bool" where
  "sound_slots p slots \<longleftrightarrow> length slots = length (entries p) \<and>
     (\<forall>i x. idx slots i = Some (Some x) \<longrightarrow> x = full_name p MAX_DEPTH i)"

lemma get_or_init_sound:
  assumes "sound_slots p slots" "i < length slots"
  shows "get_or_init slots i (full_name p MAX_DEPTH i) = (full_name p MAX_DEPTH i, slots[i := Some (full_name p MAX_DEPTH i)])"
proof -
  have "slots[i := Some x] = slots" if "idx slots i = Some (Some x)" for x
    using that by (metis idx_eq_Some list_update_id)
  then show ?thesis
    using assms by (auto simp: get_or_init_def sound_slots_def split: option.splits)
qed

lemma sound_update:
  "sound_slots p slots \<Longrightarrow> sound_slots p (slots[i := Some (full_name p MAX_DEPTH i)])"
  unfolding sound_slots_def idx_def
  by (cases "i < length slots") (auto simp: nth_list_update split: if_splits)

lemma full_name_at_sound:
  assumes "sound_slots p slots" "walk_ends p (MAX_DEPTH - depth) i"
  shows "fst (full_name_at p slots i depth) = full_name p MAX_DEPTH i \<and> sound_slots p (snd (full_name_at p slots i depth))"
  using assms
proof (induction p slots i depth rule: full_name_at.induct)
  case (1 p slots i depth)
  have pos: "depth < MAX_DEPTH" using 1(3) by (cases "MAX_DEPTH - depth") auto
  then have k: "MAX_DEPTH - depth = Suc (MAX_DEPTH - (depth + 1))" by simp
  have walk: "full_name p MAX_DEPTH i = full_name p (Suc (MAX_DEPTH - (depth + 1))) i"
    using walk_mono [OF 1(3), of MAX_DEPTH] unfolding k [symmetric] by simp
  consider (out) "idx slots i = None" | (known) x where "idx slots i = Some (Some x)" | (new) "idx slots i = Some None"
    by (cases "idx slots i"; cases "the (idx slots i)") auto
  then show ?case
  proof cases
    case out
    then have "length (entries p) \<le> i" using 1(2) by (auto simp: idx_def sound_slots_def split: if_splits)
    then show ?thesis using out 1(2) walk by (simp add: full_name_at.simps sym_name_out_of_range)
  next
    case known
    then show ?thesis using 1(2) by (auto simp: full_name_at.simps sound_slots_def)
  next
    case new
    then have i: "i < length slots" by (simp add: idx_eq_Some)
    obtain name slots' where step: "(case sym_name p i of
                 None \<Rightarrow> (None, slots)
               | Some n \<Rightarrow>
                   if package_marker n then (Some [], slots)
                   else
                     case sym_owner p i of
                       None \<Rightarrow> (Some n, slots)
                     | Some owner \<Rightarrow>
                         case full_name_at p slots owner (depth + 1) of
                           (outer, slots) \<Rightarrow> (map_option (\<lambda>a. dotted_name a n) outer, slots)) = (name, slots')"
      by fastforce
    have "name = full_name p MAX_DEPTH i \<and> sound_slots p slots'"
    proof (cases "\<exists>n owner. sym_name p i = Some n \<and> \<not> package_marker n \<and> sym_owner p i = Some owner")
      case True
      then obtain n owner where n: "sym_name p i = Some n" "\<not> package_marker n" "sym_owner p i = Some owner" by blast
      have w: "walk_ends p (MAX_DEPTH - (depth + 1)) owner" using 1(3) n unfolding k by simp
      have "fst (full_name_at p slots owner (depth + 1)) = full_name p MAX_DEPTH owner \<and>
          sound_slots p (snd (full_name_at p slots owner (depth + 1)))"
        using pos by (intro 1(1) [OF new refl _ n(1) n(2) n(3) 1(2) w]) auto
      moreover have "full_name p MAX_DEPTH owner = full_name p (MAX_DEPTH - (depth + 1)) owner"
        using walk_mono [OF w, of MAX_DEPTH] by simp
      ultimately show ?thesis
        using step n unfolding walk by (auto split: prod.splits)
    next
      case False
      then show ?thesis
        using step 1(2) unfolding walk by (auto split: option.splits if_splits)
    qed
    then have name: "name = full_name p MAX_DEPTH i" and slots': "sound_slots p slots'" by auto
    have "full_name_at p slots i depth = get_or_init slots' i name"
      using new pos step by (subst full_name_at.simps) simp
    then show ?thesis
      using get_or_init_sound [OF slots', of i] sound_update [OF slots', of i] i 1(2) slots'
      by (simp add: name sound_slots_def)
  qed
qed

text \<open>
  C20: on a pickle whose owner walks all end within 64 steps, every answer of \<open>sym_full_name\<close> in any
  sequence of calls is the name the owners spell, whatever was asked before.
\<close>
theorem memoised_names:
  assumes "\<forall>i. walk_ends p MAX_DEPTH i"
  shows "fst (ask_names p (no_names p) is) = map (full_name p MAX_DEPTH) is"
proof -
  have "sound_slots p slots \<Longrightarrow> fst (ask_names p slots is) = map (full_name p MAX_DEPTH) is" for slots
  proof (induction "is" arbitrary: slots)
    case (Cons i "is")
    obtain name slots' where s: "sym_full_name p slots i = (name, slots')" by (cases "sym_full_name p slots i")
    with full_name_at_sound [OF Cons.prems, of 0 i] assms
    have "name = full_name p MAX_DEPTH i" "sound_slots p slots'" by (auto simp: sym_full_name_def)
    with Cons.IH [of slots'] s show ?case by (auto split: prod.splits)
  qed simp
  moreover have "sound_slots p (no_names p)" by (auto simp: sound_slots_def no_names_def idx_def split: if_splits)
  ultimately show ?thesis .
qed

definition two_packages :: Pickle where
  "two_packages = \<lparr>major = 5, minor = 2, entries =
     [Entry_TermName (lit ''a''), Entry_ExtModClassRef 0 None, Entry_TypeName (lit ''B''), Entry_ExtRef 2 (Some 1)],
     entry_tags = [1, 10, 2, 9]\<rparr>"

lemma two_packages_walk: "walk_ends two_packages MAX_DEPTH i"
proof (cases "i < 4")
  case True
  then have "i \<in> {0, 1, 2, 3}" by auto
  moreover have "\<forall>i \<in> {0, 1, 2, 3}. walk_ends two_packages MAX_DEPTH i" by code_simp
  ultimately show ?thesis by blast
next
  case False
  then have "sym_name two_packages i = None" by (intro sym_name_out_of_range) (simp add: two_packages_def)
  then show ?thesis by (simp add: MAX_DEPTH_def eval_nat_numeral)
qed

lemma memoised_names_witness:
  "fst (ask_names two_packages (no_names two_packages) [3, 1, 3, 7]) =
     [Some (lit ''a.B''), Some (lit ''a''), Some (lit ''a.B''), None]"
proof -
  have "map (full_name two_packages MAX_DEPTH) [3, 1, 3, 7] = [Some (lit ''a.B''), Some (lit ''a''), Some (lit ''a.B''), None]"
    by code_simp
  then show ?thesis
    using memoised_names [of two_packages "[3, 1, 3, 7]"] two_packages_walk by simp
qed

text \<open>A chain of 66 owners.\<close>

definition long_chain :: Pickle where
  "long_chain = \<lparr>major = 5, minor = 2, entries =
     Entry_TermName (lit ''a'') # map (\<lambda>i. Entry_ExtModClassRef 0 (if i < 66 then Some (i + 1) else None)) [1..<67],
     entry_tags = 1 # replicate 66 10\<rparr>"

text \<open>
  Beyond that depth the answers depend on the order of the calls.  Asked first, the symbol two
  owners below the root of a chain of 66 has its name; asked after the innermost symbol it has none,
  because the walk that ran out of depth left \<open>None\<close> in the slots of every symbol it passed.
\<close>
theorem names_depend_on_order:
  "fst (ask_names long_chain (no_names long_chain) [64]) = [Some (lit ''a.a.a'')] \<and>
   fst (ask_names long_chain (no_names long_chain) [1, 64]) = [None, None]"
proof
  show "fst (ask_names long_chain (no_names long_chain) [64]) = [Some (lit ''a.a.a'')]" by code_simp
  show "fst (ask_names long_chain (no_names long_chain) [1, 64]) = [None, None]" by code_simp
qed

end
