(* ===== verification/PickleSound.thy ===== *)
theory PickleSound
  imports Pickle
begin

text \<open>
  Correctness of \<open>read_pickle\<close>: every step moves forward inside its input, panics only where the source
  does, keeps every index in range, and reads nothing past what it consumed.
\<close>

unbundle bit_operations_syntax

section \<open>What every reading step promises\<close>

definition moved_reader :: "reader \<Rightarrow> reader \<Rightarrow> bool" where
  "moved_reader r r' \<longleftrightarrow> rbytes r' = rbytes r \<and> rentry r' = rentry r \<and> rtag r' = rtag r \<and> rpos r \<le> rpos r' \<and>
     (rpos r \<le> length (rbytes r) \<longrightarrow> rpos r' \<le> length (rbytes r))"

text \<open>\<open>safe_at r P f\<close>: from \<open>r\<close>, \<open>f\<close> does not panic; if it succeeds it moves forward to a result in \<open>P\<close>.\<close>

definition safe_at :: "reader \<Rightarrow> ('a \<Rightarrow> bool) \<Rightarrow> 'a reading \<Rightarrow> bool" where
  "safe_at r P f \<longleftrightarrow> f r \<noteq> Panic \<and> (\<forall>x r'. f r = Ok (x, r') \<longrightarrow> P x \<and> moved_reader r r')"

definition safe :: "('a \<Rightarrow> bool) \<Rightarrow> 'a reading \<Rightarrow> bool" where
  "safe P f \<longleftrightarrow> (\<forall>r. safe_at r P f)"

definition appended_reader :: "bytes \<Rightarrow> reader \<Rightarrow> reader" where
  "appended_reader e r = r\<lparr>rbytes := rbytes r @ e\<rparr>"

text \<open>A result does not depend on the bytes after it.\<close>

definition local_reading :: "'a reading \<Rightarrow> bool" where
  "local_reading f \<longleftrightarrow> (\<forall>r x r' e. f r = Ok (x, r') \<longrightarrow> f (appended_reader e r) = Ok (x, appended_reader e r'))"

lemma moved_reader_refl [simp]: "moved_reader r r"
  by (simp add: moved_reader_def)

lemma moved_reader_trans: "moved_reader a b \<Longrightarrow> moved_reader b c \<Longrightarrow> moved_reader a c"
  by (auto simp: moved_reader_def)

lemma and_then_Ok: "and_then f k r = Ok (y, r') \<longleftrightarrow> (\<exists>x s. f r = Ok (x, s) \<and> k x s = Ok (y, r'))"
  by (auto simp: and_then_def rbind_eq_Ok)

lemma and_then_Panic: "and_then f k r = Panic \<longleftrightarrow> f r = Panic \<or> (\<exists>x s. f r = Ok (x, s) \<and> k x s = Panic)"
  by (auto simp: and_then_def rbind_eq_Panic)

lemma safe_at_then:
  "safe_at r Q f \<Longrightarrow> (\<And>x. Q x \<Longrightarrow> safe P (k x)) \<Longrightarrow> safe_at r P (and_then f k)"
  unfolding safe_at_def safe_def and_then_Ok and_then_Panic by (blast intro: moved_reader_trans)

lemma safe_then: "safe Q f \<Longrightarrow> (\<And>x. Q x \<Longrightarrow> safe P (k x)) \<Longrightarrow> safe P (and_then f k)"
  unfolding safe_def [of P "and_then f k"] using safe_at_then [of _ Q f P k] by (auto simp: safe_def [of Q])

lemma safe_return: "P x \<Longrightarrow> safe P (return x)"
  by (simp add: safe_def safe_at_def return_def)

lemma safe_fail: "safe P (fail msg)"
  by (simp add: safe_def safe_at_def fail_def)

lemma safe_if: "(c \<Longrightarrow> safe P f) \<Longrightarrow> (\<not> c \<Longrightarrow> safe P g) \<Longrightarrow> safe P (if c then f else g)"
  by simp

lemma safe_imp_safe_at: "safe P f \<Longrightarrow> safe_at r P f"
  by (simp add: safe_def)

lemma safe_weaken: "safe Q f \<Longrightarrow> (\<And>x. Q x \<Longrightarrow> P x) \<Longrightarrow> safe P f"
  by (auto simp: safe_def safe_at_def)

lemma local_return: "local_reading (return x)"
  by (simp add: local_reading_def return_def)

lemma local_fail: "local_reading (fail msg)"
  by (simp add: local_reading_def fail_def)

lemma local_then: "local_reading f \<Longrightarrow> (\<And>x. local_reading (k x)) \<Longrightarrow> local_reading (and_then f k)"
  unfolding local_reading_def and_then_Ok by blast

lemma local_if: "local_reading f \<Longrightarrow> local_reading g \<Longrightarrow> local_reading (if c then f else g)"
  by simp

text \<open>The contract of a step with results in \<open>P\<close>, and the loops over such a step.\<close>

locale sound_reading =
  fixes step :: "'a reading" and P :: "'a \<Rightarrow> bool"
  assumes step_safe: "safe P step" and step_local: "local_reading step"
begin

lemma collect_safe: "safe (list_all P) (collect k step)"
  by (induction k) (auto intro!: safe_return safe_then [OF step_safe] intro: safe_then)

lemma collect_local: "local_reading (collect k step)"
  by (induction k) (auto intro!: local_return local_then step_local)

lemma until_safe: "safe (list_all P) (until k step end)"
proof (induction k)
  case 0
  show ?case by (simp add: safe_def safe_at_def)
next
  case (Suc k)
  have "safe (list_all P) (and_then step (\<lambda>x. and_then (until k step end) (\<lambda>xs. return (x # xs))))"
    by (intro safe_then [OF step_safe] safe_then [OF Suc.IH] safe_return) simp
  then show ?case by (simp add: safe_def safe_at_def)
qed

lemma until_local: "local_reading (until k step end)"
proof (induction k)
  case 0
  show ?case by (simp add: local_reading_def)
next
  case (Suc k)
  have "local_reading (and_then step (\<lambda>x. and_then (until k step end) (\<lambda>xs. return (x # xs))))"
    by (intro local_then step_local Suc.IH local_return)
  then show ?case by (simp add: local_reading_def appended_reader_def)
qed

lemma read_until_safe: "safe (list_all P) (read_until step end)"
  using until_safe by (simp add: safe_def safe_at_def read_until_def)

lemma read_until_local: "local_reading (read_until step end)"
  using until_local by (simp add: local_reading_def read_until_def appended_reader_def)

end

interpretation byte: sound_reading read_byte "\<lambda>_. True"
  by unfold_locales
     (auto simp: safe_def safe_at_def read_byte_def fail_def moved_reader_def local_reading_def appended_reader_def nth_append)

interpretation long_nat: sound_reading "long_nat_loop k x" "\<lambda>_. True" for k x
proof
  show "safe (\<lambda>_. True) (long_nat_loop k x)"
    by (induction k arbitrary: x)
       (auto intro!: safe_fail safe_then [OF byte.step_safe] safe_if safe_return simp: Let_def)
  show "local_reading (long_nat_loop k x)"
    by (induction k arbitrary: x)
       (auto intro!: local_fail local_then byte.step_local local_return simp: Let_def)
qed

interpretation nat: sound_reading read_nat "\<lambda>_. True"
  unfolding read_nat_def read_long_nat_def
  by unfold_locales (intro safe_then [OF long_nat.step_safe] safe_if safe_fail safe_return
      local_then long_nat.step_local local_if local_fail local_return; simp)+

interpretation ref: sound_reading "read_ref n" "\<lambda>i. i < n" for n
proof
  show "safe (\<lambda>i. i < n) (read_ref n)"
    by (auto simp: read_ref_def check_ref_def safe_def safe_at_def and_then_Ok and_then_Panic return_def fail_def
        intro: nat.step_safe [unfolded safe_def safe_at_def, rule_format, THEN conjunct2, rule_format, THEN conjunct2]
        dest: nat.step_safe [unfolded safe_def safe_at_def, rule_format, THEN conjunct1, THEN notE] split: if_splits)
  show "local_reading (read_ref n)"
    unfolding read_ref_def check_ref_def by (intro local_then nat.step_local local_if local_fail local_return)
qed

definition advances :: "'a reading \<Rightarrow> bool" where
  "advances f \<longleftrightarrow> (\<forall>r x r'. f r = Ok (x, r') \<longrightarrow> rpos r < rpos r')"

locale advancing_reading = sound_reading +
  assumes step_advances: "advances step"
begin

text \<open>The turns allowed are enough: the loop stops because it has reached the end.\<close>

lemma until_fuel: "until k step end r = Ok (xs, r') \<Longrightarrow> end \<le> rpos r + k \<Longrightarrow> end \<le> rpos r'"
proof (induction k arbitrary: r xs)
  case (Suc k)
  show ?case
  proof (cases "rpos r < end")
    case True
    then obtain x s ys where "step r = Ok (x, s)" "until k step end s = Ok (ys, r')"
      using Suc.prems(1) by (auto simp: and_then_Ok return_def)
    then show ?thesis using Suc.IH [of s ys] Suc.prems(2) step_advances by (force simp: advances_def)
  next
    case False
    then show ?thesis using Suc.prems by simp
  qed
qed simp

lemma read_until_end: "read_until step end r = Ok (xs, r') \<Longrightarrow> end \<le> rpos r'"
  unfolding read_until_def by (erule until_fuel) simp

end

lemma byte_advances: "advances read_byte"
  by (auto simp: advances_def read_byte_def fail_def split: if_splits)

lemma then_advances: "advances f \<Longrightarrow> (\<And>x. safe (\<lambda>_. True) (k x)) \<Longrightarrow> advances (and_then f k)"
  by (fastforce simp: advances_def and_then_Ok safe_def safe_at_def moved_reader_def)

lemma long_nat_advances: "advances read_long_nat"
proof -
  have "advances (long_nat_loop (Suc k) v)" for k v
    unfolding long_nat_loop.simps
    by (rule then_advances [OF byte_advances]) (auto simp: Let_def intro!: safe_return long_nat.step_safe)
  from this [of 9 0] show ?thesis by (simp add: read_long_nat_def eval_nat_numeral)
qed

lemma ref_advances: "advances (read_ref n)"
  unfolding read_ref_def read_nat_def
  by (intro then_advances long_nat_advances)
     (auto simp: check_ref_def intro!: safe_if safe_fail safe_return safe_then [where Q = "\<lambda>_. True"])

interpretation ref: advancing_reading "read_ref n" "\<lambda>i. i < n" for n
  by unfold_locales (rule ref_advances)

lemma read_long_nat_safe: "safe (\<lambda>_. True) read_long_nat"
  unfolding read_long_nat_def by (rule long_nat.step_safe)

lemma read_long_nat_local: "local_reading read_long_nat"
  unfolding read_long_nat_def by (rule long_nat.step_local)

interpretation selector: advancing_reading "read_selector n" "\<lambda>(x, y). x < n \<and> y < n" for n
proof
  show "safe (\<lambda>(x, y). x < n \<and> y < n) (read_selector n)"
    unfolding read_selector_def by (intro safe_then [OF ref.step_safe] safe_return) simp
  show "local_reading (read_selector n)"
    unfolding read_selector_def by (intro local_then ref.step_local local_return)
  show "advances (read_selector n)"
    unfolding read_selector_def
    by (rule then_advances [OF ref_advances]) (intro safe_then [OF ref.step_safe] safe_return; simp)
qed

interpretation params: sound_reading "read_params n" "list_all (\<lambda>i. i < n)" for n
  unfolding read_params_def
  by unfold_locales (intro safe_then [OF nat.step_safe] ref.collect_safe local_then nat.step_local ref.collect_local)+

lemmas safe_steps =
  safe_return safe_fail safe_if
  safe_then [OF ref.step_safe] safe_then [OF nat.step_safe] safe_then [OF read_long_nat_safe]
  safe_then [OF ref.collect_safe] safe_then [OF params.collect_safe]
  safe_then [OF ref.read_until_safe] safe_then [OF selector.read_until_safe]

lemmas local_steps =
  local_return local_fail local_if local_then ref.step_local nat.step_local read_long_nat_local
  ref.collect_local params.collect_local ref.read_until_local selector.read_until_local

lemma read_tree_safe: "safe (\<lambda>t. list_all (\<lambda>i. i < n) (tree_refs t)) (read_tree end n tt)"
  unfolding read_tree_def read_term_tree_def read_refs_until_def
  by (intro safe_steps; auto simp: list_all_iff)

lemma read_tree_local: "local_reading (read_tree end n tt)"
  unfolding read_tree_def read_term_tree_def read_refs_until_def by (intro local_steps)

interpretation sym_info: sound_reading "read_sym_info tags n" "\<lambda>i. list_all (\<lambda>i. i < n) (sym_info_refs i)" for tags n
proof
  have first: "safe (\<lambda>(p, i). list_all (\<lambda>i. i < n) (opt_refs p) \<and> i < n)
      (if is_sym_ref tags first then and_then (read_ref n) (\<lambda>info. return (Some first, info)) else return (None, first))"
    if "first < n" for first
    using that by (intro safe_steps) (simp_all add: opt_refs_def)
  show "safe (\<lambda>i. list_all (\<lambda>i. i < n) (sym_info_refs i)) (read_sym_info tags n)"
    unfolding read_sym_info_def
    by (intro safe_steps) (erule safe_then [OF first], auto intro!: safe_return simp: sym_info_refs_def opt_refs_def split: option.splits)
  show "local_reading (read_sym_info tags n)"
    unfolding read_sym_info_def by (auto intro!: local_steps)
qed

interpretation annot_arg: advancing_reading "read_annot_arg tags n"
    "\<lambda>x. case x of Inl a \<Rightarrow> a < n | Inr (a, b) \<Rightarrow> a < n \<and> b < n" for tags n
proof
  show "safe (\<lambda>x. case x of Inl a \<Rightarrow> a < n | Inr (a, b) \<Rightarrow> a < n \<and> b < n) (read_annot_arg tags n)"
    unfolding read_annot_arg_def by (intro safe_steps) auto
  show "local_reading (read_annot_arg tags n)"
    unfolding read_annot_arg_def by (intro local_steps)
  show "advances (read_annot_arg tags n)"
    unfolding read_annot_arg_def
    by (rule then_advances [OF ref_advances]) (intro safe_steps; simp)
qed

interpretation annot: sound_reading "read_annot_info fin tags n" "\<lambda>a. list_all (\<lambda>i. i < n) (annot_refs a)" for fin tags n
proof
  show "safe (\<lambda>a. list_all (\<lambda>i. i < n) (annot_refs a)) (read_annot_info fin tags n)"
    unfolding read_annot_info_def
    by (intro safe_steps safe_then [OF annot_arg.read_until_safe])
       (fastforce simp: list_all_iff annot_refs_def lefts_def rights_def split: sum.splits)
  show "local_reading (read_annot_info fin tags n)"
    unfolding read_annot_info_def by (intro local_steps annot_arg.read_until_local)
qed

interpretation optional: sound_reading "read_optional fin n" "\<lambda>m. list_all (\<lambda>i. i < n) (opt_refs m)" for fin n
proof
  have s: "safe (\<lambda>m. list_all (\<lambda>i. i < n) (opt_refs m)) (and_then (read_ref n) (\<lambda>i. return (Some i)))"
    by (intro safe_steps) (simp add: opt_refs_def)
  then show "safe (\<lambda>m. list_all (\<lambda>i. i < n) (opt_refs m)) (read_optional fin n)"
    by (simp add: read_optional_def safe_def safe_at_def opt_refs_def)
  have "local_reading (and_then (read_ref n) (\<lambda>i. return (Some i)))" by (intro local_steps)
  then show "local_reading (read_optional fin n)"
    by (simp add: read_optional_def local_reading_def appended_reader_def)
qed

interpretation tree_entry: sound_reading "read_tree_entry fin n" "\<lambda>e. list_all (\<lambda>i. i < n) (entry_refs e)" for fin n
proof
  have t: "safe (\<lambda>m. list_all (\<lambda>i. i < n) (opt_refs m))
      (if tt = EMPTYtree then return None else and_then (read_ref n) (\<lambda>tpe. return (Some tpe)))" for tt
    by (intro safe_steps) (simp_all add: opt_refs_def)
  show "safe (\<lambda>e. list_all (\<lambda>i. i < n) (entry_refs e)) (read_tree_entry fin n)"
    unfolding read_tree_entry_def
    by (intro safe_then [OF byte.step_safe] safe_then [OF t] safe_then [OF read_tree_safe] safe_return) simp
  show "local_reading (read_tree_entry fin n)"
    unfolding read_tree_entry_def by (intro local_steps byte.step_local read_tree_local)
qed

interpretation ref_rest: sound_reading "read_ref_and_rest fin n mk" "\<lambda>e. \<exists>i is. e = mk i is \<and> i < n \<and> list_all (\<lambda>i. i < n) is" for fin n mk
proof
  show "safe (\<lambda>e. \<exists>i is. e = mk i is \<and> i < n \<and> list_all (\<lambda>i. i < n) is) (read_ref_and_rest fin n mk)"
    unfolding read_ref_and_rest_def read_refs_until_def by (intro safe_steps) blast
  show "local_reading (read_ref_and_rest fin n mk)"
    unfolding read_ref_and_rest_def read_refs_until_def by (intro local_steps)
qed

section \<open>Entry bodies\<close>

lemma safe_at_if: "(c \<Longrightarrow> safe_at r P f) \<Longrightarrow> (\<not> c \<Longrightarrow> safe_at r P g) \<Longrightarrow> safe_at r P (if c then f else g)"
  by simp

interpretation long_loop: sound_reading "long_loop k x" "\<lambda>_. True" for k x
proof
  show "safe (\<lambda>_. True) (long_loop k x)"
    by (induction k arbitrary: x) (auto intro!: safe_return safe_then [OF byte.step_safe])
  show "local_reading (long_loop k x)"
    by (induction k arbitrary: x) (auto intro!: local_return local_then byte.step_local)
qed

lemma read_long_safe: "0 < len \<Longrightarrow> safe (\<lambda>_. True) (read_long len)"
  unfolding read_long_def
  by (intro safe_if safe_fail safe_then [OF long_loop.step_safe]) (simp add: safe_def safe_at_def Let_def)

lemma read_long_local: "local_reading (read_long len)"
  unfolding read_long_def
  by (intro local_if local_fail local_then long_loop.step_local)
     (auto simp: local_reading_def Let_def)

lemma read_rest_long_safe: "rpos r < end \<Longrightarrow> safe_at r (\<lambda>_. True) (read_rest_long end)"
  using read_long_safe [of "end - rpos r"] by (simp add: read_rest_long_def safe_def safe_at_def)

lemma read_rest_long_local: "local_reading (read_rest_long end)"
  using read_long_local by (auto simp: read_rest_long_def local_reading_def appended_reader_def)

lemma read_name_safe: "rpos r \<le> end \<Longrightarrow> end \<le> length (rbytes r) \<Longrightarrow> safe_at r (\<lambda>_. True) (read_name end)"
  by (simp add: read_name_def safe_at_def moved_reader_def)

lemma read_name_local: "local_reading (read_name end)"
  by (auto simp: read_name_def local_reading_def appended_reader_def split: if_splits)

definition numeric_literal :: "u8 \<Rightarrow> bool" where
  "numeric_literal tag \<longleftrightarrow> tag \<in> {LITERALboolean, LITERALbyte, LITERALshort, LITERALchar, LITERALint, LITERALlong,
     LITERALfloat, LITERALdouble}"

lemma read_body_safe:
  assumes "rpos r \<le> end" "end \<le> length (rbytes r)" "numeric_literal tag \<Longrightarrow> rpos r < end"
  shows "safe_at r (\<lambda>e. list_all (\<lambda>i. i < n) (entry_refs e)) (read_body end all_tags n tag)"
proof -
  note name = safe_at_then [OF read_name_safe [OF assms(1,2)]]
  note literal = safe_at_then [OF read_rest_long_safe [OF assms(3)]]
  note steps = safe_then [OF sym_info.step_safe] safe_then [OF optional.step_safe] safe_then [OF annot.step_safe]
    safe_weaken [OF ref_rest.step_safe] tree_entry.step_safe
  show ?thesis
    unfolding read_body_def read_refs_until_def
    by (intro safe_at_if;
        ((rule name, rule safe_return, simp) |
         (rule literal, simp add: numeric_literal_def, rule safe_return, simp) |
         (rule safe_imp_safe_at, (intro steps safe_steps; fastforce simp: list_all_iff))))
qed

lemma read_body_local: "local_reading (read_body end all_tags n tag)"
  unfolding read_body_def read_refs_until_def
  by (intro local_steps read_name_local read_rest_long_local sym_info.step_local optional.step_local annot.step_local
      ref_rest.step_local tree_entry.step_local)

section \<open>The passes\<close>

definition extent_ok :: "nat \<Rightarrow> extent \<Rightarrow> bool" where
  "extent_ok m ext = (case ext of (start, tag, end) \<Rightarrow> start \<le> end \<and> end \<le> m)"

definition empty_literal :: "extent \<Rightarrow> bool" where
  "empty_literal ext = (case ext of (start, tag, end) \<Rightarrow> numeric_literal tag \<and> start = end)"

lemma safeD: "safe P f \<Longrightarrow> f r \<noteq> Panic" "safe P f \<Longrightarrow> f r = Ok (x, r') \<Longrightarrow> P x \<and> moved_reader r r'"
  by (auto simp: safe_def safe_at_def)

lemma localD: "local_reading f \<Longrightarrow> f r = Ok (x, r') \<Longrightarrow> f (appended_reader e r) = Ok (x, appended_reader e r')"
  by (auto simp: local_reading_def)

lemma appended_reader_simps [simp]: "rpos (appended_reader e r) = rpos r" "rbytes (appended_reader e r) = rbytes r @ e"
  "(appended_reader e r)\<lparr>rpos := p\<rparr> = appended_reader e (r\<lparr>rpos := p\<rparr>)"
  "(appended_reader e r)\<lparr>rtag := t\<rparr> = appended_reader e (r\<lparr>rtag := t\<rparr>)"
  "(appended_reader e r)\<lparr>rentry := m\<rparr> = appended_reader e (r\<lparr>rentry := m\<rparr>)"
  "rtag (appended_reader e r) = rtag r" "rentry (appended_reader e r) = rentry r"
  by (simp_all add: appended_reader_def)

lemma read_extents_no_panic: "read_extents i k r \<noteq> Panic"
proof (induction k arbitrary: i r)
  case (Suc k)
  show ?case
    by (auto simp: and_then_Panic Let_def fail_def return_def Suc.IH split: if_splits
        dest: safeD(1) [OF byte.step_safe, THEN notE] safeD(1) [OF nat.step_safe, THEN notE])
qed (simp add: return_def)

lemma read_extents_Suc:
  assumes "read_extents i (Suc k) r = Ok (exts, r')"
  obtains tag s len u rest where "read_byte (r\<lparr>rentry := Some i, rtag := 0\<rparr>) = Ok (tag, s)"
    "read_nat (s\<lparr>rtag := tag\<rparr>) = Ok (len, u)" "rpos u + len \<le> length (rbytes u)"
    "read_extents (Suc i) k (u\<lparr>rpos := rpos u + len\<rparr>) = Ok (rest, r')"
    "exts = (rpos u, tag, rpos u + len) # rest"
  using assms by (auto simp: and_then_Ok Let_def fail_def return_def split: if_splits)

lemma read_extents_ok:
  "read_extents i k r = Ok (exts, r') \<Longrightarrow> length exts = k \<and> rbytes r' = rbytes r \<and> rpos r \<le> rpos r' \<and>
     list_all (extent_ok (length (rbytes r))) exts"
proof (induction k arbitrary: i r exts)
  case 0
  then show ?case by (simp add: return_def)
next
  case (Suc k)
  from Suc.prems show ?case
  proof (cases rule: read_extents_Suc)
    case (1 tag s len u rest)
    from safeD(2) [OF byte.step_safe 1(1)] safeD(2) [OF nat.step_safe 1(2)] Suc.IH [OF 1(4)] 1
    show ?thesis by (simp add: moved_reader_def extent_ok_def)
  qed
qed

lemma read_extents_local: "local_reading (read_extents i k)"
proof (induction k arbitrary: i)
  case 0
  show ?case by (simp add: local_return)
next
  case (Suc k)
  show ?case
    unfolding local_reading_def
  proof (intro allI impI)
    fix r x r' e
    assume "read_extents i (Suc k) r = Ok (x, r')"
    then show "read_extents i (Suc k) (appended_reader e r) = Ok (x, appended_reader e r')"
    proof (cases rule: read_extents_Suc)
      case (1 tag s len u rest)
      from localD [OF byte.step_local 1(1), of e] localD [OF nat.step_local 1(2), of e] localD [OF Suc.IH 1(4), of e] 1
      show ?thesis by (simp add: and_then_Ok Let_def return_def)
    qed
  qed
qed

lemma read_bodies_Cons:
  "read_bodies i ((start, tag, end) # rest) all_tags n r =
     and_then (read_body end all_tags n tag) (\<lambda>e r.
       if rpos r \<noteq> end then fail (NotConsumed (rpos r - start) (end - start)) r
       else and_then (read_bodies (Suc i) rest all_tags n) (\<lambda>es. return (e # es)) r)
     (r\<lparr>rentry := Some i, rtag := tag, rpos := start\<rparr>)"
  by (simp add: read_entry_def and_then_def)

lemma read_bodies_safe:
  assumes "list_all (extent_ok (length (rbytes r))) exts" "\<not> list_ex empty_literal exts"
  shows "read_bodies i exts all_tags n r \<noteq> Panic \<and> (\<forall>es r'. read_bodies i exts all_tags n r = Ok (es, r') \<longrightarrow>
    length es = length exts \<and> list_all (\<lambda>e. list_all (\<lambda>i. i < n) (entry_refs e)) es)"
  using assms
proof (induction exts arbitrary: i r)
  case Nil
  then show ?case by (simp add: return_def)
next
  case (Cons ext exts)
  obtain start tag fin where ext: "ext = (start, tag, fin)" by (cases ext)
  let ?r = "r\<lparr>rentry := Some i, rtag := tag, rpos := start\<rparr>"
  have b: "safe_at ?r (\<lambda>e. list_all (\<lambda>i. i < n) (entry_refs e)) (read_body fin all_tags n tag)"
    using Cons.prems by (intro read_body_safe) (auto simp: ext extent_ok_def empty_literal_def)
  have IH: "read_bodies (Suc i) exts all_tags n s \<noteq> Panic \<and> (\<forall>es r'. read_bodies (Suc i) exts all_tags n s = Ok (es, r') \<longrightarrow>
    length es = length exts \<and> list_all (\<lambda>e. list_all (\<lambda>i. i < n) (entry_refs e)) es)" if "moved_reader ?r s" for s
    using that Cons.prems by (intro Cons.IH) (auto simp: moved_reader_def)
  show ?case
  proof (cases "read_body fin all_tags n tag ?r")
    case (Ok p)
    then obtain e s where p: "read_body fin all_tags n tag ?r = Ok (e, s)" by (cases p) auto
    with b have "list_all (\<lambda>i. i < n) (entry_refs e)" "moved_reader ?r s" by (auto simp: safe_at_def)
    then show ?thesis
      using IH [of s] unfolding ext read_bodies_Cons and_then_def p
      by (cases "read_bodies (Suc i) exts all_tags n s") (auto simp: fail_def return_def)
  next
    case (Err e)
    then show ?thesis unfolding ext read_bodies_Cons and_then_def by simp
  next
    case Panic
    with b show ?thesis by (simp add: safe_at_def)
  qed
qed

lemma read_bodies_local: "local_reading (read_bodies i exts all_tags n)"
proof (induction exts arbitrary: i)
  case Nil
  show ?case by (simp add: local_return)
next
  case (Cons ext exts)
  obtain start tag fin where ext: "ext = (start, tag, fin)" by (cases ext)
  show ?case
    unfolding ext local_reading_def
  proof (intro allI impI)
    fix r :: reader and es r' e
    let ?r = "r\<lparr>rentry := Some i, rtag := tag, rpos := start\<rparr>"
    assume "read_bodies i ((start, tag, fin) # exts) all_tags n r = Ok (es, r')"
    then obtain x s xs where b: "read_body fin all_tags n tag ?r = Ok (x, s)" "rpos s = fin"
        "read_bodies (Suc i) exts all_tags n s = Ok (xs, r')" "es = x # xs"
      unfolding read_bodies_Cons by (auto simp: and_then_Ok fail_def return_def split: if_splits)
    show "read_bodies i ((start, tag, fin) # exts) all_tags n (appended_reader e r) = Ok (es, appended_reader e r')"
      using localD [OF read_body_local b(1), of e] localD [OF Cons.IH b(3), of e] b(2,4)
      unfolding read_bodies_Cons by (simp add: and_then_def return_def)
  qed
qed

lemma read_table_ok:
  assumes "read_table r = Ok ((ma, mi, exts), r')"
  shows "ma = MAJOR \<and> rbytes r' = rbytes r \<and> list_all (extent_ok (length (rbytes r))) exts"
proof -
  obtain a b c r1 r2 r3 where "read_nat r = Ok (a, r1)" "read_nat r1 = Ok (b, r2)" "a = MAJOR"
      "read_nat r2 = Ok (c, r3)" "read_extents 0 c r3 = Ok (exts, r')" "ma = a"
    using assms by (auto simp: read_table_def and_then_Ok return_def fail_def split: if_splits)
  then show ?thesis
    using safeD(2) [OF nat.step_safe] read_extents_ok by (fastforce simp: moved_reader_def)
qed

lemma read_table_no_panic: "read_table r \<noteq> Panic"
  by (auto simp: read_table_def and_then_Panic fail_def return_def read_extents_no_panic
      dest: safeD(1) [OF nat.step_safe, THEN notE] split: if_splits)

lemma read_table_local: "local_reading read_table"
  unfolding read_table_def by (intro local_then nat.step_local local_if local_fail read_extents_local local_return)


lemma read_pickle_cases:
  obtains (bad_table) e where "read_pickle bs = Err e"
  | (table) ma mi exts r where "read_table (reader_new bs) = Ok ((ma, mi, exts), r)"
      "read_pickle bs = rbind (read_bodies 0 exts (map (\<lambda>(_, tag, _). tag) exts) (length exts) r)
         (\<lambda>(es, _). Ok \<lparr>major = ma, minor = mi, entries = es, entry_tags = map (\<lambda>(_, tag, _). tag) exts\<rparr>)"
proof (cases "read_table (reader_new bs)")
  case (Ok p)
  obtain ma mi exts r where p: "p = ((ma, mi, exts), r)" by (cases p) auto
  show ?thesis
  proof (rule table)
    show "read_table (reader_new bs) = Ok ((ma, mi, exts), r)" using Ok p by simp
    show "read_pickle bs = rbind (read_bodies 0 exts (map (\<lambda>(_, tag, _). tag) exts) (length exts) r)
         (\<lambda>(es, _). Ok \<lparr>major = ma, minor = mi, entries = es, entry_tags = map (\<lambda>(_, tag, _). tag) exts\<rparr>)"
      unfolding read_pickle_def and_then_def Ok p
      by (cases "read_bodies 0 exts (map (\<lambda>(_, tag, _). tag) exts) (length exts) r")
        (auto simp: return_def Let_def)
  qed
next
  case (Err e)
  then show ?thesis by (intro bad_table) (simp add: read_pickle_def and_then_def)
next
  case Panic
  with read_table_no_panic show ?thesis by simp
qed

lemma rbind_pair_Ok:
  "rbind f (\<lambda>(a, b). Ok (g a)) = Ok y \<longleftrightarrow> (\<exists>a b. f = Ok (a, b) \<and> y = g a)"
  "rbind f (\<lambda>(a, b). Ok (g a)) = Panic \<longleftrightarrow> f = Panic"
  by (cases f; auto simp:)+

lemma read_body_empty_literal: "numeric_literal tag \<Longrightarrow> rpos r = fin \<Longrightarrow> read_body fin all_tags n tag r = Panic"
  unfolding numeric_literal_def
  by (auto simp: read_body_def and_then_def read_rest_long_def read_long_def return_def)

lemma read_bodies_no_empty_literal: "read_bodies i exts all_tags n r = Ok (es, r') \<Longrightarrow> \<not> list_ex empty_literal exts"
proof (induction exts arbitrary: i r es)
  case (Cons ext exts)
  obtain start tag fin where ext: "ext = (start, tag, fin)" by (cases ext)
  from Cons.prems obtain x s xs where x: "read_body fin all_tags n tag (r\<lparr>rentry := Some i, rtag := tag, rpos := start\<rparr>) = Ok (x, s)"
      and xs: "read_bodies (Suc i) exts all_tags n s = Ok (xs, r')"
    unfolding ext read_bodies_Cons by (auto simp: and_then_Ok fail_def return_def split: if_splits)
  from x have "\<not> empty_literal ext"
    by (auto simp: ext empty_literal_def read_body_empty_literal)
  with Cons.IH [OF xs] show ?case by simp
qed simp

text \<open>
  C17: a pickle that was read has the supported major version, one tag for each entry, and no entry
  refers past the end of the table, in its symbol info, types, literals, annotations or tree.
\<close>
theorem read_pickle_wellformed:
  assumes "read_pickle bs = Ok p"
  shows "major p = MAJOR \<and> length (entry_tags p) = length (entries p) \<and>
    list_all (\<lambda>e. list_all (\<lambda>i. i < length (entries p)) (entry_refs e)) (entries p)"
proof (cases bs rule: read_pickle_cases)
  case (table ma mi exts r)
  have "rbind (read_bodies 0 exts (map (\<lambda>(_, tag, _). tag) exts) (length exts) r)
         (\<lambda>(es, _). Ok \<lparr>major = ma, minor = mi, entries = es, entry_tags = map (\<lambda>(_, tag, _). tag) exts\<rparr>) = Ok p"
    using table(2) assms by simp
  then obtain es r' where "read_bodies 0 exts (map (\<lambda>(_, tag, _). tag) exts) (length exts) r = Ok (es, r')"
    "p = \<lparr>major = ma, minor = mi, entries = es, entry_tags = map (\<lambda>(_, tag, _). tag) exts\<rparr>"
    by (auto simp: rbind_pair_Ok dest: sym)
  then show ?thesis
    using read_table_ok [OF table(1)] read_bodies_no_empty_literal
      read_bodies_safe [of r exts 0 "map (\<lambda>(_, tag, _). tag) exts" "length exts"]
    by (auto simp: reader_new_def)
qed (use assms in simp)

lemma read_pickle_wellformed_witness:
  "major \<lparr>major = 5, minor = 2, entries = [Entry_TermName [97], Entry_ExtModClassRef 0 None], entry_tags = [1, 10]\<rparr> = MAJOR"
proof -
  have "read_pickle [5, 2, 2, 1, 1, 97, 10, 1, 0] =
    Ok \<lparr>major = 5, minor = 2, entries = [Entry_TermName [97], Entry_ExtModClassRef 0 None], entry_tags = [1, 10]\<rparr>"
    by code_simp
  from read_pickle_wellformed [OF this] show ?thesis by blast
qed

text \<open>
  C18: \<open>read_pickle\<close> panics on no input except one whose table has a numeric literal of no bytes.
\<close>
theorem read_pickle_panics_only_on_empty_literal:
  assumes "read_pickle bs = Panic"
  shows "\<exists>ma mi exts r. read_table (reader_new bs) = Ok ((ma, mi, exts), r) \<and> list_ex empty_literal exts"
proof (cases bs rule: read_pickle_cases)
  case (table ma mi exts r)
  have "rbind (read_bodies 0 exts (map (\<lambda>(_, tag, _). tag) exts) (length exts) r)
         (\<lambda>(es, _). Ok \<lparr>major = ma, minor = mi, entries = es, entry_tags = map (\<lambda>(_, tag, _). tag) exts\<rparr>) = Panic"
    using table(2) assms by simp
  then have "read_bodies 0 exts (map (\<lambda>(_, tag, _). tag) exts) (length exts) r = Panic"
    by (simp add: rbind_pair_Ok)
  then have "list_ex empty_literal exts"
    using read_bodies_safe [of r exts 0 "map (\<lambda>(_, tag, _). tag) exts" "length exts"] read_table_ok [OF table(1)]
    by (auto simp: reader_new_def)
  with table(1) show ?thesis by blast
qed (use assms in simp)

lemma read_pickle_panics_witness:
  "\<exists>ma mi exts r. read_table (reader_new [5, 2, 1, 29, 0]) = Ok ((ma, mi, exts), r) \<and> list_ex empty_literal exts"
  by (rule read_pickle_panics_only_on_empty_literal) code_simp

text \<open>
  C19: \<open>read_pickle\<close> reads only the table: bytes after it do not change what was read.
\<close>
theorem read_pickle_local:
  assumes "read_pickle bs = Ok p"
  shows "read_pickle (bs @ e) = Ok p"
proof (cases bs rule: read_pickle_cases)
  case (table ma mi exts r)
  let ?tags = "map (\<lambda>(_, tag, _). tag) exts"
  have "rbind (read_bodies 0 exts (map (\<lambda>(_, tag, _). tag) exts) (length exts) r)
         (\<lambda>(es, _). Ok \<lparr>major = ma, minor = mi, entries = es, entry_tags = map (\<lambda>(_, tag, _). tag) exts\<rparr>) = Ok p"
    using table(2) assms by simp
  then obtain es r' where es: "read_bodies 0 exts ?tags (length exts) r = Ok (es, r')"
    "p = \<lparr>major = ma, minor = mi, entries = es, entry_tags = ?tags\<rparr>"
    by (auto simp: rbind_pair_Ok)
  have n: "appended_reader e (reader_new bs) = reader_new (bs @ e)"
    by (simp add: appended_reader_def reader_new_def)
  show ?thesis
    using localD [OF read_table_local table(1), of e] localD [OF read_bodies_local es(1), of e] es(2)
    unfolding n by (simp add: read_pickle_def and_then_def return_def Let_def)
qed (use assms in simp)

lemma read_pickle_local_witness:
  "read_pickle ([5, 2, 1, 3, 0] @ [1, 2, 3]) = Ok \<lparr>major = 5, minor = 2, entries = [Entry_NoneSym], entry_tags = [3]\<rparr>"
proof -
  have "read_pickle [5, 2, 1, 3, 0] = Ok \<lparr>major = 5, minor = 2, entries = [Entry_NoneSym], entry_tags = [3]\<rparr>" by code_simp
  from read_pickle_local [OF this] show ?thesis by blast
qed

end
