(* ===== verification/PickleBuf.thy ===== *)
theory PickleBuf
  imports PickleSound
begin

text \<open>
  The byte-level writers of \<open>crates/backend/src/pickle.rs\<close> (\<open>Buf\<close>, \<open>write_long_nat_to\<close>,
  \<open>write_long_signed_256\<close>, \<open>finish\<close>, \<open>raw_to_pickled\<close>) and what the reader makes of their output.
\<close>

unbundle bit_operations_syntax

function nat_prefix :: "u64 \<Rightarrow> bytes" where
  "nat_prefix x =
     (let y = drop_bit 7 x in (if y \<noteq> 0 then nat_prefix y else []) @ [ucast ((x AND 0x7f) OR 0x80)])"
  by pat_completeness auto

lemma unat_drop7: "unat (drop_bit 7 (x :: u64)) = unat x div 128"
  by (simp add: unat_drop_bit_eq) (simp add: drop_bit_eq_div)

lemma drop_smaller: "drop_bit 7 (x :: u64) \<noteq> 0 \<Longrightarrow> unat (drop_bit 7 x) < unat x"
proof -
  assume a: "drop_bit 7 x \<noteq> 0"
  note unat_drop7 [of x]
  moreover have "0 < unat x" using a by (auto simp: unat_gt_0)
  ultimately show ?thesis by simp
qed

termination nat_prefix
  by (relation "measure unat") (auto simp: drop_smaller)

declare nat_prefix.simps [simp del]

definition write_long_nat_to :: "bytes \<Rightarrow> u64 \<Rightarrow> bytes" where
  "write_long_nat_to out x =
     (let y = drop_bit 7 x in (if y \<noteq> 0 then out @ nat_prefix y else out) @ [ucast (x AND 0x7f)])"

function write_long_signed_256 :: "bytes \<Rightarrow> i64 \<Rightarrow> bytes" where
  "write_long_signed_256 out x =
     (let y = sar 8 x; z = x AND 0xff in
      (if - y \<noteq> sar 7 z then write_long_signed_256 out y else out) @ [ucast z])"
  by pat_completeness auto

lemma sar_sint: "sint (sar 8 (x :: i64)) = sint x div 256"
  by (simp add: sar_def sint_signed_drop_bit_eq drop_bit_eq_div)

lemma sint_of_int_range: "- (2 ^ 63) \<le> k \<Longrightarrow> k < 2 ^ 63 \<Longrightarrow> sint (word_of_int k :: i64) = k"
  by (simp add: signed_of_int signed_take_bit_int_eq_self)

lemma low_byte: "(x AND 0xff :: i64) = word_of_int (sint x mod 256)"
proof -
  have m: "(0xff :: i64) = mask 8" by (simp add: mask_eq_exp_minus_1)
  have "take_bit 8 x = word_of_int (take_bit 8 (sint x))"
    by (rule bit_word_eqI) (auto simp: bit_simps)
  moreover have "take_bit 8 (sint x) = sint x mod 256" by (simp add: take_bit_eq_mod)
  ultimately show ?thesis unfolding m by (simp flip: take_bit_eq_mask)
qed

lemma sint_range: "- (2 ^ 63) \<le> sint (x :: i64) \<and> sint x < 2 ^ 63"
  using sint_greater_eq [of x] sint_less [of x] by simp

lemma sar_sint_div: "sint (sar n (x :: i64)) = sint x div 2 ^ n"
  by (simp add: sar_def sint_signed_drop_bit_eq drop_bit_eq_div)

lemma sar_int: "sar n (x :: i64) = word_of_int (sint x div 2 ^ n)"
  using arg_cong [OF sar_sint_div [of n x], of "word_of_int :: int \<Rightarrow> i64"] by simp

lemma sar_stop: "- sar 8 x = sar 7 (x AND 0xff) \<longleftrightarrow> -128 \<le> sint (x :: i64) \<and> sint x < 128"
proof -
  define q m where "q = sint x div 256" and "m = sint x mod 256"
  have x: "sint x = 256 * q + m" "0 \<le> m" "m < 256" by (simp_all add: q_def m_def)
  have qr: "- (2 ^ 55) \<le> q" "q < 2 ^ 55" using sint_range [of x] x by simp_all
  have eqv: "a = b \<longleftrightarrow> sint a = sint b" for a b :: i64
    by (rule word_eq_iff_signed)
  have "sar 8 x = word_of_int q" by (simp add: sar_int q_def)
  then have "- sar 8 x = word_of_int (- q)" by (simp only: wi_hom_neg)
  then have "sint (- sar 8 x) = - q" using qr sint_of_int_range [of "- q"] by simp
  moreover have "sint (x AND 0xff) = m" using x by (simp add: low_byte m_def [symmetric] sint_of_int_range)
  then have "sint (sar 7 (x AND 0xff)) = m div 128" using x by (simp add: sar_int sint_of_int_range)
  ultimately have "- sar 8 x = sar 7 (x AND 0xff) \<longleftrightarrow> - q = m div 128"
    unfolding eqv by simp
  also have "\<dots> \<longleftrightarrow> -128 \<le> sint x \<and> sint x < 128"
  proof -
    have "m div 128 = (if m < 128 then 0 else 1)"
      using x int_div_pos_eq [of m 128 1 "m - 128"] by (simp add: div_pos_pos_trivial)
    then show ?thesis using x by (cases "m < 128") auto
  qed
  finally show ?thesis .
qed

termination write_long_signed_256
proof (relation "measure (\<lambda>(out, x). nat \<bar>sint x\<bar>)")
  fix out x y z
  assume y: "y = sar 8 (x :: i64)" and z: "z = x AND 0xff" and a: "- y \<noteq> sar 7 z"
  have "\<not> (-128 \<le> sint x \<and> sint x < 128)" using a unfolding y z sar_stop by blast
  moreover have "sint y = sint x div 256" using y sar_sint by simp
  ultimately show "((out, y), (out, x)) \<in> measure (\<lambda>(out, x). nat \<bar>sint x\<bar>)" by auto
qed simp

declare write_long_signed_256.simps [simp del]

lemma at_byte: "rbytes r = pre @ b # rest \<Longrightarrow> rpos r = length pre \<Longrightarrow> read_byte r = Ok (b, r\<lparr>rpos := rpos r + 1\<rparr>)"
  by (simp add: read_byte_def)

lemma bit_0x80: "bit (0x80 :: u64) n \<longleftrightarrow> n = 7" "bit (0x80 :: u8) n \<longleftrightarrow> n = 7"
    "bit (0x80 :: int) n \<longleftrightarrow> n = 7"
  using bit_exp_iff [of 7 n, where 'a = "64 word"] bit_exp_iff [of 7 n, where 'a = "8 word"]
    bit_exp_iff [of 7 n, where 'a = int] by auto

lemma seven_bits: "(0x7f :: u64) = mask 7"
  by (simp add: mask_eq_exp_minus_1)

lemma group_join: "push_bit 7 (drop_bit 7 x) OR (ucast (ucast ((x AND 0x7f) OR 0x80) :: u8) AND 0x7f) = (x :: u64)"
  "push_bit 7 (drop_bit 7 x) OR (ucast (ucast (x AND 0x7f) :: u8) AND 0x7f) = (x :: u64)"
proof -
  show "push_bit 7 (drop_bit 7 x) OR (ucast (ucast ((x AND 0x7f) OR 0x80) :: u8) AND 0x7f) = x"
    unfolding seven_bits
  proof (rule bit_word_eqI)
    fix n show "bit (push_bit 7 (drop_bit 7 x) OR (ucast (ucast ((x AND mask 7) OR 0x80) :: u8) AND mask 7)) n = bit x n"
      if "n < LENGTH(64)" using that by (cases "n < 7") (simp_all add: bit_simps bit_0x80)
  qed
  show "push_bit 7 (drop_bit 7 x) OR (ucast (ucast (x AND 0x7f) :: u8) AND 0x7f) = x"
    unfolding seven_bits
  proof (rule bit_word_eqI)
    fix n show "bit (push_bit 7 (drop_bit 7 x) OR (ucast (ucast (x AND mask 7) :: u8) AND mask 7)) n = bit x n"
      if "n < LENGTH(64)" using that by (cases "n < 7") (simp_all add: bit_simps bit_0x80)
  qed
qed

lemma group_flag: "(ucast (ucast (((x :: u64) AND 0x7f) OR 0x80) :: u8) :: u64) AND 0x80 \<noteq> 0"
  "(ucast (ucast ((x :: u64) AND 0x7f) :: u8) :: u64) AND 0x80 = 0"
proof -
  have "bit ((ucast (ucast ((x AND 0x7f) OR 0x80) :: u8) :: u64) AND 0x80) 7"
    by (simp add: bit_simps bit_0x80)
  then show "(ucast (ucast ((x AND 0x7f) OR 0x80) :: u8) :: u64) AND 0x80 \<noteq> 0"
    by (metis bit_0_eq bot_apply bot_bool_def)
  show "(ucast (ucast (x AND 0x7f) :: u8) :: u64) AND 0x80 = 0"
    unfolding seven_bits by (rule bit_word_eqI) (auto simp: bit_simps bit_0x80)
qed

lemma read_prefix:
  "rbytes r = pre @ nat_prefix x @ rest \<Longrightarrow> rpos r = length pre \<Longrightarrow>
     long_nat_loop (k + length (nat_prefix x)) 0 r = long_nat_loop k x (r\<lparr>rpos := rpos r + length (nat_prefix x)\<rparr>)"
proof (induction x arbitrary: k rest rule: nat_prefix.induct)
  case (1 x)
  let ?y = "drop_bit 7 x"
  let ?b = "ucast ((x AND 0x7f) OR 0x80) :: u8"
  show ?case
  proof (cases "?y = 0")
    case True
    then have p: "nat_prefix x = [?b]" by (simp add: nat_prefix.simps)
    show ?thesis
      using at_byte [of r pre ?b rest] 1(2,3) group_join(1) [of x] group_flag(1) [of x] True
      by (simp add: p and_then_def Let_def)
  next
    case False
    then have p: "nat_prefix x = nat_prefix ?y @ [?b]" by (subst nat_prefix.simps) (simp add: Let_def)
    let ?r = "r\<lparr>rpos := rpos r + length (nat_prefix ?y)\<rparr>"
    have "long_nat_loop (Suc k + length (nat_prefix ?y)) 0 r = long_nat_loop (Suc k) ?y ?r"
      using 1(1) [OF refl False, of "?b # rest" "Suc k"] 1(2,3) by (simp add: p)
    moreover have "read_byte ?r = Ok (?b, ?r\<lparr>rpos := rpos ?r + 1\<rparr>)"
      using 1(2,3) by (intro at_byte [of _ "pre @ nat_prefix ?y" _ rest]) (simp_all add: p)
    ultimately show ?thesis
      using group_join(1) [of x] group_flag(1) [of x] by (simp add: p and_then_def Let_def)
  qed
qed

lemma prefix_length: "unat x < 2 ^ (7 * m) \<Longrightarrow> 0 < m \<Longrightarrow> length (nat_prefix x) \<le> m"
proof (induction x arbitrary: m rule: nat_prefix.induct)
  case (1 x)
  let ?y = "drop_bit 7 x"
  show ?case
  proof (cases "?y = 0")
    case True
    with 1(3) show ?thesis by (simp add: nat_prefix.simps)
  next
    case False
    note y = unat_drop7 [of x]
    obtain m' where m: "m = Suc m'" using 1(3) by (cases m) auto
    have "unat x < 128 * 2 ^ (7 * m')" using 1(2) by (simp add: m power_add)
    then have "unat ?y < 2 ^ (7 * m')" unfolding y by (simp add: less_mult_imp_div_less mult.commute)
    moreover from this have "0 < m'" using False by (cases m') (auto simp: unat_eq_zero)
    ultimately have "length (nat_prefix ?y) \<le> m'" using 1(1) [OF refl False] by simp
    with False m show ?thesis by (subst nat_prefix.simps) (simp add: Let_def)
  qed
qed

lemma write_long_nat_append: "write_long_nat_to out x = out @ write_long_nat_to [] x"
  by (simp add: write_long_nat_to_def Let_def)

lemma long_nat_reads:
  assumes "rbytes r = pre @ write_long_nat_to [] x @ rest" "rpos r = length pre"
  shows "read_long_nat r = Ok (x, r\<lparr>rpos := rpos r + length (write_long_nat_to [] x)\<rparr>)"
proof -
  let ?y = "drop_bit 7 x"
  let ?b = "ucast (x AND 0x7f) :: u8"
  have last: "long_nat_loop (Suc k) ?y s = Ok (x, s\<lparr>rpos := rpos s + 1\<rparr>)"
    if "rbytes s = p @ ?b # rest" "rpos s = length p" for k s p
    using at_byte [of s p ?b rest] that group_join(2) [of x] group_flag(2) [of x]
    by (simp add: and_then_def Let_def return_def)
  show ?thesis
  proof (cases "?y = 0")
    case True
    then have w: "write_long_nat_to [] x = [?b]" by (simp add: write_long_nat_to_def)
    show ?thesis
      using last [of r pre 9] assms True by (simp add: w read_long_nat_def eval_nat_numeral)
  next
    case False
    then have w: "write_long_nat_to [] x = nat_prefix ?y @ [?b]" by (simp add: write_long_nat_to_def)
    have "unat x < 2 ^ 64" by (rule order_less_le_trans [OF unsigned_less]) simp
    then have "unat ?y < 2 ^ (7 * 9)" by (simp add: unat_drop7)
    then have "length (nat_prefix ?y) \<le> 9" by (rule prefix_length) simp
    then have "10 = Suc (9 - length (nat_prefix ?y)) + length (nat_prefix ?y)" by simp
    then obtain k where k: "10 = Suc k + length (nat_prefix ?y)" by blast
    let ?s = "r\<lparr>rpos := rpos r + length (nat_prefix ?y)\<rparr>"
    have "read_long_nat r = long_nat_loop (Suc k) ?y ?s"
      unfolding read_long_nat_def k
      using assms by (intro read_prefix [of r pre ?y "?b # rest"]) (simp_all add: w)
    also have "\<dots> = Ok (x, ?s\<lparr>rpos := rpos ?s + 1\<rparr>)"
      using assms by (intro last [of _ "pre @ nat_prefix ?y"]) (simp_all add: w)
    finally show ?thesis by (simp add: w)
  qed
qed

abbreviation long_bytes :: "i64 \<Rightarrow> bytes" where
  "long_bytes x \<equiv> write_long_signed_256 [] x"

lemma write_long_append: "write_long_signed_256 out x = out @ long_bytes x"
proof (induction out x rule: write_long_signed_256.induct)
  case (1 out x)
  then show ?case
    by (subst (1 2) write_long_signed_256.simps) (auto simp: Let_def)
qed

lemma long_bytes_eq:
  "long_bytes x = (if -128 \<le> sint x \<and> sint x < 128 then [] else long_bytes (sar 8 x)) @ [ucast (x AND 0xff)]"
  by (subst write_long_signed_256.simps) (simp add: Let_def sar_stop)

lemma long_bytes_length:
  "1 \<le> length (long_bytes x) \<and> -(2 ^ (8 * length (long_bytes x) - 1)) \<le> sint x \<and> sint x < 2 ^ (8 * length (long_bytes x) - 1)"
proof (induction "nat \<bar>sint x\<bar>" arbitrary: x rule: less_induct)
  case less
  show ?case
  proof (cases "-128 \<le> sint x \<and> sint x < 128")
    case True
    then show ?thesis by (subst (1 2 3) long_bytes_eq) simp
  next
    case False
    let ?y = "sar 8 x"
    have y: "sint ?y = sint x div 256" by (simp add: sar_sint_div)
    have "nat \<bar>sint ?y\<bar> < nat \<bar>sint x\<bar>" using False unfolding y by auto
    from less [OF this] have IH: "1 \<le> length (long_bytes ?y)" "-(2 ^ (8 * length (long_bytes ?y) - 1)) \<le> sint x div 256"
      "sint x div 256 < 2 ^ (8 * length (long_bytes ?y) - 1)" by (simp_all add: y)
    obtain m where m: "length (long_bytes ?y) = Suc m" using IH(1) by (cases "length (long_bytes ?y)") auto
    have l: "length (long_bytes x) = Suc (Suc m)" using False m by (subst long_bytes_eq) auto
    define p :: int where "p = 2 ^ (8 * m + 7)"
    have p: "2 ^ (8 * Suc m - 1) = p" "2 ^ (8 * Suc (Suc m) - 1) = 256 * p"
      by (simp_all add: p_def power_add)
    have "- p \<le> sint x div 256" "sint x div 256 < p" using IH(2,3) by (simp_all only: m p)
    then have "- (256 * p) \<le> sint x" "sint x < 256 * p" by linarith+
    then show ?thesis unfolding l p by simp
  qed
qed

lemma long_bytes_short:
  "0 < m \<Longrightarrow> -(2 ^ (8 * m - 1)) \<le> sint x \<Longrightarrow> sint x < 2 ^ (8 * m - 1) \<Longrightarrow> length (long_bytes x) \<le> m"
proof (induction m arbitrary: x)
  case (Suc m)
  show ?case
  proof (cases "-128 \<le> sint x \<and> sint x < 128")
    case True
    then show ?thesis by (subst long_bytes_eq) simp
  next
    case False
    then have "m \<noteq> 0" using Suc.prems by (cases m) auto
    then obtain k where k: "m = Suc k" by (cases m) auto
    define p :: int where "p = 2 ^ (8 * k + 7)"
    have p: "2 ^ (8 * Suc k - 1) = p" "2 ^ (8 * Suc (Suc k) - 1) = 256 * p"
      by (simp_all add: p_def power_add)
    have "- (256 * p) \<le> sint x" "sint x < 256 * p" using Suc.prems(2,3) by (simp_all only: k p)
    then have "- p \<le> sint (sar 8 x)" "sint (sar 8 x) < p" by (auto simp: sar_sint_div)
    then have "- (2 ^ (8 * m - 1)) \<le> sint (sar 8 x)" "sint (sar 8 x) < 2 ^ (8 * m - 1)"
      by (simp_all only: k p)
    then have "length (long_bytes (sar 8 x)) \<le> m" using \<open>m \<noteq> 0\<close> by (intro Suc.IH) simp_all
    then show ?thesis using False by (subst long_bytes_eq) simp
  qed
qed simp

lemma long_loop_bits:
  assumes "rbytes r = pre @ long_bytes x @ rest" "rpos r = length pre"
  shows "\<exists>w. long_loop (length (long_bytes x) + k) acc r = long_loop k w (r\<lparr>rpos := rpos r + length (long_bytes x)\<rparr>) \<and>
    (\<forall>n < 8 * length (long_bytes x). n < 64 \<longrightarrow> bit w n = bit x n)"
  using assms
proof (induction "nat \<bar>sint x\<bar>" arbitrary: x rest k rule: less_induct)
  case less
  let ?b = "ucast (x AND 0xff) :: u8"
  have byte: "bit ?b n = bit x n" if "n < 8" for n
  proof -
    have m: "(0xff :: i64) = mask 8" by (simp add: mask_eq_exp_minus_1)
    show ?thesis unfolding m using that by (simp add: bit_simps)
  qed
  have sh: "bit (sar 8 x) n = bit x (n + 8)" if "n + 8 < 64" for n
    using that by (simp add: sar_def bit_simps add.commute)
  have step: "bit (push_bit 8 w OR ucast ?b) n = (if n < 8 then bit x n else bit w (n - 8))" if "n < 64" for w :: i64 and n
    using that byte by (auto simp: bit_simps dest: bit_imp_le_length)
  show ?case
  proof (cases "-128 \<le> sint x \<and> sint x < 128")
    case True
    then have l: "long_bytes x = [?b]" by (subst long_bytes_eq) simp
    have "read_byte r = Ok (?b, r\<lparr>rpos := rpos r + 1\<rparr>)"
      using less.prems by (intro at_byte [of r pre _ rest]) (simp_all add: l)
    then show ?thesis
      using step by (intro exI [of _ "push_bit 8 acc OR ucast ?b"]) (simp add: l and_then_def)
  next
    case False
    let ?y = "sar 8 x"
    have l: "long_bytes x = long_bytes ?y @ [?b]" using False by (subst long_bytes_eq) auto
    have "nat \<bar>sint ?y\<bar> < nat \<bar>sint x\<bar>" using False by (auto simp: sar_sint_div)
    from less.hyps [OF this, of "?b # rest" "Suc k"] less.prems
    obtain w where w: "long_loop (length (long_bytes ?y) + Suc k) acc r =
        long_loop (Suc k) w (r\<lparr>rpos := rpos r + length (long_bytes ?y)\<rparr>)"
      "\<forall>n < 8 * length (long_bytes ?y). n < 64 \<longrightarrow> bit w n = bit ?y n" by (auto simp: l)
    let ?r = "r\<lparr>rpos := rpos r + length (long_bytes ?y)\<rparr>"
    have "read_byte ?r = Ok (?b, ?r\<lparr>rpos := rpos ?r + 1\<rparr>)"
      using less.prems by (intro at_byte [of _ "pre @ long_bytes ?y" _ rest]) (simp_all add: l)
    then have "long_loop (Suc k) w ?r = long_loop k (push_bit 8 w OR ucast ?b) (?r\<lparr>rpos := rpos ?r + 1\<rparr>)"
      by (simp add: and_then_def)
    moreover have "bit (push_bit 8 w OR ucast ?b) n = bit x n" if "n < 8 * length (long_bytes x)" "n < 64" for n
      using that step [of n w] w(2) sh [of "n - 8"] by (simp add: l)
    ultimately show ?thesis
      using w(1) by (intro exI [of _ "push_bit 8 w OR ucast ?b"]) (simp add: l)
  qed
qed

lemma sign_extend:
  assumes "1 \<le> L" "L \<le> 8" "-(2 ^ (8 * L - 1)) \<le> sint x" "sint x < 2 ^ (8 * L - 1)"
    and "\<forall>n < 8 * L. n < 64 \<longrightarrow> bit (w :: i64) n = bit x n"
  shows "signed_drop_bit (64 - L * 8) (push_bit (64 - L * 8) w) = x"
proof (rule bit_word_eqI)
  fix n assume "n < LENGTH(64)"
  then have n: "n < 64" by simp
  have s: "signed_take_bit (8 * L - 1) (sint x) = sint x"
    using assms(3,4) by (rule signed_take_bit_int_eq_self)
  have x: "bit x m = bit (sint x) m" if "m < 64" for m using that by (simp add: bit_simps)
  have hi: "bit x n = bit x (8 * L - 1)" if "8 * L \<le> n"
  proof -
    have "bit (sint x) n = bit (signed_take_bit (8 * L - 1) (sint x)) n" by (simp only: s)
    also have "\<dots> = bit (sint x) (8 * L - 1)" using that by (simp add: bit_signed_take_bit_iff min_absorb1)
    finally show ?thesis using n that x [of n] x [of "8 * L - 1"] by simp
  qed
  show "bit (signed_drop_bit (64 - L * 8) (push_bit (64 - L * 8) w)) n = bit x n"
  proof (cases "n < 8 * L")
    case True
    then have "64 - L * 8 + n < 64 \<or> L = 8 \<and> n < 64" "64 - L * 8 + n - (64 - L * 8) = n" using assms(2) n by auto
    then show ?thesis using assms(2,5) True n by (auto simp: bit_simps)
  next
    case False
    then have "bit (signed_drop_bit (64 - L * 8) (push_bit (64 - L * 8) w)) n = bit w (8 * L - 1)"
      using assms(1,2) n by (auto simp: bit_simps algebra_simps)
    then show ?thesis using assms(1,5) False n hi by simp
  qed
qed

lemma long_reads:
  assumes "rbytes r = pre @ long_bytes x @ rest" "rpos r = length pre"
  shows "read_long (length (long_bytes x)) r = Ok (x, r\<lparr>rpos := rpos r + length (long_bytes x)\<rparr>)"
proof -
  let ?L = "length (long_bytes x)"
  obtain w where w: "long_loop (?L + 0) 0 r = long_loop 0 w (r\<lparr>rpos := rpos r + ?L\<rparr>)"
      "\<forall>n < 8 * ?L. n < 64 \<longrightarrow> bit w n = bit x n"
    using long_loop_bits [OF assms, of 0 0] by blast
  have L: "?L \<le> 8" using sint_range [of x] by (intro long_bytes_short) simp_all
  note r = long_bytes_length [of x]
  have "signed_drop_bit (64 - ?L * 8) (push_bit (64 - ?L * 8) w) = x"
    using r L w(2) by (intro sign_extend) auto
  moreover have "64 - ?L * 8 < 64" using r by linarith
  ultimately show ?thesis using w(1) L by (simp add: read_long_def and_then_def return_def Let_def)
qed

definition write_nat :: "bytes \<Rightarrow> u32 \<Rightarrow> bytes" where
  "write_nat buf x = write_long_nat_to buf (ucast x)"

definition write_entry :: "bytes \<Rightarrow> u8 \<Rightarrow> bytes \<Rightarrow> bytes" where
  "write_entry buf tag body = write_nat (write_nat buf (ucast tag)) (of_nat (length body)) @ body"

fun write_entries :: "bytes \<Rightarrow> (u8 \<times> bytes) list \<Rightarrow> bytes" where
  "write_entries buf [] = buf"
| "write_entries buf ((tag, body) # es) = write_entries (write_entry buf tag body) es"

definition finish :: "(u8 \<times> bytes) list \<Rightarrow> bytes" where
  "finish es =
     (let buf = write_nat [] (of_nat MAJOR); buf = write_nat buf (of_nat MINOR);
          buf = write_nat buf (of_nat (length es))
      in write_entries buf es)"

abbreviation nat_bytes :: "u32 \<Rightarrow> bytes" where
  "nat_bytes x \<equiv> write_nat [] x"

lemma write_nat_append: "write_nat buf x = buf @ nat_bytes x"
  unfolding write_nat_def by (rule write_long_nat_append)

lemma nat_reads:
  assumes "rbytes r = pre @ nat_bytes (of_nat n) @ rest" "rpos r = length pre" "n < 2 ^ 32"
  shows "read_nat r = Ok (n, r\<lparr>rpos := rpos r + length (nat_bytes (of_nat n))\<rparr>)"
proof -
  have u: "unat (ucast (of_nat n :: u32) :: u64) = n"
    using assms(3) by (simp add: unsigned_ucast_eq unat_of_nat take_bit_eq_mod)
  then have "\<not> 0xFFFFFFFF < (ucast (of_nat n :: u32) :: u64)"
    using assms(3) by (simp add: word_less_nat_alt)
  then show ?thesis
    using long_nat_reads [of r pre _ rest] assms(1,2) u
    by (simp add: read_nat_def write_nat_def and_then_def return_def)
qed

lemma tag_bytes: "tag < 0x80 \<Longrightarrow> nat_bytes (ucast (tag :: u8)) = [tag]"
proof -
  assume tag: "tag < 0x80"
  have c: "(ucast (ucast tag :: u32) :: u64) = ucast tag"
    by (rule bit_word_eqI) (auto simp: bit_simps dest: bit_imp_le_length)
  have "unat tag < 256" by (rule order_less_le_trans [OF unsigned_less]) simp
  then have "unat (drop_bit 7 (ucast (ucast tag :: u32) :: u64)) = unat tag div 128"
    unfolding c by (simp add: unat_drop7 unsigned_ucast_eq take_bit_eq_mod)
  then have d: "drop_bit 7 (ucast (ucast tag :: u32) :: u64) = 0"
    using tag by (simp add: word_less_nat_alt flip: unat_eq_zero)
  have "tag AND mask 7 = tag" using tag by (simp add: small_iff)
  then have "(ucast ((ucast (ucast tag :: u32) :: u64) AND 0x7f) :: u8) = tag"
    unfolding seven_bits
    by (intro bit_word_eqI) (auto simp: bit_simps bit_eq_iff)
  with d show ?thesis by (simp add: write_nat_def write_long_nat_to_def)
qed

definition entry_bytes :: "u8 \<Rightarrow> bytes \<Rightarrow> bytes" where
  "entry_bytes tag body = nat_bytes (ucast tag) @ nat_bytes (of_nat (length body)) @ body"

lemma write_entries_append: "write_entries buf es = buf @ concat (map (\<lambda>(tag, body). entry_bytes tag body) es)"
proof (induction buf es rule: write_entries.induct)
  case (1 buf)
  show ?case by simp
next
  case (2 buf tag body es)
  have "write_entry buf tag body = buf @ entry_bytes tag body"
    by (simp add: write_entry_def entry_bytes_def write_nat_append [of "buf @ _"] write_nat_append [of buf])
  with 2 show ?case by simp
qed

lemma extents_read:
  assumes "list_all (\<lambda>(tag, body). tag < 0x80 \<and> length body < 2 ^ 32) es"
    and "rbytes r = pre @ concat (map (\<lambda>(tag, body). entry_bytes tag body) es) @ rest" "rpos r = length pre"
  shows "\<exists>exts r'. read_extents i (length es) r = Ok (exts, r') \<and> rbytes r' = rbytes r \<and>
    rpos r' = length pre + length (concat (map (\<lambda>(tag, body). entry_bytes tag body) es)) \<and>
    map (\<lambda>(s, tag, e). (tag, take (e - s) (drop s (rbytes r)))) exts = es"
  using assms
proof (induction es arbitrary: i r pre)
  case Nil
  then show ?case by (simp add: return_def)
next
  case (Cons x es)
  obtain tag body where x: "x = (tag, body)" by (cases x)
  have tag: "tag < 0x80" "length body < 2 ^ 32" using Cons.prems(1) by (simp_all add: x)
  let ?n = "nat_bytes (of_nat (length body))"
  let ?rest = "concat (map (\<lambda>(tag, body). entry_bytes tag body) es) @ rest"
  let ?r = "r\<lparr>rentry := Some i, rtag := 0\<rparr>"
  have b: "rbytes r = pre @ tag # ?n @ body @ ?rest" using Cons.prems(2) by (simp add: x entry_bytes_def tag_bytes [OF tag(1)])
  have r1: "read_byte ?r = Ok (tag, ?r\<lparr>rpos := rpos r + 1\<rparr>)"
    using at_byte [of ?r pre tag "?n @ body @ ?rest"] b Cons.prems(3) by simp
  let ?s = "?r\<lparr>rpos := rpos r + 1, rtag := tag\<rparr>"
  have r2: "read_nat ?s = Ok (length body, ?s\<lparr>rpos := rpos ?s + length ?n\<rparr>)"
    using nat_reads [of ?s "pre @ [tag]" "length body" "body @ ?rest"] b Cons.prems(3) tag(2) by simp
  let ?p = "rpos r + 1 + length ?n"
  let ?u = "r\<lparr>rentry := Some i, rtag := tag, rpos := ?p + length body\<rparr>"
  have "\<exists>exts r'. read_extents (Suc i) (length es) ?u = Ok (exts, r') \<and> rbytes r' = rbytes ?u \<and>
      rpos r' = length (pre @ tag # ?n @ body) + length (concat (map (\<lambda>(tag, body). entry_bytes tag body) es)) \<and>
      map (\<lambda>(s, tag, e). (tag, take (e - s) (drop s (rbytes ?u)))) exts = es"
  proof (rule Cons.IH)
    show "list_all (\<lambda>(tag, body). tag < 0x80 \<and> length body < 2 ^ 32) es" using Cons.prems(1) by simp
    show "rbytes ?u = (pre @ tag # ?n @ body) @ ?rest" using b by simp
    show "rpos ?u = length (pre @ tag # ?n @ body)" using Cons.prems(3) by simp
  qed
  then obtain exts r' where IH: "read_extents (Suc i) (length es) ?u = Ok (exts, r')" "rbytes r' = rbytes r"
      "rpos r' = length (pre @ tag # ?n @ body) + length (concat (map (\<lambda>(tag, body). entry_bytes tag body) es))"
      "map (\<lambda>(s, tag, e). (tag, take (e - s) (drop s (rbytes r)))) exts = es"
    by auto
  have "read_extents i (length (x # es)) r = Ok ((?p, tag, ?p + length body) # exts, r')"
    using r1 r2 IH(1) b Cons.prems(3) by (simp add: and_then_def Let_def return_def)
  moreover have "take (length body) (drop ?p (rbytes r)) = body"
    using b Cons.prems(3) by simp
  ultimately show ?case
    using IH by (intro exI [of _ "(?p, tag, ?p + length body) # exts"] exI [of _ r'])
      (simp add: x entry_bytes_def tag_bytes [OF tag(1)])
qed

lemma table_reads_back:
  assumes "list_all (\<lambda>(tag, body). tag < 0x80 \<and> length body < 2 ^ 32) es" "length es < 2 ^ 32"
  shows "\<exists>exts r. read_table (reader_new (finish es)) = Ok ((MAJOR, MINOR, exts), r) \<and> rpos r = length (finish es) \<and>
    map (\<lambda>(s, tag, e). (tag, take (e - s) (drop s (finish es)))) exts = es"
proof -
  let ?c = "concat (map (\<lambda>(tag, body). entry_bytes tag body) es)"
  let ?n = "nat_bytes (of_nat (length es))"
  have m: "nat_bytes (of_nat MAJOR) = [5]" "nat_bytes (of_nat MINOR) = [2]"
    using tag_bytes [of 5] tag_bytes [of 2] by (simp_all add: MAJOR_def MINOR_def)
  have f: "finish es = [5, 2] @ ?n @ ?c"
    unfolding finish_def Let_def write_entries_append
    by (subst write_nat_append, subst write_nat_append) (simp add: m)
  let ?r = "reader_new (finish es)"
  have r1: "read_nat ?r = Ok (MAJOR, ?r\<lparr>rpos := 1\<rparr>)"
    using nat_reads [of ?r "[]" MAJOR "[2] @ ?n @ ?c"] m by (simp add: reader_new_def f MAJOR_def)
  have r2: "read_nat (?r\<lparr>rpos := 1\<rparr>) = Ok (MINOR, ?r\<lparr>rpos := 2\<rparr>)"
    using nat_reads [of "?r\<lparr>rpos := 1\<rparr>" "[5]" MINOR "?n @ ?c"] m by (simp add: reader_new_def f MINOR_def)
  have r3: "read_nat (?r\<lparr>rpos := 2\<rparr>) = Ok (length es, ?r\<lparr>rpos := 2 + length ?n\<rparr>)"
    using nat_reads [of "?r\<lparr>rpos := 2\<rparr>" "[5, 2]" "length es" ?c] assms(2) by (simp add: reader_new_def f)
  obtain exts r' where e: "read_extents 0 (length es) (?r\<lparr>rpos := 2 + length ?n\<rparr>) = Ok (exts, r')"
      "rpos r' = length ([5, 2] @ ?n) + length ?c"
      "map (\<lambda>(s, tag, e). (tag, take (e - s) (drop s (finish es)))) exts = es"
    using extents_read [OF assms(1), of "?r\<lparr>rpos := 2 + length ?n\<rparr>" "[5, 2] @ ?n" "[]" 0]
    by (auto simp: reader_new_def f)
  have "read_table ?r = Ok ((MAJOR, MINOR, exts), r')"
    using r1 r2 r3 e(1) by (simp add: read_table_def and_then_def return_def)
  with e f show ?thesis by simp
qed

text \<open>
  C21: \<open>read_pickle\<close>'s header pass reads back what \<open>finish\<close> wrote: the version, and for every entry
  its tag and the extent that holds exactly its body, ending at the end of the bytes.
\<close>
theorem pickle_table_roundtrip:
  assumes "list_all (\<lambda>(tag, body). tag < 0x80 \<and> length body < 2 ^ 32) es" "length es < 2 ^ 32"
  shows "\<exists>exts r. read_table (reader_new (finish es)) = Ok ((MAJOR, MINOR, exts), r) \<and> rpos r = length (finish es) \<and>
    map (\<lambda>(s, tag, e). (tag, take (e - s) (drop s (finish es)))) exts = es"
  using assms by (rule table_reads_back)

lemma pickle_table_witness:
  "\<exists>exts r. read_table (reader_new (finish [(3, []), (1, [97, 98])])) = Ok ((MAJOR, MINOR, exts), r) \<and>
    rpos r = length (finish [(3, []), (1, [97, 98])]) \<and>
    map (\<lambda>(s, tag, e). (tag, take (e - s) (drop s (finish [(3, []), (1, [97, 98])])))) exts = [(3, []), (1, [97, 98])]"
  by (rule pickle_table_roundtrip) simp_all

text \<open>
  C22: \<open>read_long_nat\<close> reads back every 64-bit value \<open>write_long_nat_to\<close> appends, and stops after it.
\<close>
theorem long_nat_roundtrip:
  "read_long_nat (reader_new (write_long_nat_to [] x @ rest)) =
    Ok (x, (reader_new (write_long_nat_to [] x @ rest))\<lparr>rpos := length (write_long_nat_to [] x)\<rparr>)"
  using long_nat_reads [of "reader_new (write_long_nat_to [] x @ rest)" "[]" x rest] by (simp add: reader_new_def)

text \<open>
  \<open>read_long\<close> of the length written reads back every signed constant \<open>write_long_signed_256\<close> wrote.
\<close>
theorem signed_long_roundtrip:
  "read_long (length (write_long_signed_256 [] x)) (reader_new (write_long_signed_256 [] x @ rest)) =
    Ok (x, (reader_new (write_long_signed_256 [] x @ rest))\<lparr>rpos := length (write_long_signed_256 [] x)\<rparr>)"
  using long_reads [of "reader_new (write_long_signed_256 [] x @ rest)" "[]" x rest] by (simp add: reader_new_def)

section \<open>Flags\<close>

definition flag_bit :: "nat \<Rightarrow> u64" where
  "flag_bit n = push_bit n 1"

definition PAIRS :: "(u64 \<times> u64) list" where
  "PAIRS = map (\<lambda>(a, b). (flag_bit a, flag_bit b))
     [(6, 9), (2, 2), (5, 1), (0, 3), (11, 6), (4, 8), (8, 10), (1, 5), (7, 11), (9, 0), (10, 4), (3, 7)]"

fun move_flags :: "u64 \<Rightarrow> u64 \<Rightarrow> (u64 \<times> u64) list \<Rightarrow> u64" where
  "move_flags result tobe [] = result"
| "move_flags result tobe ((from, to) # ps) =
     (if tobe AND from \<noteq> 0 then move_flags (result OR to) (tobe AND NOT from) ps else move_flags result tobe ps)"

definition raw_to_pickled :: "u64 \<Rightarrow> u64" where
  "raw_to_pickled flags =
     (let from_set = foldl (\<lambda>a (from, _). a OR from) 0 PAIRS
      in move_flags (flags AND NOT from_set) (flags AND from_set) PAIRS)"

text \<open>The pickled position of the flag at a raw position.\<close>

definition flag_position :: "nat \<Rightarrow> nat" where
  "flag_position n = (if n < 12 then [3, 5, 2, 7, 8, 1, 9, 11, 10, 0, 4, 6] ! n else n)"

lemma bit_flag_bit: "bit (flag_bit n) m \<longleftrightarrow> m = n \<and> n < 64"
  by (auto simp: flag_bit_def bit_simps)

lemma flag_bit_set: "w AND flag_bit n \<noteq> 0 \<longleftrightarrow> n < 64 \<and> bit w n"
proof
  assume "w AND flag_bit n \<noteq> 0"
  then obtain m where "bit (w AND flag_bit n) m" by (auto simp: bit_eq_iff)
  then show "n < 64 \<and> bit w n" by (auto simp: bit_and_iff bit_flag_bit)
next
  assume "n < 64 \<and> bit w n"
  then have "bit (w AND flag_bit n) n" by (simp add: bit_and_iff bit_flag_bit)
  then show "w AND flag_bit n \<noteq> 0" by auto
qed

lemma move_flags_bit:
  assumes "list_all (\<lambda>(a, b). a < 64 \<and> b < 64) ps" "distinct (map fst ps)" "n < 64"
  shows "bit (move_flags result tobe (map (\<lambda>(a, b). (flag_bit a, flag_bit b)) ps)) n \<longleftrightarrow>
    bit result n \<or> (\<exists>a. (a, n) \<in> set ps \<and> bit tobe a)"
  using assms
proof (induction ps arbitrary: result tobe)
  case Nil
  then show ?case by simp
next
  case (Cons p ps)
  obtain a b where p: "p = (a, b)" by (cases p)
  have *: "bit (tobe AND NOT (flag_bit a)) c \<longleftrightarrow> bit tobe c" if "(c, n) \<in> set ps" for c
  proof -
    have "c \<noteq> a" "c < 64" using that Cons.prems(1,2) by (force simp: p list_all_iff)+
    then show ?thesis by (simp add: bit_and_iff bit_not_iff bit_flag_bit)
  qed
  from Cons show ?case
    by (auto simp: p flag_bit_set * bit_or_iff bit_flag_bit)
qed

lemma from_set: "foldl (\<lambda>a (from, _). a OR from) 0 PAIRS = 0xFFF"
  unfolding PAIRS_def flag_bit_def by simp

lemma raw_to_pickled_bit:
  "bit (raw_to_pickled flags) (flag_position n) = bit flags n"
proof (cases "n < 64")
  case True
  let ?ps = "[(6, 9), (2, 2), (5, 1), (0, 3), (11, 6), (4, 8), (8, 10), (1, 5), (7, 11), (9, 0), (10, 4), (3, 7)] :: (nat \<times> nat) list"
  have low: "bit (0xFFF :: u64) m \<longleftrightarrow> m < 12" for m
    unfolding mask_eq_exp_minus_1 [of 12, where 'a = "64 word", simplified, symmetric] by (auto simp: bit_mask_iff)
  have p: "flag_position n < 64" "flag_position n < 12 \<longleftrightarrow> n < 12"
    using True by (auto simp: flag_position_def nth_Cons' )
  have m: "(\<exists>a. (a, flag_position n) \<in> set ?ps \<and> bit (flags AND 0xFFF) a) \<longleftrightarrow> n < 12 \<and> bit flags n"
  proof (cases "n < 12")
    case True
    then have "n \<in> {0, 1, 2, 3, 4, 5, 6, 7, 8, 9, 10, 11}" by (simp only: insert_iff empty_iff) presburger
    then show ?thesis by (elim insertE emptyE) (auto simp: flag_position_def bit_and_iff low)
  qed (auto simp: flag_position_def)
  have "bit (raw_to_pickled flags) (flag_position n) \<longleftrightarrow>
    bit (flags AND NOT 0xFFF) (flag_position n) \<or> n < 12 \<and> bit flags n"
    unfolding raw_to_pickled_def Let_def from_set unfolding PAIRS_def
    using p(1) by (subst move_flags_bit) (simp_all only: m, simp_all)
  moreover have "bit (flags AND NOT 0xFFF) (flag_position n) \<longleftrightarrow> \<not> n < 12 \<and> bit flags n"
    unfolding bit_and_iff bit_not_iff low using p by (auto simp: flag_position_def)
  ultimately show ?thesis by blast
next
  case False
  then have "\<not> bit w n" for w :: u64 using bit_imp_le_length [of w n] by auto
  with False show ?thesis by (simp add: flag_position_def)
qed

lemma flag_position_permutes: "inj flag_position"
proof (rule injI)
  fix m n assume "flag_position m = flag_position n"
  then show "m = n" by (auto simp: flag_position_def nth_Cons' split: if_splits)
qed

text \<open>
  \<open>raw_to_pickled\<close> only moves flags: bit \<open>n\<close> goes to \<open>flag_position n\<close>, no two bits share a place,
  so distinct flag sets stay distinct.
\<close>
theorem raw_to_pickled_permutes:
  "inj flag_position \<and> (\<forall>flags n. bit (raw_to_pickled flags) (flag_position n) = bit flags n) \<and> inj raw_to_pickled"
proof (intro conjI allI)
  show "inj raw_to_pickled"
  proof (rule injI, rule bit_word_eqI)
    fix x y :: u64 and n
    assume "raw_to_pickled x = raw_to_pickled y"
    then show "bit x n = bit y n" by (metis raw_to_pickled_bit)
  qed
qed (simp_all add: flag_position_permutes raw_to_pickled_bit)

end
