(* ===== verification/PickleTable.thy ===== *)
theory PickleTable
  imports PickleBuf
begin

text \<open>
  The format of a pickle's names, references and simple types as a function \<open>encode_entry\<close>, and the proof
  that \<open>read_pickle\<close> inverts it on a whole table: \<open>reads_at\<close> says that a step at a position consumes
  exactly some bytes and returns a value, and composes along \<open>and_then\<close>.
\<close>

unbundle bit_operations_syntax

section \<open>UTF-8\<close>

declare utf8_char_def [simp]

lemma unat_u8: "x < 256 \<Longrightarrow> unat (of_nat x :: u8) = x"
  by (simp add: unat_of_nat take_bit_eq_mod)

lemma u8_le: "x < 256 \<Longrightarrow> y < 256 \<Longrightarrow> (of_nat x :: u8) \<le> of_nat y \<longleftrightarrow> x \<le> y"
  by (simp add: word_le_nat_alt unat_u8)

lemma u8_eq: "x < 256 \<Longrightarrow> y < 256 \<Longrightarrow> (of_nat x :: u8) = of_nat y \<longleftrightarrow> x = y"
  by (metis unat_u8)

lemma u8_numeral: "(numeral k :: u8) = of_nat (numeral k)"
  by simp

lemma unat_low: "unat ((w :: u8) AND 0x3f) = unat w mod 64" "unat (w AND 0x1f) = unat w mod 32"
  "unat (w AND 0x0f) = unat w mod 16" "unat (w AND 0x07) = unat w mod 8"
proof -
  have m: "(0x3f :: u8) = mask 6" "(0x1f :: u8) = mask 5" "(0x0f :: u8) = mask 4" "(0x07 :: u8) = mask 3"
    by (simp_all add: mask_eq_exp_minus_1)
  show "unat ((w :: u8) AND 0x3f) = unat w mod 64" "unat (w AND 0x1f) = unat w mod 32"
    "unat (w AND 0x0f) = unat w mod 16" "unat (w AND 0x07) = unat w mod 8"
    unfolding m by (simp_all add: unsigned_take_bit_eq take_bit_eq_mod [where 'a = nat] flip: take_bit_eq_mask)
qed

lemma u8_cmp:
  "x < 256 \<Longrightarrow> (of_nat x :: u8) \<le> numeral k \<longleftrightarrow> x \<le> unat (numeral k :: u8)"
  "x < 256 \<Longrightarrow> numeral k \<le> (of_nat x :: u8) \<longleftrightarrow> unat (numeral k :: u8) \<le> x"
  "x < 256 \<Longrightarrow> (of_nat x :: u8) < numeral k \<longleftrightarrow> x < unat (numeral k :: u8)"
  "x < 256 \<Longrightarrow> (of_nat x :: u8) = numeral k \<longleftrightarrow> x = unat (numeral k :: u8)"
  by (simp_all add: word_le_nat_alt word_less_nat_alt word_unat_eq_iff unat_u8 del: unat_numeral)

lemma mod_tag: "a < m \<Longrightarrow> m dvd k \<Longrightarrow> (k + a) mod m = (a :: nat)"
  by (metis add_0 dvd_imp_mod_0 mod_add_left_eq mod_less)

lemma utf8_step_2:
  assumes "a < 32" "2 \<le> a" "b < 64"
  shows "utf8_step (of_nat (0xC0 + a) # of_nat (0x80 + b) # rest) = (2, a * 64 + b)"
proof -
  have v: "0xC0 + a < 256" "0x80 + b < 256" using assms by auto
  have m: "(0xC0 + a) mod 32 = a" "(0x80 + b) mod 64 = b" using assms by (simp_all add: mod_tag)
  show ?thesis
    unfolding utf8_step_def second_byte_def cont_byte_def low6_def Let_def list.sel
    using assms by (simp add: idx_def u8_cmp [OF v(1)] u8_cmp [OF v(2)] unat_low unat_u8 [OF v(1)] unat_u8 [OF v(2)] m del: of_nat_add)
qed

lemma utf8_step_3:
  assumes "a < 16" "b < 64" "d < 64" "a = 0 \<Longrightarrow> 32 \<le> b" "a = 13 \<Longrightarrow> b \<le> 31"
  shows "utf8_step (of_nat (0xE0 + a) # of_nat (0x80 + b) # of_nat (0x80 + d) # rest) = (3, a * 4096 + b * 64 + d)"
proof -
  have v: "0xE0 + a < 256" "0x80 + b < 256" "0x80 + d < 256" using assms by auto
  have m: "(0xE0 + a) mod 16 = a" "(0x80 + b) mod 64 = b" "(0x80 + d) mod 64 = d" using assms(1-3) by (simp_all add: mod_tag)
  show ?thesis
    unfolding utf8_step_def second_byte_def cont_byte_def low6_def Let_def list.sel
    using assms by (simp add: idx_def u8_cmp [OF v(1)] u8_cmp [OF v(2)] u8_cmp [OF v(3)] unat_low
      unat_u8 [OF v(1)] unat_u8 [OF v(2)] unat_u8 [OF v(3)] m del: of_nat_add)
qed

lemma utf8_step_4:
  assumes "a \<le> 4" "b < 64" "d < 64" "f < 64" "a = 0 \<Longrightarrow> 16 \<le> b" "a = 4 \<Longrightarrow> b \<le> 15"
  shows "utf8_step (of_nat (0xF0 + a) # of_nat (0x80 + b) # of_nat (0x80 + d) # of_nat (0x80 + f) # rest) =
    (4, a * 262144 + b * 4096 + d * 64 + f)"
proof -
  have v: "0xF0 + a < 256" "0x80 + b < 256" "0x80 + d < 256" "0x80 + f < 256" using assms by auto
  have m: "(0xF0 + a) mod 8 = a" "(0x80 + b) mod 64 = b" "(0x80 + d) mod 64 = d" "(0x80 + f) mod 64 = f"
    using assms(1-4) by (simp_all add: mod_tag)
  show ?thesis
    unfolding utf8_step_def second_byte_def cont_byte_def low6_def Let_def list.sel
    using assms by (simp add: idx_def u8_cmp [OF v(1)] u8_cmp [OF v(2)] u8_cmp [OF v(3)] u8_cmp [OF v(4)] unat_low
      unat_u8 [OF v(1)] unat_u8 [OF v(2)] unat_u8 [OF v(3)] unat_u8 [OF v(4)] m del: of_nat_add)
qed

lemma utf8_step_char:
  assumes "is_scalar c"
  shows "utf8_step (utf8_char c @ rest) = (length (utf8_char c), c)"
proof -
  have r: "c < 0x110000" "c < 0xD800 \<or> 0xE000 \<le> c" using assms by (auto simp: is_scalar_def)
  have parts: "c div 64 = c div 4096 * 64 + c div 64 mod 64" "c div 4096 = c div 262144 * 64 + c div 4096 mod 64"
    "c = c div 64 * 64 + c mod 64"
    using div_mult_mod_eq [of "c div 64" 64] div_mult_mod_eq [of "c div 4096" 64] div_mult_mod_eq [of c 64]
    by (simp_all flip: div_mult2_eq)
  consider "c < 0x80" | "0x80 \<le> c" "c < 0x800" | "0x800 \<le> c" "c < 0x10000" | "0x10000 \<le> c" by linarith
  then show ?thesis
  proof cases
    case 1
    then show ?thesis by (simp add: utf8_step_def u8_cmp unat_u8)
  next
    case 2
    then have u: "utf8_char c = [of_nat (0xC0 + c div 64), of_nat (0x80 + c mod 64)]" by simp
    from 2 have "c div 64 < 32" "2 \<le> c div 64"
      using div_le_mono [of 128 c 64] by (simp_all add: less_mult_imp_div_less)
    then show ?thesis unfolding u using utf8_step_2 [of "c div 64" "c mod 64" rest] parts(3) by simp
  next
    case 3
    define a b d where "a = c div 4096" and "b = c div 64 mod 64" and "d = c mod 64"
    note vars = this
    have c: "c = a * 4096 + b * 64 + d" and l: "b < 64" "d < 64" using parts(1,3) unfolding vars by (linarith, simp_all)
    have u: "utf8_char c = [of_nat (0xE0 + a), of_nat (0x80 + b), of_nat (0x80 + d)]" using 3 by (simp add: vars)
    have "a < 16" using 3(2) c by linarith
    moreover have "32 \<le> b" if "a = 0" using 3(1) c l(2) unfolding that by linarith
    moreover have "b \<le> 31" if "a = 13" using r(2) c l unfolding that by linarith
    ultimately show ?thesis unfolding u using utf8_step_3 [of a b d rest] l c by (simp del: of_nat_add)
  next
    case 4
    define a b d f where "a = c div 262144" and "b = c div 4096 mod 64" and "d = c div 64 mod 64" and "f = c mod 64"
    note vars = this
    have c: "c = a * 262144 + b * 4096 + d * 64 + f" and l: "b < 64" "d < 64" "f < 64"
      using parts unfolding vars by (linarith, simp_all)
    have u: "utf8_char c = [of_nat (0xF0 + a), of_nat (0x80 + b), of_nat (0x80 + d), of_nat (0x80 + f)]"
      using 4 by (simp add: vars)
    have "a \<le> 4" using r(1) c by linarith
    moreover have "16 \<le> b" if "a = 0" using 4 c l unfolding that by linarith
    moreover have "b \<le> 15" if "a = 4" using r(1) c l unfolding that by linarith
    ultimately show ?thesis unfolding u using utf8_step_4 [of a b d f rest] l c by (simp del: of_nat_add)
  qed
qed

lemma as_bytes_lossy: "list_all is_scalar s \<Longrightarrow> from_utf8_lossy (as_bytes s) = s"
proof (induction s)
  case Nil
  then show ?case by (simp add: as_bytes_def from_utf8_lossy.simps)
next
  case (Cons c s)
  have b: "as_bytes (c # s) = utf8_char c @ as_bytes s" by (simp only: as_bytes_def list.map concat.simps)
  have "utf8_char c \<noteq> []" by simp
  then show ?case
    using Cons unfolding b
    by (subst from_utf8_lossy.simps) (simp add: utf8_step_char del: utf8_char_def)
qed

section \<open>Steps that read back what was written\<close>

definition reads_at :: "nat \<Rightarrow> 'a reading \<Rightarrow> bytes \<Rightarrow> 'a \<Rightarrow> bool" where
  "reads_at p f bs x \<longleftrightarrow> (\<forall>r rest. rpos r = p \<longrightarrow> p \<le> length (rbytes r) \<longrightarrow> drop p (rbytes r) = bs @ rest \<longrightarrow>
     f r = Ok (x, r\<lparr>rpos := p + length bs\<rparr>))"

lemma reads_return: "reads_at p (return x) [] x"
  by (simp add: reads_at_def return_def)

lemma reads_then:
  assumes "reads_at p f bs x" "reads_at (p + length bs) (k x) cs y"
  shows "reads_at p (and_then f k) (bs @ cs) y"
  unfolding reads_at_def
proof (intro allI impI)
  fix r :: reader and rest
  assume r: "rpos r = p" "p \<le> length (rbytes r)" "drop p (rbytes r) = (bs @ cs) @ rest"
  have f: "f r = Ok (x, r\<lparr>rpos := p + length bs\<rparr>)" using assms(1) r by (auto simp: reads_at_def)
  have l: "p + length bs \<le> length (rbytes r)" using arg_cong [OF r(3), of length] r(2) by simp
  have "drop (p + length bs) (rbytes r) = cs @ rest"
    using arg_cong [OF r(3), of "drop (length bs)"] by (simp add: add.commute)
  then have "k x (r\<lparr>rpos := p + length bs\<rparr>) = Ok (y, r\<lparr>rpos := p + length bs + length cs\<rparr>)"
    using assms(2) l by (auto simp: reads_at_def)
  then show "and_then f k r = Ok (y, r\<lparr>rpos := p + length (bs @ cs)\<rparr>)"
    by (simp add: and_then_def f add.assoc)
qed

definition ref_bytes :: "Idx \<Rightarrow> bytes" where
  "ref_bytes i = nat_bytes (of_nat i)"

definition refs_bytes :: "Idx list \<Rightarrow> bytes" where
  "refs_bytes is = concat (map ref_bytes is)"

lemma refs_bytes_simps [simp]: "refs_bytes [] = []" "refs_bytes (i # is) = ref_bytes i @ refs_bytes is"
  by (simp_all add: refs_bytes_def)

lemma refs_bytes_append [simp]: "refs_bytes (is @ js) = refs_bytes is @ refs_bytes js"
  by (simp add: refs_bytes_def)

lemma ref_bytes_nonempty: "0 < length (ref_bytes i)"
  by (simp add: ref_bytes_def write_nat_def write_long_nat_to_def Let_def)

lemma reads_ref:
  assumes "i < n" "n \<le> 2 ^ 32"
  shows "reads_at p (read_ref n) (ref_bytes i) i"
  unfolding reads_at_def
proof (intro allI impI)
  fix r :: reader and rest
  assume r: "rpos r = p" "p \<le> length (rbytes r)" "drop p (rbytes r) = ref_bytes i @ rest"
  have "rbytes r = take p (rbytes r) @ nat_bytes (of_nat i) @ rest"
    using r(3) by (metis append_take_drop_id ref_bytes_def)
  from nat_reads [OF this] r assms show "read_ref n r = Ok (i, r\<lparr>rpos := p + length (ref_bytes i)\<rparr>)"
    by (simp add: read_ref_def and_then_def check_ref_def return_def ref_bytes_def)
qed

lemma reads_at_append: "reads_at p f bs x \<Longrightarrow> bs = cs \<Longrightarrow> reads_at p f cs x"
  by simp

lemma reads_last: "reads_at p f bs x \<Longrightarrow> reads_at (p + length bs) (k x) [] y \<Longrightarrow> reads_at p (and_then f k) bs y"
  using reads_then [of p f bs x k "[]" y] by simp

lemma reads_until:
  assumes "list_all (\<lambda>i. i < n) is" "n \<le> 2 ^ 32" "length (refs_bytes is) \<le> k"
  shows "reads_at p (until k (read_ref n) (p + length (refs_bytes is))) (refs_bytes is) is"
  using assms
proof (induction "is" arbitrary: p k)
  case Nil
  then show ?case by (cases k) (simp_all add: reads_at_def)
next
  case (Cons i "is")
  obtain k' where k: "k = Suc k'" using Cons.prems(3) ref_bytes_nonempty [of i] by (cases k) auto
  have step: "reads_at p (and_then (read_ref n) (\<lambda>x. and_then (until k' (read_ref n) (p + length (refs_bytes (i # is))))
      (\<lambda>xs. return (x # xs)))) (ref_bytes i @ refs_bytes is) (i # is)"
  proof (rule reads_then [OF reads_ref], goal_cases)
    case 3
    have "reads_at (p + length (ref_bytes i)) (until k' (read_ref n) (p + length (ref_bytes i) + length (refs_bytes is)))
        (refs_bytes is) is"
    proof (rule Cons.IH)
      have "length (ref_bytes i) + length (refs_bytes is) \<le> Suc k'" using Cons.prems(3) k by simp
      then show "length (refs_bytes is) \<le> k'" using ref_bytes_nonempty [of i] by linarith
    qed (use Cons.prems in auto)
    from reads_last [OF this reads_return] show ?case by (simp add: add.assoc)
  qed (use Cons.prems in auto)
  show ?case
    unfolding reads_at_def
  proof (intro allI impI)
    fix r :: reader and rest
    assume r: "rpos r = p" "p \<le> length (rbytes r)" "drop p (rbytes r) = refs_bytes (i # is) @ rest"
    then show "until k (read_ref n) (p + length (refs_bytes (i # is))) r = Ok (i # is, r\<lparr>rpos := p + length (refs_bytes (i # is))\<rparr>)"
      using step ref_bytes_nonempty [of i] unfolding k reads_at_def by (auto simp del: length_greater_0_conv)
  qed
qed

lemma reads_refs_until:
  assumes "list_all (\<lambda>i. i < n) is" "n \<le> 2 ^ 32" "fin = p + length (refs_bytes is)"
  shows "reads_at p (read_refs_until n fin) (refs_bytes is) is"
  using reads_until [OF assms(1,2) order_refl, of p]
  by (simp add: reads_at_def read_refs_until_def read_until_def assms(3))

lemma reads_optional:
  assumes "list_all (\<lambda>i. i < n) (opt_refs w)" "n \<le> 2 ^ 32" "fin = p + length (refs_bytes (opt_refs w))"
  shows "reads_at p (read_optional fin n) (refs_bytes (opt_refs w)) w"
proof (cases w)
  case None
  then show ?thesis using assms(3) by (simp add: reads_at_def read_optional_def opt_refs_def)
next
  case (Some i)
  have "reads_at p (and_then (read_ref n) (\<lambda>i. return (Some i))) (ref_bytes i) (Some i)"
    using assms(1,2) by (intro reads_last [OF reads_ref] reads_return) (simp_all add: Some opt_refs_def)
  then show ?thesis
    using assms(3) ref_bytes_nonempty [of i] by (simp add: reads_at_def read_optional_def opt_refs_def Some)
qed

section \<open>The format of the entries that are references, names and simple types\<close>

fun encode_entry :: "Entry \<Rightarrow> u8 \<times> bytes" where
  "encode_entry (Entry_TermName s) = (TERMname, as_bytes s)"
| "encode_entry (Entry_TypeName s) = (TYPEname, as_bytes s)"
| "encode_entry Entry_NoneSym = (NONEsym, [])"
| "encode_entry (Entry_ExtRef n w) = (EXTref, refs_bytes (n # opt_refs w))"
| "encode_entry (Entry_ExtModClassRef n w) = (EXTMODCLASSref, refs_bytes (n # opt_refs w))"
| "encode_entry Entry_NoTpe = (NOtpe, [])"
| "encode_entry Entry_NoPrefixTpe = (NOPREFIXtpe, [])"
| "encode_entry (Entry_ThisTpe i) = (THIStpe, refs_bytes [i])"
| "encode_entry (Entry_SingleTpe p s) = (SINGLEtpe, refs_bytes [p, s])"
| "encode_entry (Entry_TypeRefTpe p s as) = (TYPEREFtpe, refs_bytes (p # s # as))"
| "encode_entry (Entry_ExistentialTpe i is) = (EXISTENTIALtpe, refs_bytes (i # is))"
| "encode_entry e = (0, [])"

fun writable :: "Entry \<Rightarrow> bool" where
  "writable (Entry_TermName s) = list_all is_scalar s"
| "writable (Entry_TypeName s) = list_all is_scalar s"
| "writable e = (fst (encode_entry e) \<noteq> 0)"

lemma reads_name: "list_all is_scalar s \<Longrightarrow> fin = p + length (as_bytes s) \<Longrightarrow> reads_at p (read_name fin) (as_bytes s) s"
  by (auto simp: reads_at_def read_name_def as_bytes_lossy dest: arg_cong [where f = length])

lemma reads_two:
  assumes "i < n" "j < n" "n \<le> 2 ^ 32"
  shows "reads_at p (and_then (read_ref n) (\<lambda>a. and_then (read_ref n) (\<lambda>b. return (mk a b)))) (ref_bytes i @ ref_bytes j) (mk i j)"
  using assms by (intro reads_then [OF reads_ref] reads_last [OF reads_ref] reads_return) auto

lemma encode_reads:
  assumes "writable e" "list_all (\<lambda>i. i < n) (entry_refs e)" "n \<le> 2 ^ 32" "fin = p + length (snd (encode_entry e))"
  shows "reads_at p (read_body fin all_tags n (fst (encode_entry e))) (snd (encode_entry e)) e"
proof -
  have fin: "fin = p + length bs + length cs" if "snd (encode_entry e) = bs @ cs" for bs cs
    using assms(4) that by simp
  note refs = reads_then [OF reads_ref reads_last [OF reads_refs_until reads_return]]
  note optional = reads_then [OF reads_ref reads_last [OF reads_optional reads_return]]
  show ?thesis
    using assms
    by (cases e; simp add: read_body_def read_ref_and_rest_def)
      ((intro reads_last [OF reads_name] reads_return; simp) |
       (intro reads_return) |
       (rule optional; simp) |
       (rule refs; simp) |
       (rule reads_last [OF reads_ref reads_return]; simp) |
       (rule reads_two; simp) |
       (rule reads_then [OF reads_ref refs]; simp))+
qed

definition closed_table :: "Entry list \<Rightarrow> bool" where
  "closed_table es \<longleftrightarrow> list_all (\<lambda>e. writable e \<and> list_all (\<lambda>i. i < length es) (entry_refs e)) es"

lemma encode_tag: "fst (encode_entry e) < 0x80"
  by (cases e) simp_all

lemma read_bodies_encoded:
  assumes "list_all2 (\<lambda>ext e. extent_ok (length b) ext \<and>
      (case ext of (s, tag, f) \<Rightarrow> (tag, take (f - s) (drop s b)) = encode_entry e) \<and>
      writable e \<and> list_all (\<lambda>i. i < n) (entry_refs e)) exts es" "n \<le> 2 ^ 32" "rbytes r = b"
  shows "\<exists>r'. read_bodies i exts all_tags n r = Ok (es, r')"
  using assms
proof (induction exts es arbitrary: i r rule: list_all2_induct)
  case Nil
  then show ?case by (simp add: return_def)
next
  case (Cons ext exts e es)
  obtain s tag f where ext: "ext = (s, tag, f)" by (cases ext)
  let ?r = "r\<lparr>rentry := Some i, rtag := tag, rpos := s\<rparr>"
  note b = Cons.prems(2) [symmetric]
  from Cons.hyps(1) have h: "s \<le> f" "f \<le> length (rbytes r)" "tag = fst (encode_entry e)"
      "take (f - s) (drop s (rbytes r)) = snd (encode_entry e)" "writable e" "list_all (\<lambda>i. i < n) (entry_refs e)"
    by (auto simp: ext extent_ok_def prod_eq_iff b)
  have len: "length (snd (encode_entry e)) = f - s" using h(1,2) by (simp flip: h(4))
  have "drop s (rbytes r) = snd (encode_entry e) @ drop (f - s) (drop s (rbytes r))"
    using append_take_drop_id [of "f - s" "drop s (rbytes r)"] h(4) by simp
  then have "read_body f all_tags n tag ?r = Ok (e, ?r\<lparr>rpos := f\<rparr>)"
    using encode_reads [OF h(5,6) Cons.prems(1), of f s all_tags] h(1-3) len by (auto simp: reads_at_def)
  moreover obtain r' where "read_bodies (Suc i) exts all_tags n (?r\<lparr>rpos := f\<rparr>) = Ok (es, r')"
    using Cons.IH [of "?r\<lparr>rpos := f\<rparr>" "Suc i"] Cons.prems by auto
  ultimately show ?case
    unfolding ext read_bodies_Cons by (simp add: and_then_def return_def)
qed

lemma finished_table_reads_back:
  assumes "closed_table es" "length es < 2 ^ 32" "list_all (\<lambda>e. length (snd (encode_entry e)) < 2 ^ 32) es"
  shows "read_pickle (finish (map encode_entry es)) =
    Ok \<lparr>major = MAJOR, minor = MINOR, entries = es, entry_tags = map (fst \<circ> encode_entry) es\<rparr>"
proof -
  let ?bs = "finish (map encode_entry es)"
  have "list_all (\<lambda>(tag, body). tag < 0x80 \<and> length body < 2 ^ 32) (map encode_entry es)"
    using assms(3) encode_tag by (auto simp: list_all_iff prod.case_eq_if)
  from table_reads_back [OF this] assms(2) obtain exts r where
    t: "read_table (reader_new ?bs) = Ok ((MAJOR, MINOR, exts), r)"
      "map (\<lambda>(s, tag, e). (tag, take (e - s) (drop s ?bs))) exts = map encode_entry es" by auto
  have r: "rbytes r = ?bs" "list_all (extent_ok (length ?bs)) exts"
    using read_table_ok [OF t(1)] by (auto simp: reader_new_def)
  have len: "length exts = length es" using arg_cong [OF t(2), of length] by simp
  have tags: "map (\<lambda>(_, tag, _). tag) exts = map (fst \<circ> encode_entry) es"
    using arg_cong [OF t(2), of "map fst"] by (simp add: comp_def case_prod_unfold)
  have "list_all2 (\<lambda>ext e. extent_ok (length (rbytes r)) ext \<and>
      (case ext of (s, tag, f) \<Rightarrow> (tag, take (f - s) (drop s (rbytes r))) = encode_entry e) \<and>
      writable e \<and> list_all (\<lambda>i. i < length exts) (entry_refs e)) exts es"
    unfolding list_all2_conv_all_nth
  proof (intro conjI allI impI len)
    fix i assume i: "i < length exts"
    have "map (\<lambda>(s, tag, e). (tag, take (e - s) (drop s ?bs))) exts ! i = map encode_entry es ! i"
      by (simp only: t(2))
    then show "case exts ! i of (s, tag, f) \<Rightarrow> (tag, take (f - s) (drop s (rbytes r))) = encode_entry (es ! i)"
      using i len r(1) by (auto split: prod.splits)
  qed (use assms(1) len r in \<open>auto simp: closed_table_def list_all_length\<close>)
  from read_bodies_encoded [OF this _ refl] assms(2) len obtain r'
    where "read_bodies 0 exts (map (\<lambda>(_, tag, _). tag) exts) (length exts) r = Ok (es, r')" by force
  then show ?thesis
    using t(1) tags by (simp add: read_pickle_def and_then_def Let_def return_def)
qed

end
