(* ===== verification/PickleRefs.thy ===== *)
theory PickleRefs
  imports PickleTable Names "HOL-Library.State_Monad"
begin

text \<open>
  The \<open>Pickler\<close> of \<open>crates/backend/src/pickle.rs\<close>: the operations that intern names, external references
  and packages and that write the simple type references, as state transformers.
\<close>

unbundle bit_operations_syntax

section \<open>Strings\<close>

text \<open>\<open>format!("{o}")\<close>, \<open>str::rsplit_once\<close> and \<open>str::split\<close>.\<close>

fun dec :: "nat \<Rightarrow> str" where
  "dec n = (if n < 10 then [48 + n] else dec (n div 10) @ [48 + n mod 10])"

declare dec.simps [simp del]

fun split_on :: "rchar \<Rightarrow> str \<Rightarrow> str list" where
  "split_on c [] = [[]]"
| "split_on c (x # s) =
     (if x = c then [] # split_on c s
      else case split_on c s of [] \<Rightarrow> [[x]] | w # ws \<Rightarrow> (x # w) # ws)"

fun rsplit_once :: "rchar \<Rightarrow> str \<Rightarrow> (str \<times> str) option" where
  "rsplit_once c [] = None"
| "rsplit_once c (x # s) =
     (case rsplit_once c s of
        Some (a, b) \<Rightarrow> Some (x # a, b)
      | None \<Rightarrow> if x = c then Some ([], s) else None)"

section \<open>The state\<close>

text \<open>
  The fields of \<open>Pickler\<close> that the operations below use.  The maps from symbols, and what is written
  for them, belong to the part that walks the symbol table.
\<close>

record pickler =
  pk_entries :: "(u8 \<times> bytes) list"
  term_names :: "str \<rightharpoonup> u32"
  type_names :: "str \<rightharpoonup> u32"
  ext_refs :: "str \<rightharpoonup> u32"
  pk_none :: u32
  notpe :: u32
  noprefix :: u32
  scala_mod :: "u32 option"
  java_lang_mod :: "u32 option"
  empty_pkg :: "u32 option"
  collection_immutable :: "u32 option"

type_synonym 'a pickling = "(pickler, 'a) state"

definition add :: "u8 \<Rightarrow> bytes \<Rightarrow> u32 pickling" where
  "add tag body = State (\<lambda>p. (of_nat (length (pk_entries p)), p\<lparr>pk_entries := pk_entries p @ [(tag, body)]\<rparr>))"

definition pickler_new :: pickler where
  "pickler_new =
     (let p = \<lparr>pk_entries = [], term_names = Map.empty, type_names = Map.empty, ext_refs = Map.empty,
               pk_none = 0, notpe = 0, noprefix = 0, scala_mod = None, java_lang_mod = None, empty_pkg = None,
               collection_immutable = None\<rparr>;
          (i, p) = run_state (add NONEsym []) p; p = p\<lparr>pk_none := i\<rparr>;
          (i, p) = run_state (add NOtpe []) p; p = p\<lparr>notpe := i\<rparr>;
          (i, p) = run_state (add NOPREFIXtpe []) p; p = p\<lparr>noprefix := i\<rparr>
      in p)"

section \<open>Names and external references\<close>

definition term_name :: "str \<Rightarrow> u32 pickling" where
  "term_name name = do {
     p \<leftarrow> State_Monad.get;
     case term_names p name of
       Some i \<Rightarrow> State_Monad.return i
     | None \<Rightarrow> do {
         i \<leftarrow> add TERMname (as_bytes name);
         State_Monad.update (\<lambda>p. p\<lparr>term_names := (term_names p)(name \<mapsto> i)\<rparr>);
         State_Monad.return i
       }
   }"

definition type_name :: "str \<Rightarrow> u32 pickling" where
  "type_name name = do {
     p \<leftarrow> State_Monad.get;
     case type_names p name of
       Some i \<Rightarrow> State_Monad.return i
     | None \<Rightarrow> do {
         i \<leftarrow> add TYPEname (as_bytes name);
         State_Monad.update (\<lambda>p. p\<lparr>type_names := (type_names p)(name \<mapsto> i)\<rparr>);
         State_Monad.return i
       }
   }"

definition symbol_term_name :: "str \<Rightarrow> u32 pickling" where
  "symbol_term_name name = term_name (encode_method_name name)"

definition symbol_type_name :: "str \<Rightarrow> u32 pickling" where
  "symbol_type_name name = type_name (encode_method_name name)"

text \<open>The lookup every kind of external reference starts with.\<close>

definition interned :: "str \<Rightarrow> u32 pickling \<Rightarrow> u32 pickling" where
  "interned key write = do {
     p \<leftarrow> State_Monad.get;
     case ext_refs p key of
       Some i \<Rightarrow> State_Monad.return i
     | None \<Rightarrow> do {
         i \<leftarrow> write;
         State_Monad.update (\<lambda>p. p\<lparr>ext_refs := (ext_refs p)(key \<mapsto> i)\<rparr>);
         State_Monad.return i
       }
   }"

definition mod_key :: "str \<Rightarrow> u32 option \<Rightarrow> str" where
  "mod_key name w =
     (case w of Some i \<Rightarrow> lit ''mod:'' @ name @ lit ''@'' @ dec (unat i) | None \<Rightarrow> lit ''mod:'' @ name)"

definition ext_key :: "str \<Rightarrow> u32 \<Rightarrow> str" where
  "ext_key name i = lit ''ext:'' @ name @ lit ''@'' @ dec (unat i)"

definition ext_term_key :: "str \<Rightarrow> u32 option \<Rightarrow> str" where
  "ext_term_key name w =
     (case w of Some i \<Rightarrow> lit ''ext-term:'' @ name @ lit ''@'' @ dec (unat i) | None \<Rightarrow> lit ''ext-term:'' @ name)"

definition ext_mod :: "str \<Rightarrow> u32 option \<Rightarrow> u32 pickling" where
  "ext_mod name w = interned (mod_key name w) (do {
     n \<leftarrow> term_name name;
     let body = write_nat [] n;
     let body = (case w of Some i \<Rightarrow> write_nat body i | None \<Rightarrow> body);
     add EXTMODCLASSref body
   })"

definition ext_ref_owned :: "str \<Rightarrow> u32 \<Rightarrow> u32 pickling" where
  "ext_ref_owned name owner = interned (ext_key name owner) (do {
     n \<leftarrow> type_name name;
     add EXTref (write_nat (write_nat [] n) owner)
   })"

definition ext_term_ref_owned :: "str \<Rightarrow> u32 \<Rightarrow> u32 pickling" where
  "ext_term_ref_owned name owner = interned (ext_term_key name (Some owner)) (do {
     n \<leftarrow> term_name name;
     add EXTref (write_nat (write_nat [] n) owner)
   })"

definition ext_term_ref_unowned :: "str \<Rightarrow> u32 pickling" where
  "ext_term_ref_unowned name = interned (ext_term_key name None) (do {
     n \<leftarrow> term_name name;
     add EXTref (write_nat [] n)
   })"

definition ext_ref :: "str \<Rightarrow> u32 pickling" where
  "ext_ref name = interned name (do {
     n \<leftarrow> type_name name;
     add EXTref (write_nat [] n)
   })"

section \<open>The packages every pickle names\<close>

text \<open>A field that remembers the index of a reference: \<open>if let Some(i) = self.f\<close>.\<close>

definition remembered :: "(pickler \<Rightarrow> u32 option) \<Rightarrow> (u32 \<Rightarrow> pickler \<Rightarrow> pickler) \<Rightarrow> u32 pickling \<Rightarrow> u32 pickling" where
  "remembered field store write = do {
     p \<leftarrow> State_Monad.get;
     case field p of
       Some i \<Rightarrow> State_Monad.return i
     | None \<Rightarrow> do {
         i \<leftarrow> write;
         State_Monad.update (store i);
         State_Monad.return i
       }
   }"

definition scala_module :: "u32 pickling" where
  "scala_module = remembered scala_mod (\<lambda>i p. p\<lparr>scala_mod := Some i\<rparr>) (ext_mod (lit ''scala'') None)"

definition scala_package_module :: "u32 pickling" where
  "scala_package_module = do { sc \<leftarrow> scala_module; ext_mod (lit ''package'') (Some sc) }"

definition java_lang_module :: "u32 pickling" where
  "java_lang_module = remembered java_lang_mod (\<lambda>i p. p\<lparr>java_lang_mod := Some i\<rparr>)
     (do { java \<leftarrow> ext_mod (lit ''java'') None; ext_mod (lit ''lang'') (Some java) })"

definition empty_package :: "u32 pickling" where
  "empty_package = remembered empty_pkg (\<lambda>i p. p\<lparr>empty_pkg := Some i\<rparr>) (ext_mod (lit ''<empty>'') None)"

definition scala_collection_immutable :: "u32 pickling" where
  "scala_collection_immutable =
     remembered collection_immutable (\<lambda>i p. p\<lparr>collection_immutable := Some i\<rparr>) (do {
       sc \<leftarrow> scala_module;
       col \<leftarrow> ext_mod (lit ''collection'') (Some sc);
       ext_mod (lit ''immutable'') (Some col)
     })"

text \<open>\<open>for seg in segs { owner = Some(self.ext_mod(seg, owner)) }\<close>\<close>

fun ext_mods :: "u32 option \<Rightarrow> str list \<Rightarrow> u32 option pickling" where
  "ext_mods w [] = State_Monad.return w"
| "ext_mods w (seg # segs) = do { i \<leftarrow> ext_mod seg w; ext_mods (Some i) segs }"

definition segments :: "str \<Rightarrow> str list" where
  "segments s = filter (\<lambda>w. w \<noteq> []) (split_on (chr CHR ''/'') s)"

definition package_ref_of :: "str \<Rightarrow> u32 pickling" where
  "package_ref_of jvm_name =
     (case rsplit_once (chr CHR ''/'') jvm_name of
        None \<Rightarrow> empty_package
      | Some (pkg, _) \<Rightarrow> do {
          w \<leftarrow> ext_mods None (segments pkg);
          case w of Some i \<Rightarrow> State_Monad.return i | None \<Rightarrow> empty_package
        })"

text \<open>The loop of \<open>package_object_singleton\<close>.\<close>

fun package_singletons :: "u32 \<Rightarrow> u32 option \<Rightarrow> str list \<Rightarrow> (u32 \<times> u32 option) pickling" where
  "package_singletons prefix w [] = State_Monad.return (prefix, w)"
| "package_singletons prefix w (seg # segs) = do {
     t \<leftarrow> (case w of Some i \<Rightarrow> ext_term_ref_owned seg i | None \<Rightarrow> ext_term_ref_unowned seg);
     prefix \<leftarrow> add SINGLEtpe (write_nat (write_nat [] prefix) t);
     i \<leftarrow> ext_mod seg w;
     package_singletons prefix (Some i) segs
   }"

definition package_object_singleton :: "str \<Rightarrow> u32 pickling" where
  "package_object_singleton jvm_name = do {
     p \<leftarrow> State_Monad.get;
     root \<leftarrow> ext_mod (lit ''<root>'') (Some (pk_none p));
     prefix \<leftarrow> add THIStpe (write_nat [] root);
     (prefix, w) \<leftarrow> package_singletons prefix None (segments jvm_name);
     t \<leftarrow> (case w of Some i \<Rightarrow> ext_term_ref_owned (lit ''package'') i | None \<Rightarrow> ext_term_ref_unowned (lit ''package''));
     add SINGLEtpe (write_nat (write_nat [] prefix) t)
   }"

section \<open>Type references\<close>

definition type_ref_in :: "u32 \<Rightarrow> str \<Rightarrow> u32 pickling" where
  "type_ref_in owner name = do {
     p \<leftarrow> State_Monad.get;
     let pref = noprefix p;
     sym \<leftarrow> ext_ref_owned name owner;
     add TYPEREFtpe (write_nat (write_nat [] pref) sym)
   }"

definition type_ref_this_in :: "u32 \<Rightarrow> str \<Rightarrow> u32 pickling" where
  "type_ref_this_in owner name = do {
     pref \<leftarrow> add THIStpe (write_nat [] owner);
     sym \<leftarrow> ext_ref_owned name owner;
     add TYPEREFtpe (write_nat (write_nat [] pref) sym)
   }"

definition type_ref_of_pickle_sym :: "u32 \<Rightarrow> u32 pickling" where
  "type_ref_of_pickle_sym i = do {
     p \<leftarrow> State_Monad.get;
     add TYPEREFtpe (write_nat (write_nat [] (noprefix p)) i)
   }"

definition type_ref_local_refs :: "u32 \<Rightarrow> u32 list \<Rightarrow> u32 pickling" where
  "type_ref_local_refs class_idx arg_refs = do {
     p \<leftarrow> State_Monad.get;
     add TYPEREFtpe (foldl write_nat (write_nat (write_nat [] (noprefix p)) class_idx) arg_refs)
   }"

definition type_ref_in_refs :: "u32 \<Rightarrow> str \<Rightarrow> u32 list \<Rightarrow> u32 pickling" where
  "type_ref_in_refs owner name arg_refs = do {
     p \<leftarrow> State_Monad.get;
     let pref = noprefix p;
     sym \<leftarrow> ext_ref_owned name owner;
     add TYPEREFtpe (foldl write_nat (write_nat (write_nat [] pref) sym) arg_refs)
   }"

definition pickle_existential_tpe :: "u32 \<Rightarrow> u32 list \<Rightarrow> u32 pickling" where
  "pickle_existential_tpe inner quantified =
     (if quantified = [] then State_Monad.return inner
      else add EXISTENTIALtpe (foldl write_nat (write_nat [] inner) quantified))"

definition scala_names :: "str list" where
  "scala_names = map lit [''Int'', ''Long'', ''Float'', ''Double'', ''Boolean'', ''Char'', ''Byte'', ''Short'',
     ''Unit'', ''Any'', ''AnyRef'', ''AnyVal'', ''Nothing'', ''Null'', ''Array'']"

definition type_ref_named :: "str \<Rightarrow> u32 pickling" where
  "type_ref_named name =
     (if name \<in> set scala_names then do { sc \<leftarrow> scala_module; type_ref_this_in sc name }
      else if name = lit ''Seq'' then do { pkg \<leftarrow> scala_package_module; type_ref_in pkg name }
      else if strip_prefix (lit ''Function'') name \<noteq> None then do { sc \<leftarrow> scala_module; type_ref_this_in sc name }
      else if name \<in> {lit ''String'', lit ''Object''} then do { jl \<leftarrow> java_lang_module; type_ref_in jl name }
      else do {
        p \<leftarrow> State_Monad.get;
        let pref = noprefix p;
        sym \<leftarrow> ext_ref name;
        add TYPEREFtpe (write_nat (write_nat [] pref) sym)
      })"

end
