(* ===== verification/PickleRefsSound.thy ===== *)
theory PickleRefsSound
  imports PickleTable PickleRefs PickleNames
begin

text \<open>
  The contract of the \<open>Pickler\<close>'s operations.  \<open>represents p es\<close> says that the bytes of \<open>p\<close> encode the
  entries \<open>es\<close> and that its maps and fields point at the entries they name; \<open>keeps\<close> is the triple every
  operation satisfies, and the locale \<open>pickler_operation\<close> is interpreted for each of them.
\<close>

unbundle bit_operations_syntax

section \<open>Keys\<close>

datatype external = Mod str "u32 option" | Ext str u32 | ExtTerm str "u32 option" | ExtRaw str

fun key_of :: "external \<Rightarrow> str" where
  "key_of (Mod name w) = mod_key name w"
| "key_of (Ext name w) = ext_key name w"
| "key_of (ExtTerm name w) = ext_term_key name w"
| "key_of (ExtRaw name) = name"

text \<open>A name with neither \<open>@\<close> nor \<open>:\<close>, as every encoded name is.\<close>

definition clean :: "str \<Rightarrow> bool" where
  "clean s \<longleftrightarrow> list_all is_scalar s \<and> chr CHR ''@'' \<notin> set s \<and> chr CHR '':'' \<notin> set s"

fun external_name :: "external \<Rightarrow> str" where
  "external_name (Mod name w) = name"
| "external_name (Ext name w) = name"
| "external_name (ExtTerm name w) = name"
| "external_name (ExtRaw name) = name"

lemma dec_digits: "x \<in> set (dec n) \<Longrightarrow> 48 \<le> x \<and> x < 58"
proof (induction n rule: dec.induct)
  case (1 n)
  then show ?case by (subst (asm) (2) dec.simps) (auto split: if_splits)
qed

lemma dec_inj: "dec m = dec n \<Longrightarrow> m = n"
proof (induction m arbitrary: n rule: dec.induct)
  case (1 m)
  show ?case
  proof (cases "m < 10 \<or> n < 10")
    case True
    then show ?thesis
      using 1(2) by (subst (asm) dec.simps, subst (asm) (2) dec.simps)
        (auto split: if_splits dest: arg_cong [where f = length] simp: dec.simps [of "_ div 10"])
  next
    case False
    then have "dec (m div 10) @ [48 + m mod 10] = dec (n div 10) @ [48 + n mod 10]"
      using 1(2) by (metis dec.simps)
    then have "m div 10 = n div 10" "m mod 10 = n mod 10" using 1(1) [of "n div 10"] False by auto
    then show ?thesis by (metis div_mult_mod_eq)
  qed
qed

lemma split_at_sign:
  assumes "(a @ 64 # dec m) = b @ 64 # dec n" "64 \<notin> set a" "64 \<notin> set b"
  shows "a = b \<and> m = n"
proof -
  have "takeWhile (\<lambda>x. x \<noteq> 64) (a @ 64 # dec m) = a" "takeWhile (\<lambda>x. x \<noteq> 64) (b @ 64 # dec n) = b"
    using assms(2,3) by (auto simp: takeWhile_append)
  with assms(1) show ?thesis by (auto dest: dec_inj)
qed

lemma chr_codes: "chr CHR ''@'' = 64" "chr CHR '':'' = 58"
  by simp_all

lemma lit_codes: "lit ''mod:'' = [109, 111, 100, 58]" "lit ''ext:'' = [101, 120, 116, 58]"
  "lit ''ext-term:'' = [101, 120, 116, 45, 116, 101, 114, 109, 58]" "lit ''@'' = [64]"
  by (simp_all add: lit_def)

lemma key_injective:
  assumes "clean (external_name x)" "clean (external_name y)" "key_of x = key_of y"
  shows "x = y"
  using assms
  by (cases x; cases y)
    (auto simp: mod_key_def ext_key_def ext_term_key_def clean_def chr_codes lit_codes word_unat_eq_iff dest!: split_at_sign
      dest: arg_cong [where f = set] split: option.splits)


section \<open>What a state stands for\<close>

text \<open>The entry at an index, and the external references and packages among the entries.\<close>

definition entry_at :: "Entry list \<Rightarrow> u32 \<Rightarrow> Entry \<Rightarrow> bool" where
  "entry_at es i e \<longleftrightarrow> unat i < length es \<and> es ! unat i = e"

definition is_external :: "Entry list \<Rightarrow> external \<Rightarrow> u32 \<Rightarrow> bool" where
  "is_external es x i \<longleftrightarrow> (\<exists>n.
     case x of
       Mod name w \<Rightarrow> entry_at es n (Entry_TermName name) \<and> entry_at es i (Entry_ExtModClassRef (unat n) (map_option unat w))
     | Ext name w \<Rightarrow> entry_at es n (Entry_TypeName name) \<and> entry_at es i (Entry_ExtRef (unat n) (Some (unat w)))
     | ExtTerm name w \<Rightarrow> entry_at es n (Entry_TermName name) \<and> entry_at es i (Entry_ExtRef (unat n) (map_option unat w))
     | ExtRaw name \<Rightarrow> entry_at es n (Entry_TypeName name) \<and> entry_at es i (Entry_ExtRef (unat n) None))"

text \<open>\<open>package_at es segs w\<close>: \<open>w\<close> is the package with these segments, innermost first.\<close>

fun package_at :: "Entry list \<Rightarrow> str list \<Rightarrow> u32 option \<Rightarrow> bool" where
  "package_at es [] w \<longleftrightarrow> w = None"
| "package_at es (seg # segs) w \<longleftrightarrow> (\<exists>i v. w = Some i \<and> is_external es (Mod seg v) i \<and> package_at es segs v)"

definition remembers :: "u32 option \<Rightarrow> (u32 \<Rightarrow> bool) \<Rightarrow> bool" where
  "remembers w P \<longleftrightarrow> (\<forall>i. w = Some i \<longrightarrow> P i)"

definition table :: "pickler \<Rightarrow> Entry list \<Rightarrow> bool" where
  "table p es \<longleftrightarrow> pk_entries p = map encode_entry es \<and>
     (\<forall>i < length es. writable (es ! i) \<and> list_all (\<lambda>j. j < i) (entry_refs (es ! i)))"

definition fields :: "pickler \<Rightarrow> Entry list \<Rightarrow> bool" where
  "fields p es \<longleftrightarrow>
     entry_at es (pk_none p) Entry_NoneSym \<and> entry_at es (noprefix p) Entry_NoPrefixTpe \<and>
     (\<forall>s. remembers (term_names p s) (\<lambda>i. entry_at es i (Entry_TermName s))) \<and>
     (\<forall>s. remembers (type_names p s) (\<lambda>i. entry_at es i (Entry_TypeName s))) \<and>
     (\<forall>k. remembers (ext_refs p k) (\<lambda>i. \<exists>x. clean (external_name x) \<and> key_of x = k \<and> is_external es x i)) \<and>
     remembers (scala_mod p) (\<lambda>i. package_at es [lit ''scala''] (Some i)) \<and>
     remembers (java_lang_mod p) (\<lambda>i. package_at es [lit ''lang'', lit ''java''] (Some i)) \<and>
     remembers (empty_pkg p) (\<lambda>i. package_at es [lit ''<empty>''] (Some i)) \<and>
     remembers (collection_immutable p) (\<lambda>i. package_at es [lit ''immutable'', lit ''collection'', lit ''scala''] (Some i))"

definition represents :: "pickler \<Rightarrow> Entry list \<Rightarrow> bool" where
  "represents p es \<longleftrightarrow> table p es \<and> fields p es"

lemma entry_at_append: "entry_at es i e \<Longrightarrow> entry_at (es @ xs) i e"
  by (simp add: entry_at_def nth_append)

lemma is_external_append: "is_external es x i \<Longrightarrow> is_external (es @ xs) x i"
  unfolding is_external_def by (cases x) (auto intro!: entry_at_append)

lemma package_at_append: "package_at es segs w \<Longrightarrow> package_at (es @ xs) segs w"
  by (induction segs arbitrary: w) (auto intro: is_external_append)

lemma remembers_mono: "remembers w P \<Longrightarrow> (\<And>i. P i \<Longrightarrow> Q i) \<Longrightarrow> remembers w Q"
  by (auto simp: remembers_def)

lemma remembers_simps [simp]: "remembers None P" "remembers (Some i) P \<longleftrightarrow> P i"
  by (simp_all add: remembers_def)

lemma fields_append: "fields p es \<Longrightarrow> fields p (es @ xs)"
  unfolding fields_def
  by (intro conjI allI) (blast intro: remembers_mono entry_at_append is_external_append package_at_append)+

lemma fields_pk_entries [simp]: "fields (p\<lparr>pk_entries := x\<rparr>) es \<longleftrightarrow> fields p es"
  by (simp add: fields_def)

lemma table_store [simp]:
  "table (p\<lparr>term_names := a\<rparr>) es = table p es" "table (p\<lparr>type_names := a\<rparr>) es = table p es"
  "table (p\<lparr>ext_refs := a\<rparr>) es = table p es" "table (p\<lparr>scala_mod := b\<rparr>) es = table p es"
  "table (p\<lparr>java_lang_mod := b\<rparr>) es = table p es" "table (p\<lparr>empty_pkg := b\<rparr>) es = table p es"
  "table (p\<lparr>collection_immutable := b\<rparr>) es = table p es"
  by (simp_all add: table_def)

lemma fields_term: "fields p es \<Longrightarrow> entry_at es i (Entry_TermName s) \<Longrightarrow> fields (p\<lparr>term_names := (term_names p)(s \<mapsto> i)\<rparr>) es"
  unfolding fields_def by (auto simp: remembers_def simp del: package_at.simps)

lemma fields_type: "fields p es \<Longrightarrow> entry_at es i (Entry_TypeName s) \<Longrightarrow> fields (p\<lparr>type_names := (type_names p)(s \<mapsto> i)\<rparr>) es"
  unfolding fields_def by (auto simp: remembers_def simp del: package_at.simps)

lemma fields_ext:
  "fields p es \<Longrightarrow> clean (external_name x) \<Longrightarrow> is_external es x i \<Longrightarrow> fields (p\<lparr>ext_refs := (ext_refs p)(key_of x \<mapsto> i)\<rparr>) es"
  unfolding fields_def by (auto simp: remembers_def simp del: package_at.simps)

lemma fieldsD:
  assumes "fields p es"
  shows "ext_refs p k = Some i \<Longrightarrow> \<exists>x. clean (external_name x) \<and> key_of x = k \<and> is_external es x i"
    "entry_at es (pk_none p) Entry_NoneSym" "entry_at es (noprefix p) Entry_NoPrefixTpe"
  using assms unfolding fields_def remembers_def by (blast+)

text \<open>Adding an entry whose references are already there.\<close>

lemma represents_add:
  assumes "represents p es" "writable e" "list_all (\<lambda>j. j < length es) (entry_refs e)"
  shows "represents (p\<lparr>pk_entries := pk_entries p @ [encode_entry e]\<rparr>) (es @ [e])"
  using assms fields_append [of p es "[e]"]
  by (auto simp: represents_def table_def nth_append less_Suc_eq)

section \<open>The contract of an operation\<close>

text \<open>
  \<open>keeps P m Q\<close>: where \<open>P\<close> holds of the entries, \<open>m\<close> appends entries, leaves the state consistent and
  returns an \<open>x\<close> with \<open>Q x\<close>, as long as the indices fit in 32 bits.
\<close>

definition grows :: "'a pickling \<Rightarrow> bool" where
  "grows m \<longleftrightarrow> (\<forall>p. \<exists>xs. pk_entries (snd (run_state m p)) = pk_entries p @ xs)"

definition small :: "pickler \<Rightarrow> bool" where
  "small p \<longleftrightarrow> length (pk_entries p) < 2 ^ 32"

definition keeps :: "(Entry list \<Rightarrow> bool) \<Rightarrow> 'a pickling \<Rightarrow> ('a \<Rightarrow> Entry list \<Rightarrow> bool) \<Rightarrow> bool" where
  "keeps P m Q \<longleftrightarrow> (\<forall>p es. represents p es \<longrightarrow> P es \<longrightarrow> small (snd (run_state m p)) \<longrightarrow>
     (\<exists>xs. represents (snd (run_state m p)) (es @ xs) \<and> Q (fst (run_state m p)) (es @ xs)))"

definition stable :: "(Entry list \<Rightarrow> bool) \<Rightarrow> bool" where
  "stable P \<longleftrightarrow> (\<forall>es xs. P es \<longrightarrow> P (es @ xs))"

named_theorems stable_intros \<open>predicates on entries that appending keeps\<close>
named_theorems grows_intros \<open>operations that only append entries\<close>

lemma stable_simple [stable_intros]:
  "stable (\<lambda>es. c)" "stable (\<lambda>es. entry_at es i e)" "stable (\<lambda>es. is_external es x i)"
  "stable (\<lambda>es. package_at es segs w)" "stable (fields q)" "stable (\<lambda>es. unat i < length es)"
  "stable (\<lambda>es. list_all (\<lambda>i. unat i < length es) is)"
  by (auto simp: stable_def list_all_iff intro: entry_at_append is_external_append package_at_append fields_append)

lemma stable_conj [stable_intros]: "stable P \<Longrightarrow> stable Q \<Longrightarrow> stable (\<lambda>es. P es \<and> Q es)"
  by (simp add: stable_def)

lemma grows_return [grows_intros]: "grows (State_Monad.return x)"
  by (simp add: grows_def)

lemma grows_add [grows_intros]: "grows (add tag body)"
  by (simp add: grows_def add_def)

lemma grows_bind [grows_intros]: "grows m \<Longrightarrow> (\<And>x. grows (f x)) \<Longrightarrow> grows (State_Monad.bind m f)"
  unfolding grows_def by (simp add: case_prod_unfold) (metis append.assoc)

lemma grows_get [grows_intros]: "grows State_Monad.get"
  by (simp add: grows_def)

lemma grows_update [grows_intros]: "(\<And>p. pk_entries (f p) = pk_entries p) \<Longrightarrow> grows (State_Monad.update f)"
  by (simp add: grows_def State_Monad.update_def)

lemma grows_option [grows_intros]: "grows a \<Longrightarrow> (\<And>i. grows (b i)) \<Longrightarrow> grows (case w of None \<Rightarrow> a | Some i \<Rightarrow> b i)"
  by (cases w) auto

lemma grows_prod [grows_intros]: "(\<And>a b. x = (a, b) \<Longrightarrow> grows (f a b)) \<Longrightarrow> grows (case x of (a, b) \<Rightarrow> f a b)"
  by (cases x) auto

lemma grows_if [grows_intros]: "grows a \<Longrightarrow> grows b \<Longrightarrow> grows (if c then a else b)"
  by simp

lemma keeps_return: "(\<And>es. P es \<Longrightarrow> Q x es) \<Longrightarrow> keeps P (State_Monad.return x) Q"
  unfolding keeps_def by (auto intro!: exI [of _ "[]"])

lemma keeps_bind:
  assumes "keeps P m Q" "stable P" "\<And>x. grows (f x)" "\<And>x. keeps (\<lambda>es. P es \<and> Q x es) (f x) R"
  shows "keeps P (State_Monad.bind m f) R"
  unfolding keeps_def
proof (intro allI impI)
  fix p es
  assume h: "represents p es" "P es" "small (snd (run_state (State_Monad.bind m f) p))"
  obtain x p1 where m: "run_state m p = (x, p1)" by fastforce
  with h(3) assms(3) [of x] have sm: "small p1" "small (snd (run_state (f x) p1))"
    by (auto simp: small_def grows_def) (metis add_lessD1 length_append)
  with h assms(1) m obtain xs where xs: "represents p1 (es @ xs)" "Q x (es @ xs)"
    by (fastforce simp: keeps_def)
  moreover have "P (es @ xs)" using assms(2) h(2) by (simp add: stable_def)
  ultimately obtain ys where "represents (snd (run_state (f x) p1)) ((es @ xs) @ ys)" "R (fst (run_state (f x) p1)) ((es @ xs) @ ys)"
    using assms(4) [of x] sm(2) unfolding keeps_def by blast
  then show "\<exists>xs. represents (snd (run_state (State_Monad.bind m f) p)) (es @ xs) \<and>
      R (fst (run_state (State_Monad.bind m f) p)) (es @ xs)"
    by (auto simp: m)
qed

lemma keeps_get: "(\<And>q. keeps (\<lambda>es. P es \<and> fields q es) (f q) R) \<Longrightarrow> keeps P (State_Monad.bind State_Monad.get f) R"
  by (auto simp: keeps_def represents_def)

lemma keeps_update:
  assumes "\<And>p es. table p es \<Longrightarrow> table (f p) es" "\<And>p es. P es \<Longrightarrow> fields p es \<Longrightarrow> fields (f p) es"
  shows "keeps P (State_Monad.update f) (\<lambda>_. P)"
  using assms unfolding keeps_def represents_def by (auto simp: State_Monad.update_def intro!: exI [of _ "[]"])

lemma keeps_store:
  assumes "\<And>p es. table (f p) es = table p es" "\<And>p es. P es \<Longrightarrow> fields p es \<Longrightarrow> fields (f p) es"
    "\<And>es. P es \<Longrightarrow> Q x es"
  shows "keeps P (State_Monad.bind (State_Monad.update f) (\<lambda>_. State_Monad.return x)) Q"
  using assms unfolding keeps_def represents_def by (auto simp: State_Monad.update_def intro!: exI [of _ "[]"])

lemma keeps_add:
  assumes "encode_entry e = (tag, body)" "\<And>es. P es \<Longrightarrow> writable e" "\<And>es. P es \<Longrightarrow> list_all (\<lambda>j. j < length es) (entry_refs e)"
    "\<And>es i. P es \<Longrightarrow> entry_at (es @ [e]) i e \<Longrightarrow> Q i (es @ [e])"
  shows "keeps P (add tag body) Q"
  unfolding keeps_def
proof (intro allI impI)
  fix p es
  assume h: "represents p es" "P es" "small (snd (run_state (add tag body) p))"
  have len: "length (pk_entries p) = length es" using h(1) by (simp add: represents_def table_def)
  moreover from h(3) have "length (pk_entries p) < 2 ^ 32" by (simp add: small_def add_def)
  ultimately have "entry_at (es @ [e]) (of_nat (length (pk_entries p))) e"
    by (simp add: entry_at_def unat_of_nat take_bit_eq_mod)
  then show "\<exists>xs. represents (snd (run_state (add tag body) p)) (es @ xs) \<and> Q (fst (run_state (add tag body) p)) (es @ xs)"
    using represents_add [OF h(1) assms(2) [OF h(2)] assms(3) [OF h(2)]] assms(4) [OF h(2)]
    by (intro exI [of _ "[e]"]) (simp add: add_def assms(1))
qed

lemma keeps_option:
  "(w = None \<Longrightarrow> keeps P a Q) \<Longrightarrow> (\<And>i. w = Some i \<Longrightarrow> keeps P (b i) Q) \<Longrightarrow> keeps P (case w of None \<Rightarrow> a | Some i \<Rightarrow> b i) Q"
  by (cases w) auto

lemma keeps_pre: "keeps P m Q \<Longrightarrow> (\<And>es. P' es \<Longrightarrow> P es) \<Longrightarrow> keeps P' m Q"
  by (auto simp: keeps_def)

lemma keeps_post: "keeps P m Q \<Longrightarrow> (\<And>x es. Q x es \<Longrightarrow> Q' x es) \<Longrightarrow> keeps P m Q'"
  unfolding keeps_def by blast

locale pickler_operation =
  fixes m :: "'a pickling" and P :: "Entry list \<Rightarrow> bool" and Q :: "'a \<Rightarrow> Entry list \<Rightarrow> bool"
  assumes growing: "grows m" and keeping: "keeps P m Q"
begin

lemma step_represents:
  assumes "represents p es" "P es" "run_state m p = (x, p')" "small p'"
  shows "\<exists>xs. represents p' (es @ xs) \<and> Q x (es @ xs)"
  using keeping assms unfolding keeps_def by (metis fst_conv snd_conv)

lemma step_smaller: "run_state m p = (x, p') \<Longrightarrow> small p' \<Longrightarrow> small p"
  using growing unfolding grows_def small_def by (metis add_lessD1 length_append snd_conv)

end

section \<open>Bodies\<close>

lemma write_ref: "write_nat buf i = buf @ ref_bytes (unat i)"
  by (simp add: ref_bytes_def write_nat_append [of buf])

lemma write_refs: "foldl write_nat buf is = buf @ refs_bytes (map unat is)"
  by (induction "is" arbitrary: buf) (simp_all add: write_ref)

lemma entry_at_index: "entry_at es i e \<Longrightarrow> unat i < length es"
  by (simp add: entry_at_def)

lemma is_external_index: "is_external es x i \<Longrightarrow> unat i < length es"
  by (cases x) (auto simp: is_external_def entry_at_def)

abbreviation index_of :: "u32 \<Rightarrow> Entry list \<Rightarrow> bool" where
  "index_of i es \<equiv> unat i < length es"

section \<open>The operations keep the contract\<close>

lemma term_name_grows [grows_intros]: "grows (term_name s)"
  unfolding term_name_def by (intro grows_intros) simp

lemma type_name_grows [grows_intros]: "grows (type_name s)"
  unfolding type_name_def by (intro grows_intros) simp

lemma interned_grows [grows_intros]: "grows w \<Longrightarrow> grows (interned k w)"
  unfolding interned_def by (intro grows_intros) simp_all

lemma remembered_grows [grows_intros]:
  "grows w \<Longrightarrow> (\<And>i p. pk_entries (store i p) = pk_entries p) \<Longrightarrow> grows (remembered f store w)"
  unfolding remembered_def by (intro grows_intros) simp_all

interpretation term_name: pickler_operation "term_name s" "\<lambda>es. list_all is_scalar s"
  "\<lambda>i es. entry_at es i (Entry_TermName s)"
proof
  show "keeps (\<lambda>es. list_all is_scalar s) (term_name s) (\<lambda>i es. entry_at es i (Entry_TermName s))"
    unfolding term_name_def
  proof (rule keeps_get, rule keeps_option, goal_cases)
    case (1 q)
    have "keeps (\<lambda>es. list_all is_scalar s \<and> fields q es) (add TERMname (as_bytes s)) (\<lambda>i es. entry_at es i (Entry_TermName s))"
      by (rule keeps_add [where e = "Entry_TermName s"]) auto
    then show ?case
      by (rule keeps_bind) (auto intro!: stable_intros grows_intros keeps_store fields_term)
  next
    case (2 q i)
    then show ?case by (intro keeps_return) (simp add: fields_def remembers_def)
  qed
qed (rule grows_intros)

interpretation type_name: pickler_operation "type_name s" "\<lambda>es. list_all is_scalar s"
  "\<lambda>i es. entry_at es i (Entry_TypeName s)"
proof
  show "keeps (\<lambda>es. list_all is_scalar s) (type_name s) (\<lambda>i es. entry_at es i (Entry_TypeName s))"
    unfolding type_name_def
  proof (rule keeps_get, rule keeps_option, goal_cases)
    case (1 q)
    have "keeps (\<lambda>es. list_all is_scalar s \<and> fields q es) (add TYPEname (as_bytes s)) (\<lambda>i es. entry_at es i (Entry_TypeName s))"
      by (rule keeps_add [where e = "Entry_TypeName s"]) auto
    then show ?case
      by (rule keeps_bind) (auto intro!: stable_intros grows_intros keeps_store fields_type)
  next
    case (2 q i)
    then show ?case by (intro keeps_return) (simp add: fields_def remembers_def)
  qed
qed (rule grows_intros)

lemma keeps_interned:
  assumes "clean (external_name x)" "keeps P w (\<lambda>i es. is_external es x i)" "stable P" "grows w"
  shows "keeps P (interned (key_of x) w) (\<lambda>i es. is_external es x i)"
  unfolding interned_def
proof (rule keeps_get, rule keeps_option, goal_cases)
  case (1 q)
  have "keeps (\<lambda>es. P es \<and> fields q es) w (\<lambda>i es. is_external es x i)" using assms(2) by (rule keeps_pre) auto
  then show ?case
    by (rule keeps_bind) (auto intro!: assms stable_intros grows_intros keeps_store fields_ext)
next
  case (2 q i)
  show ?case
  proof (rule keeps_return)
    fix es
    assume "P es \<and> fields q es"
    then obtain y where "clean (external_name y)" "key_of y = key_of x" "is_external es y i"
      using 2 fieldsD(1) by blast
    with key_injective [OF assms(1)] show "is_external es x i" by metis
  qed
qed

lemma keeps_remembered:
  assumes "keeps P w R" "stable P" "grows w" "\<And>p es. fields p es \<Longrightarrow> remembers (field p) (\<lambda>i. R i es)"
    "\<And>i p. pk_entries (store i p) = pk_entries p" "\<And>i p es. R i es \<Longrightarrow> fields p es \<Longrightarrow> fields (store i p) es"
  shows "keeps P (remembered field store w) R"
  unfolding remembered_def
proof (rule keeps_get, rule keeps_option, goal_cases)
  case (1 q)
  have "keeps (\<lambda>es. P es \<and> fields q es) w R" using assms(1) by (rule keeps_pre) auto
  then show ?case
    by (rule keeps_bind) (auto intro!: assms stable_intros grows_intros keeps_store simp: table_def assms(5))
next
  case (2 q i)
  then show ?case using assms(4) by (intro keeps_return) (auto simp: remembers_def)
qed

definition valid_owner :: "u32 option \<Rightarrow> Entry list \<Rightarrow> bool" where
  "valid_owner w es \<longleftrightarrow> (case w of None \<Rightarrow> True | Some i \<Rightarrow> index_of i es)"

lemma stable_owner [stable_intros]: "stable (valid_owner w)"
  by (cases w) (auto simp: stable_def valid_owner_def)

lemma ext_grows [grows_intros]:
  "grows (ext_mod s w)" "grows (ext_ref_owned s i)" "grows (ext_term_ref_owned s i)" "grows (ext_term_ref_unowned s)"
  "grows (ext_ref s)"
  unfolding ext_mod_def ext_ref_owned_def ext_term_ref_owned_def ext_term_ref_unowned_def ext_ref_def Let_def
  by (intro grows_intros)+

lemma keeps_interned_term:
  assumes "clean (external_name x)" "stable P" "\<And>es. P es \<Longrightarrow> list_all is_scalar s"
    "\<And>n. encode_entry (e n) = (tag, b n)" "\<And>n. writable (e n)"
    "\<And>n es. P es \<Longrightarrow> unat n < length es \<Longrightarrow> list_all (\<lambda>j. j < length es) (entry_refs (e n))"
    "\<And>n es i. entry_at es n (Entry_TermName s) \<Longrightarrow> entry_at es i (e n) \<Longrightarrow> is_external es x i"
  shows "keeps P (interned (key_of x) (do { n \<leftarrow> term_name s; add tag (b n) })) (\<lambda>i es. is_external es x i)"
proof (rule keeps_interned [OF assms(1) _ assms(2)])
  show "keeps P (do { n \<leftarrow> term_name s; add tag (b n) }) (\<lambda>i es. is_external es x i)"
  proof (rule keeps_bind)
    show "keeps P (term_name s) (\<lambda>i es. entry_at es i (Entry_TermName s))"
      using term_name.keeping by (rule keeps_pre) (rule assms(3))
    fix n
    show "keeps (\<lambda>es. P es \<and> entry_at es n (Entry_TermName s)) (add tag (b n)) (\<lambda>i es. is_external es x i)"
      by (rule keeps_add [where e = "e n"]) (auto intro: assms(4-7) entry_at_append entry_at_index)
  qed (intro assms(2) grows_intros)+
qed (intro grows_intros)

lemma keeps_interned_type:
  assumes "clean (external_name x)" "stable P" "\<And>es. P es \<Longrightarrow> list_all is_scalar s"
    "\<And>n. encode_entry (e n) = (tag, b n)" "\<And>n. writable (e n)"
    "\<And>n es. P es \<Longrightarrow> unat n < length es \<Longrightarrow> list_all (\<lambda>j. j < length es) (entry_refs (e n))"
    "\<And>n es i. entry_at es n (Entry_TypeName s) \<Longrightarrow> entry_at es i (e n) \<Longrightarrow> is_external es x i"
  shows "keeps P (interned (key_of x) (do { n \<leftarrow> type_name s; add tag (b n) })) (\<lambda>i es. is_external es x i)"
proof (rule keeps_interned [OF assms(1) _ assms(2)])
  show "keeps P (do { n \<leftarrow> type_name s; add tag (b n) }) (\<lambda>i es. is_external es x i)"
  proof (rule keeps_bind)
    show "keeps P (type_name s) (\<lambda>i es. entry_at es i (Entry_TypeName s))"
      using type_name.keeping by (rule keeps_pre) (rule assms(3))
    fix n
    show "keeps (\<lambda>es. P es \<and> entry_at es n (Entry_TypeName s)) (add tag (b n)) (\<lambda>i es. is_external es x i)"
      by (rule keeps_add [where e = "e n"]) (auto intro: assms(4-7) entry_at_append entry_at_index)
  qed (intro assms(2) grows_intros)+
qed (intro grows_intros)


lemma keeps_clean: "(clean s \<Longrightarrow> keeps P m Q) \<Longrightarrow> keeps (\<lambda>es. clean s \<and> P es) m Q"
  by (auto simp: keeps_def)

lemmas external_simps = write_ref opt_refs_def valid_owner_def is_external_def clean_def

interpretation ext_mod: pickler_operation "ext_mod s w" "\<lambda>es. clean s \<and> valid_owner w es"
  "\<lambda>i es. is_external es (Mod s w) i"
proof (unfold_locales, rule grows_intros, rule keeps_clean)
  assume s: "clean s"
  have "keeps (valid_owner w) (interned (key_of (Mod s w)) (do { n \<leftarrow> term_name s;
      add EXTMODCLASSref (case w of Some i \<Rightarrow> write_nat (write_nat [] n) i | None \<Rightarrow> write_nat [] n) }))
      (\<lambda>i es. is_external es (Mod s w) i)"
    by (rule keeps_interned_term [where e = "\<lambda>n. Entry_ExtModClassRef (unat n) (map_option unat w)"])
      (use s in \<open>auto simp: external_simps intro: stable_intros split: option.splits\<close>)
  then show "keeps (valid_owner w) (ext_mod s w) (\<lambda>i es. is_external es (Mod s w) i)"
    by (simp add: ext_mod_def Let_def)
qed

interpretation ext_ref_owned: pickler_operation "ext_ref_owned s w" "\<lambda>es. clean s \<and> index_of w es"
  "\<lambda>i es. is_external es (Ext s w) i"
proof (unfold_locales, rule grows_intros, rule keeps_clean)
  assume s: "clean s"
  have "keeps (index_of w) (interned (key_of (Ext s w)) (do { n \<leftarrow> type_name s;
      add EXTref (write_nat (write_nat [] n) w) })) (\<lambda>i es. is_external es (Ext s w) i)"
    by (rule keeps_interned_type [where e = "\<lambda>n. Entry_ExtRef (unat n) (Some (unat w))"])
      (use s in \<open>auto simp: external_simps intro: stable_intros\<close>)
  then show "keeps (index_of w) (ext_ref_owned s w) (\<lambda>i es. is_external es (Ext s w) i)"
    by (simp add: ext_ref_owned_def)
qed

interpretation ext_term_ref_owned: pickler_operation "ext_term_ref_owned s w" "\<lambda>es. clean s \<and> index_of w es"
  "\<lambda>i es. is_external es (ExtTerm s (Some w)) i"
proof (unfold_locales, rule grows_intros, rule keeps_clean)
  assume s: "clean s"
  have "keeps (index_of w) (interned (key_of (ExtTerm s (Some w))) (do { n \<leftarrow> term_name s;
      add EXTref (write_nat (write_nat [] n) w) })) (\<lambda>i es. is_external es (ExtTerm s (Some w)) i)"
    by (rule keeps_interned_term [where e = "\<lambda>n. Entry_ExtRef (unat n) (Some (unat w))"])
      (use s in \<open>auto simp: external_simps intro: stable_intros\<close>)
  then show "keeps (index_of w) (ext_term_ref_owned s w) (\<lambda>i es. is_external es (ExtTerm s (Some w)) i)"
    by (simp add: ext_term_ref_owned_def)
qed

interpretation ext_term_ref_unowned: pickler_operation "ext_term_ref_unowned s" "\<lambda>es. clean s \<and> True"
  "\<lambda>i es. is_external es (ExtTerm s None) i"
proof (unfold_locales, rule grows_intros, rule keeps_clean)
  assume s: "clean s"
  have "keeps (\<lambda>_. True) (interned (key_of (ExtTerm s None)) (do { n \<leftarrow> term_name s;
      add EXTref (write_nat [] n) })) (\<lambda>i es. is_external es (ExtTerm s None) i)"
    by (rule keeps_interned_term [where e = "\<lambda>n. Entry_ExtRef (unat n) None"])
      (use s in \<open>auto simp: external_simps intro: stable_intros\<close>)
  then show "keeps (\<lambda>_. True) (ext_term_ref_unowned s) (\<lambda>i es. is_external es (ExtTerm s None) i)"
    by (simp add: ext_term_ref_unowned_def)
qed

interpretation ext_ref: pickler_operation "ext_ref s" "\<lambda>es. clean s \<and> True" "\<lambda>i es. is_external es (ExtRaw s) i"
proof (unfold_locales, rule grows_intros, rule keeps_clean)
  assume s: "clean s"
  have "keeps (\<lambda>_. True) (interned (key_of (ExtRaw s)) (do { n \<leftarrow> type_name s;
      add EXTref (write_nat [] n) })) (\<lambda>i es. is_external es (ExtRaw s) i)"
    by (rule keeps_interned_type [where e = "\<lambda>n. Entry_ExtRef (unat n) None"])
      (use s in \<open>auto simp: external_simps intro: stable_intros\<close>)
  then show "keeps (\<lambda>_. True) (ext_ref s) (\<lambda>i es. is_external es (ExtRaw s) i)"
    by (simp add: ext_ref_def)
qed

section \<open>Packages\<close>

lemma keeps_frame: "stable P \<Longrightarrow> keeps P m Q \<Longrightarrow> keeps P m (\<lambda>x es. P es \<and> Q x es)"
  unfolding keeps_def stable_def by blast

lemma keeps_then:
  assumes "keeps P m Q" "stable P" "\<And>x. grows (f x)" "\<And>x. keeps (Q x) (f x) R"
  shows "keeps P (State_Monad.bind m f) R"
  using assms(1-3) by (rule keeps_bind) (rule keeps_pre [OF assms(4)], simp)

lemma keeps_False: "(\<And>es. \<not> P es) \<Longrightarrow> keeps P m Q"
  by (simp add: keeps_def)

lemma clean_lit: "list_all (\<lambda>c. c < 128 \<and> c \<noteq> 64 \<and> c \<noteq> 58) (lit s) \<Longrightarrow> clean (lit s)"
  by (auto simp: clean_def list_all_iff is_scalar_def)

lemma clean_names [simp]: "clean (lit ''scala'')" "clean (lit ''package'')" "clean (lit ''java'')" "clean (lit ''lang'')"
  "clean (lit ''<empty>'')" "clean (lit ''<root>'')" "clean (lit ''collection'')" "clean (lit ''immutable'')"
  by (rule clean_lit, simp)+

lemma package_owner: "package_at es segs w \<Longrightarrow> valid_owner w es"
  by (cases segs) (auto simp: valid_owner_def is_external_index)

lemma ext_mod_package:
  "keeps (\<lambda>es. clean s \<and> package_at es segs w) (ext_mod s w) (\<lambda>i es. package_at es (s # segs) (Some i))"
proof -
  have "keeps (\<lambda>es. clean s \<and> package_at es segs w) (ext_mod s w)
    (\<lambda>i es. (clean s \<and> package_at es segs w) \<and> is_external es (Mod s w) i)"
    by (intro keeps_frame stable_intros keeps_pre [OF ext_mod.keeping]) (auto dest: package_owner)
  then show ?thesis by (rule keeps_post) auto
qed

lemma ext_mods_grows [grows_intros]: "grows (ext_mods w ss)"
  by (induction ss arbitrary: w) (auto intro: grows_intros)

lemma ext_mods_packages:
  "list_all clean ss \<Longrightarrow> keeps (\<lambda>es. package_at es segs w) (ext_mods w ss) (\<lambda>w' es. package_at es (rev ss @ segs) w')"
proof (induction ss arbitrary: w segs)
  case Nil
  then show ?case by (simp add: keeps_return)
next
  case (Cons s ss)
  show ?case
    unfolding ext_mods.simps
  proof (rule keeps_then)
    show "keeps (\<lambda>es. package_at es segs w) (ext_mod s w) (\<lambda>i es. package_at es (s # segs) (Some i))"
      by (rule keeps_pre [OF ext_mod_package]) (use Cons.prems in simp)
    show "keeps (\<lambda>es. package_at es (s # segs) (Some i)) (ext_mods (Some i) ss) (\<lambda>w' es. package_at es (rev (s # ss) @ segs) w')" for i
      using Cons.IH [of "s # segs" "Some i"] Cons.prems by simp
  qed (intro stable_intros grows_intros)+
qed

lemma package_ops_grow [grows_intros]:
  "grows scala_module" "grows java_lang_module" "grows empty_package" "grows scala_collection_immutable"
  "grows scala_package_module" "grows (package_ref_of jvm)"
proof -
  show *: "grows scala_module" "grows empty_package"
    unfolding scala_module_def empty_package_def by (intro grows_intros; simp)+
  show "grows java_lang_module" "grows scala_collection_immutable" "grows scala_package_module" "grows (package_ref_of jvm)"
    unfolding java_lang_module_def scala_collection_immutable_def scala_package_module_def package_ref_of_def
    by (intro grows_intros *; simp)+
qed

lemma package_nil [simp]: "package_at es [] None"
  by simp

lemma keeps_package_Nil: "clean s \<Longrightarrow> keeps (\<lambda>_. True) (ext_mod s None) (\<lambda>i es. package_at es [s] (Some i))"
  by (rule keeps_pre [OF ext_mod_package]) simp

lemma keeps_package_Cons:
  "clean s \<Longrightarrow> keeps (\<lambda>es. package_at es segs (Some i)) (ext_mod s (Some i)) (\<lambda>j es. package_at es (s # segs) (Some j))"
  by (rule keeps_pre [OF ext_mod_package]) simp

interpretation scala_module: pickler_operation scala_module "\<lambda>_. True" "\<lambda>i es. package_at es [lit ''scala''] (Some i)"
proof (unfold_locales, rule grows_intros, unfold scala_module_def, rule keeps_remembered)
  show "keeps (\<lambda>_. True) (ext_mod (lit ''scala'') None) (\<lambda>i es. package_at es [lit ''scala''] (Some i))"
    by (intro keeps_package_Nil clean_names)
qed (auto intro: stable_intros grows_intros simp: fields_def remembers_def simp del: package_at.simps)

interpretation java_lang_module: pickler_operation java_lang_module "\<lambda>_. True"
  "\<lambda>i es. package_at es [lit ''lang'', lit ''java''] (Some i)"
proof (unfold_locales, rule grows_intros, unfold java_lang_module_def, rule keeps_remembered)
  show "keeps (\<lambda>_. True) (do { java \<leftarrow> ext_mod (lit ''java'') None; ext_mod (lit ''lang'') (Some java) })
     (\<lambda>i es. package_at es [lit ''lang'', lit ''java''] (Some i))"
    by (rule keeps_then [OF keeps_package_Nil _ _ keeps_package_Cons]) (intro clean_names stable_intros grows_intros)+
qed (auto intro: stable_intros grows_intros simp: fields_def remembers_def simp del: package_at.simps)

interpretation empty_package: pickler_operation empty_package "\<lambda>_. True" "\<lambda>i es. package_at es [lit ''<empty>''] (Some i)"
proof (unfold_locales, rule grows_intros, unfold empty_package_def, rule keeps_remembered)
  show "keeps (\<lambda>_. True) (ext_mod (lit ''<empty>'') None) (\<lambda>i es. package_at es [lit ''<empty>''] (Some i))"
    by (intro keeps_package_Nil clean_names)
qed (auto intro: stable_intros grows_intros simp: fields_def remembers_def simp del: package_at.simps)

interpretation scala_collection_immutable: pickler_operation scala_collection_immutable "\<lambda>_. True"
  "\<lambda>i es. package_at es [lit ''immutable'', lit ''collection'', lit ''scala''] (Some i)"
proof (unfold_locales, rule grows_intros, unfold scala_collection_immutable_def, rule keeps_remembered)
  show "keeps (\<lambda>_. True) (do { sc \<leftarrow> scala_module; col \<leftarrow> ext_mod (lit ''collection'') (Some sc); ext_mod (lit ''immutable'') (Some col) })
     (\<lambda>i es. package_at es [lit ''immutable'', lit ''collection'', lit ''scala''] (Some i))"
    by (rule keeps_then [OF scala_module.keeping], intro stable_intros, intro grows_intros,
        rule keeps_then [OF keeps_package_Cons _ _ keeps_package_Cons])
      (intro clean_names stable_intros grows_intros)+
qed (auto intro: stable_intros grows_intros simp: fields_def remembers_def simp del: package_at.simps)

interpretation scala_package_module: pickler_operation scala_package_module "\<lambda>_. True"
  "\<lambda>i es. package_at es [lit ''package'', lit ''scala''] (Some i)"
proof (unfold_locales, rule grows_intros, unfold scala_package_module_def)
  show "keeps (\<lambda>_. True) (do { sc \<leftarrow> scala_module; ext_mod (lit ''package'') (Some sc) })
     (\<lambda>i es. package_at es [lit ''package'', lit ''scala''] (Some i))"
    by (rule keeps_then [OF scala_module.keeping _ _ keeps_package_Cons]) (intro clean_names stable_intros grows_intros)+
qed

text \<open>The package of a JVM class name, innermost segment first.\<close>

definition package_path :: "str \<Rightarrow> str list" where
  "package_path jvm_name =
     (case rsplit_once (chr CHR ''/'') jvm_name of
        None \<Rightarrow> [lit ''<empty>'']
      | Some (pkg, _) \<Rightarrow> if segments pkg = [] then [lit ''<empty>''] else rev (segments pkg))"

interpretation package_ref_of: pickler_operation "package_ref_of jvm" "\<lambda>_. list_all clean (package_path jvm)"
  "\<lambda>i es. package_at es (package_path jvm) (Some i)"
proof (unfold_locales, rule grows_intros)
  show "keeps (\<lambda>_. list_all clean (package_path jvm)) (package_ref_of jvm) (\<lambda>i es. package_at es (package_path jvm) (Some i))"
  proof (cases "rsplit_once (chr CHR ''/'') jvm")
    case None
    show ?thesis
      unfolding package_ref_of_def package_path_def None option.case by (rule keeps_pre [OF empty_package.keeping]) simp
  next
    case (Some p)
    obtain pkg c where p: "p = (pkg, c)" by (cases p)
    show ?thesis
    proof (cases "list_all clean (package_path jvm)")
      case True
      have clean: "list_all clean (segments pkg)" using True Some p by (auto simp: package_path_def split: if_splits)
      have "keeps (\<lambda>_. True) (do { w \<leftarrow> ext_mods None (segments pkg); case w of Some i \<Rightarrow> State_Monad.return i | None \<Rightarrow> empty_package })
         (\<lambda>i es. package_at es (package_path jvm) (Some i))"
      proof (rule keeps_then)
        show "keeps (\<lambda>_. True) (ext_mods None (segments pkg)) (\<lambda>w es. package_at es (rev (segments pkg)) w)"
          using ext_mods_packages [OF clean, of "[]" None] by simp
        show "keeps (\<lambda>es. package_at es (rev (segments pkg)) w) (case w of Some i \<Rightarrow> State_Monad.return i | None \<Rightarrow> empty_package)
           (\<lambda>i es. package_at es (package_path jvm) (Some i))" for w
        proof (rule keeps_option)
          show "keeps (\<lambda>es. package_at es (rev (segments pkg)) w) (State_Monad.return i) (\<lambda>i es. package_at es (package_path jvm) (Some i))"
            if "w = Some i" for i
            using that Some p by (intro keeps_return) (auto simp: package_path_def)
          show "keeps (\<lambda>es. package_at es (rev (segments pkg)) w) empty_package (\<lambda>i es. package_at es (package_path jvm) (Some i))"
            if "w = None"
          proof (cases "segments pkg = []")
            case True
            show ?thesis
              unfolding package_path_def Some p option.case prod.case if_P [OF True]
              by (rule keeps_pre [OF empty_package.keeping]) simp
          next
            case False
            then obtain s ss where "rev (segments pkg) = s # ss" by (cases "rev (segments pkg)") auto
            then show ?thesis using that by (intro keeps_False) simp
          qed
        qed
      qed (intro stable_intros grows_intros)+
      then show ?thesis unfolding package_ref_of_def Some p by (simp add: True del: package_at.simps)
    qed (simp add: keeps_def)
  qed
qed

section \<open>Singletons and type references\<close>

lemma keeps_add_index:
  assumes "encode_entry e = (tag, body)" "writable e" "\<And>es. P es \<Longrightarrow> list_all (\<lambda>j. j < length es) (entry_refs e)"
  shows "keeps P (add tag body) (\<lambda>i es. entry_at es i e)"
  using assms by (intro keeps_add [where e = e]) auto

lemma keeps_singleton:
  "keeps (\<lambda>es. index_of a es \<and> index_of b es) (add SINGLEtpe (write_nat (write_nat [] a) b))
     (\<lambda>i es. entry_at es i (Entry_SingleTpe (unat a) (unat b)))"
  by (rule keeps_add_index) (auto simp: write_ref)

lemma keeps_this: "keeps (index_of a) (add THIStpe (write_nat [] a)) (\<lambda>i es. entry_at es i (Entry_ThisTpe (unat a)))"
  by (rule keeps_add_index) (auto simp: write_ref)

lemma keeps_type_ref:
  "keeps (\<lambda>es. index_of a es \<and> index_of b es \<and> list_all (\<lambda>i. index_of i es) args)
     (add TYPEREFtpe (foldl write_nat (write_nat (write_nat [] a) b) args))
     (\<lambda>i es. entry_at es i (Entry_TypeRefTpe (unat a) (unat b) (map unat args)))"
  by (rule keeps_add_index) (auto simp: write_ref write_refs list_all_iff)

lemma keeps_type_ref0:
  "keeps (\<lambda>es. index_of a es \<and> index_of b es) (add TYPEREFtpe (write_nat (write_nat [] a) b))
     (\<lambda>i es. entry_at es i (Entry_TypeRefTpe (unat a) (unat b) []))"
  using keeps_type_ref [of a b "[]"] by simp

lemma keeps_external_term:
  "clean s \<Longrightarrow> keeps (valid_owner w) (case w of Some i \<Rightarrow> ext_term_ref_owned s i | None \<Rightarrow> ext_term_ref_unowned s)
     (\<lambda>i es. index_of i es)"
  by (rule keeps_option)
    (auto simp: valid_owner_def intro: keeps_pre [OF keeps_post [OF ext_term_ref_owned.keeping is_external_index]]
      keeps_pre [OF keeps_post [OF ext_term_ref_unowned.keeping is_external_index]])

lemma package_singletons_grows [grows_intros]: "grows (package_singletons prefix w ss)"
  by (induction ss arbitrary: prefix w) (auto intro!: grows_intros split: option.splits)

lemma package_singletons_keeps:
  "list_all clean ss \<Longrightarrow> keeps (\<lambda>es. index_of prefix es \<and> package_at es segs w) (package_singletons prefix w ss)
     (\<lambda>(prefix', w') es. index_of prefix' es \<and> package_at es (rev ss @ segs) w')"
proof (induction ss arbitrary: prefix w segs)
  case Nil
  then show ?case by (simp add: keeps_return)
next
  case (Cons s ss)
  have s: "clean s" "list_all clean ss" using Cons.prems by auto
  show ?case
    unfolding package_singletons.simps
  proof (rule keeps_bind [OF keeps_pre [OF keeps_external_term [OF s(1)]]], goal_cases)
    case (4 t)
    show ?case
    proof (rule keeps_bind [OF keeps_pre [OF keeps_singleton]], goal_cases)
      case (4 prefix')
      show ?case
      proof (rule keeps_bind [OF keeps_pre [OF ext_mod_package [of s segs w]]], goal_cases)
        case (4 i)
        have "keeps (\<lambda>es. index_of prefix' es \<and> package_at es (s # segs) (Some i)) (package_singletons prefix' (Some i) ss)
           (\<lambda>(prefix', w') es. index_of prefix' es \<and> package_at es (rev (s # ss) @ segs) w')"
          using Cons.IH [OF s(2), of prefix' "s # segs" "Some i"] by simp
        then show ?case by (rule keeps_pre) (auto dest: entry_at_index)
      qed (use s in \<open>auto intro!: stable_intros grows_intros\<close>)
    qed (auto intro!: stable_intros grows_intros)
  qed (auto intro!: stable_intros grows_intros intro: package_owner)
qed

interpretation package_object_singleton: pickler_operation "package_object_singleton jvm"
  "\<lambda>_. list_all clean (segments jvm)" index_of
proof
  show "grows (package_object_singleton jvm)"
    unfolding package_object_singleton_def by (intro grows_intros | simp split: prod.splits)+
  show "keeps (\<lambda>_. list_all clean (segments jvm)) (package_object_singleton jvm) index_of"
    unfolding package_object_singleton_def
  proof (rule keeps_get, rule keeps_bind [OF keeps_pre [OF ext_mod.keeping]], goal_cases)
    case (1 q es)
    then show ?case by (auto simp: valid_owner_def simp del: lit_simps dest: fieldsD(2) entry_at_index)
  next
    case (4 q root)
    show ?case
    proof (rule keeps_bind [OF keeps_pre [OF keeps_this]], goal_cases)
      case (4 prefix)
      show ?case
      proof (cases "list_all clean (segments jvm)")
        case True
        show ?thesis
        proof (rule keeps_then [OF keeps_pre [OF package_singletons_keeps [OF True, of prefix "[]" None]]], goal_cases)
          case (4 pw)
          obtain p' w' where pw: "pw = (p', w')" by (cases pw)
          show ?case
            unfolding pw prod.case
            by (rule keeps_bind [OF keeps_pre [OF keeps_external_term [OF clean_names(2)]]])
              (auto intro!: stable_intros grows_intros keeps_pre [OF keeps_post [OF keeps_singleton entry_at_index]]
                intro: package_owner simp del: lit_simps)
        qed (auto intro!: stable_intros grows_intros dest: entry_at_index)
      qed (simp add: keeps_def)
    qed (auto intro!: stable_intros grows_intros dest: is_external_index)
  qed (auto intro!: stable_intros grows_intros)
qed


lemma keeps_symbol:
  "clean s \<Longrightarrow> keeps (index_of w) (ext_ref_owned s w) (\<lambda>i es. index_of i es)"
  by (rule keeps_pre [OF keeps_post [OF ext_ref_owned.keeping is_external_index]]) auto

lemma keeps_raw_symbol: "clean s \<Longrightarrow> keeps (\<lambda>_. True) (ext_ref s) (\<lambda>i es. index_of i es)"
  by (rule keeps_pre [OF keeps_post [OF ext_ref.keeping is_external_index]]) auto

interpretation type_ref_in: pickler_operation "type_ref_in w s" "\<lambda>es. clean s \<and> index_of w es" index_of
proof (unfold_locales, goal_cases)
  case 2
  show ?case
    unfolding type_ref_in_def Let_def
  proof (rule keeps_clean, rule keeps_get, rule keeps_bind [OF keeps_pre [OF keeps_symbol]], goal_cases)
    case (5 q sym)
    show ?case by (rule keeps_pre [OF keeps_post [OF keeps_type_ref0 entry_at_index]]) (auto dest: fieldsD(3) entry_at_index)
  qed (auto intro!: stable_intros grows_intros)
qed (auto simp: type_ref_in_def Let_def intro!: grows_intros)

interpretation type_ref_this_in: pickler_operation "type_ref_this_in w s" "\<lambda>es. clean s \<and> index_of w es" index_of
proof (unfold_locales, goal_cases)
  case 2
  show ?case
    unfolding type_ref_this_in_def
  proof (rule keeps_clean, rule keeps_bind [OF keeps_pre [OF keeps_this]], goal_cases)
    case (4 pref)
    show ?case
    proof (rule keeps_bind [OF keeps_pre [OF keeps_symbol]], goal_cases)
      case (5 sym)
      show ?case by (rule keeps_pre [OF keeps_post [OF keeps_type_ref0 entry_at_index]]) (auto dest: entry_at_index)
    qed (use 4 in \<open>auto intro!: stable_intros grows_intros\<close>)
  qed (auto intro!: stable_intros grows_intros)
qed (auto simp: type_ref_this_in_def intro!: grows_intros)

interpretation type_ref_of_pickle_sym: pickler_operation "type_ref_of_pickle_sym w" "index_of w" index_of
  by unfold_locales
    (auto simp: type_ref_of_pickle_sym_def intro!: grows_intros keeps_get keeps_pre [OF keeps_post [OF keeps_type_ref0 entry_at_index]]
      dest: fieldsD(3) entry_at_index)

interpretation type_ref_local_refs: pickler_operation "type_ref_local_refs w args"
  "\<lambda>es. index_of w es \<and> list_all (\<lambda>i. index_of i es) args" index_of
  by unfold_locales
    (auto simp: type_ref_local_refs_def intro!: grows_intros keeps_get keeps_pre [OF keeps_post [OF keeps_type_ref entry_at_index]]
      dest: fieldsD(3) entry_at_index)

interpretation type_ref_in_refs: pickler_operation "type_ref_in_refs w s args"
  "\<lambda>es. clean s \<and> index_of w es \<and> list_all (\<lambda>i. index_of i es) args" index_of
proof (unfold_locales, goal_cases)
  case 2
  show ?case
    unfolding type_ref_in_refs_def Let_def
  proof (rule keeps_clean, rule keeps_get, rule keeps_bind [OF keeps_pre [OF keeps_symbol]], goal_cases)
    case (5 q sym)
    show ?case by (rule keeps_pre [OF keeps_post [OF keeps_type_ref entry_at_index]]) (auto dest: fieldsD(3) entry_at_index)
  qed (auto intro!: stable_intros grows_intros)
qed (auto simp: type_ref_in_refs_def Let_def intro!: grows_intros)

interpretation existential: pickler_operation "pickle_existential_tpe inner quantified"
  "\<lambda>es. index_of inner es \<and> list_all (\<lambda>i. index_of i es) quantified" index_of
proof
  show "keeps (\<lambda>es. index_of inner es \<and> list_all (\<lambda>i. index_of i es) quantified) (pickle_existential_tpe inner quantified) index_of"
  proof (cases "quantified = []")
    case False
    have "keeps (\<lambda>es. index_of inner es \<and> list_all (\<lambda>i. index_of i es) quantified)
      (add EXISTENTIALtpe (foldl write_nat (write_nat [] inner) quantified))
      (\<lambda>i es. entry_at es i (Entry_ExistentialTpe (unat inner) (map unat quantified)))"
      by (rule keeps_add_index) (auto simp: write_ref write_refs list_all_iff)
    then show ?thesis using False by (simp add: pickle_existential_tpe_def keeps_post [OF _ entry_at_index])
  qed (simp add: pickle_existential_tpe_def keeps_return)
qed (auto simp: pickle_existential_tpe_def intro!: grows_intros)

lemma keeps_if: "keeps P a Q \<Longrightarrow> keeps P b Q \<Longrightarrow> keeps P (if c then a else b) Q"
  by simp

lemma package_index: "package_at es (s # segs) (Some i) \<Longrightarrow> index_of i es"
  by (auto dest: is_external_index)

lemma keeps_type_ref_after:
  assumes "keeps (\<lambda>_. True) m (\<lambda>i es. package_at es (seg # segs) (Some i))" "\<And>i. keeps (index_of i) (f i) index_of" "\<And>i. grows (f i)"
  shows "keeps (\<lambda>_. True) (State_Monad.bind m f) index_of"
proof (rule keeps_then)
  show "keeps (\<lambda>_. True) m (\<lambda>i es. index_of i es)"
    using assms(1) by (rule keeps_post) (rule package_index)
qed (intro stable_intros assms(2,3))+

interpretation type_ref_named: pickler_operation "type_ref_named s" "\<lambda>es. clean s \<and> True" index_of
proof (unfold_locales, goal_cases)
  case 1
  show ?case
    unfolding type_ref_named_def Let_def
    by (intro grows_intros type_ref_this_in.growing type_ref_in.growing)
next
  case 2
  show ?case
  proof (rule keeps_clean)
    assume s: "clean s"
    have this_in: "keeps (index_of i) (type_ref_this_in i s) index_of" and in': "keeps (index_of i) (type_ref_in i s) index_of" for i
      using s by (auto intro: keeps_pre [OF type_ref_this_in.keeping] keeps_pre [OF type_ref_in.keeping])
    note after = keeps_type_ref_after [OF scala_module.keeping this_in type_ref_this_in.growing]
      keeps_type_ref_after [OF scala_package_module.keeping in' type_ref_in.growing]
      keeps_type_ref_after [OF java_lang_module.keeping in' type_ref_in.growing]
    have other: "keeps (\<lambda>_. True) (do { p \<leftarrow> State_Monad.get; let pref = noprefix p; sym \<leftarrow> ext_ref s;
        add TYPEREFtpe (write_nat (write_nat [] pref) sym) }) index_of"
      unfolding Let_def
    proof (rule keeps_get, rule keeps_bind [OF keeps_pre [OF keeps_raw_symbol [OF s]]], goal_cases)
      case (4 q sym)
      show ?case by (rule keeps_pre [OF keeps_post [OF keeps_type_ref0 entry_at_index]]) (auto dest: fieldsD(3) entry_at_index)
    qed (use s in \<open>auto intro!: stable_intros grows_intros\<close>)
    show "keeps (\<lambda>_. True) (type_ref_named s) index_of"
      unfolding type_ref_named_def by (intro keeps_if after other)
  qed
qed

section \<open>Every state the operations reach\<close>

context pickler_operation begin

lemma step_represented:
  assumes "represents p es" "P es" "small (snd (run_state m p))"
  shows "\<exists>es. represents (snd (run_state m p)) es"
  using keeping assms unfolding keeps_def by blast

lemma step_small: "small (snd (run_state m p)) \<Longrightarrow> small p"
  using step_smaller by (metis prod.collapse)

end

abbreviation known :: "pickler \<Rightarrow> u32 \<Rightarrow> bool" where
  "known p i \<equiv> unat i < length (pk_entries p)"

inductive pickler_step :: "pickler \<Rightarrow> pickler \<Rightarrow> bool" where
  "list_all is_scalar s \<Longrightarrow> pickler_step p (snd (run_state (term_name s) p))"
| "list_all is_scalar s \<Longrightarrow> pickler_step p (snd (run_state (type_name s) p))"
| "clean s \<Longrightarrow> (case w of None \<Rightarrow> True | Some i \<Rightarrow> known p i) \<Longrightarrow> pickler_step p (snd (run_state (ext_mod s w) p))"
| "clean s \<Longrightarrow> known p i \<Longrightarrow> pickler_step p (snd (run_state (ext_ref_owned s i) p))"
| "clean s \<Longrightarrow> known p i \<Longrightarrow> pickler_step p (snd (run_state (ext_term_ref_owned s i) p))"
| "clean s \<Longrightarrow> pickler_step p (snd (run_state (ext_term_ref_unowned s) p))"
| "clean s \<Longrightarrow> pickler_step p (snd (run_state (ext_ref s) p))"
| "pickler_step p (snd (run_state scala_module p))"
| "pickler_step p (snd (run_state scala_package_module p))"
| "pickler_step p (snd (run_state java_lang_module p))"
| "pickler_step p (snd (run_state empty_package p))"
| "pickler_step p (snd (run_state scala_collection_immutable p))"
| "list_all clean (package_path s) \<Longrightarrow> pickler_step p (snd (run_state (package_ref_of s) p))"
| "list_all clean (segments s) \<Longrightarrow> pickler_step p (snd (run_state (package_object_singleton s) p))"
| "clean s \<Longrightarrow> known p i \<Longrightarrow> pickler_step p (snd (run_state (type_ref_in i s) p))"
| "clean s \<Longrightarrow> known p i \<Longrightarrow> pickler_step p (snd (run_state (type_ref_this_in i s) p))"
| "clean s \<Longrightarrow> pickler_step p (snd (run_state (type_ref_named s) p))"
| "known p i \<Longrightarrow> pickler_step p (snd (run_state (type_ref_of_pickle_sym i) p))"
| "known p i \<Longrightarrow> list_all (known p) is \<Longrightarrow> pickler_step p (snd (run_state (type_ref_local_refs i is) p))"
| "clean s \<Longrightarrow> known p i \<Longrightarrow> list_all (known p) is \<Longrightarrow> pickler_step p (snd (run_state (type_ref_in_refs i s is) p))"
| "known p i \<Longrightarrow> list_all (known p) is \<Longrightarrow> pickler_step p (snd (run_state (pickle_existential_tpe i is) p))"

inductive reachable :: "pickler \<Rightarrow> bool" where
  new: "reachable pickler_new"
| step: "reachable p \<Longrightarrow> pickler_step p q \<Longrightarrow> reachable q"

lemma represents_new: "represents pickler_new [Entry_NoneSym, Entry_NoTpe, Entry_NoPrefixTpe]"
proof -
  have new: "pickler_new = \<lparr>pk_entries = [(NONEsym, []), (NOtpe, []), (NOPREFIXtpe, [])], term_names = Map.empty,
      type_names = Map.empty, ext_refs = Map.empty, pk_none = 0, notpe = 1, noprefix = 2, scala_mod = None,
      java_lang_mod = None, empty_pkg = None, collection_immutable = None\<rparr>"
    by (simp add: pickler_new_def add_def)
  show ?thesis
    unfolding represents_def table_def fields_def new by (simp add: entry_at_def All_less_Suc)
qed

lemma known_index: "represents p es \<Longrightarrow> known p i \<longleftrightarrow> index_of i es"
  by (simp add: represents_def table_def)

lemma step_keeps:
  assumes "pickler_step p q" "represents p es" "small q"
  shows "\<exists>es. represents q es"
  using assms(1,3) known_index [OF assms(2)]
  by cases (auto intro!: assms(2) valid_owner_def [THEN iffD2]
    term_name.step_represented type_name.step_represented ext_mod.step_represented ext_ref_owned.step_represented
    ext_term_ref_owned.step_represented ext_term_ref_unowned.step_represented ext_ref.step_represented
    scala_module.step_represented scala_package_module.step_represented java_lang_module.step_represented
    empty_package.step_represented scala_collection_immutable.step_represented package_ref_of.step_represented
    package_object_singleton.step_represented type_ref_in.step_represented type_ref_this_in.step_represented
    type_ref_named.step_represented type_ref_of_pickle_sym.step_represented type_ref_local_refs.step_represented
    type_ref_in_refs.step_represented existential.step_represented split: option.splits simp del: package_at.simps)

lemma pickler_step_small:
  assumes "pickler_step p q" "small q"
  shows "small p"
  using assms
  by cases (blast dest: term_name.step_small type_name.step_small ext_mod.step_small ext_ref_owned.step_small
    ext_term_ref_owned.step_small ext_term_ref_unowned.step_small ext_ref.step_small
    scala_module.step_small scala_package_module.step_small java_lang_module.step_small
    empty_package.step_small scala_collection_immutable.step_small package_ref_of.step_small
    package_object_singleton.step_small type_ref_in.step_small type_ref_this_in.step_small
    type_ref_named.step_small type_ref_of_pickle_sym.step_small type_ref_local_refs.step_small
    type_ref_in_refs.step_small existential.step_small)+

lemma reachable_represents: "reachable p \<Longrightarrow> small p \<Longrightarrow> \<exists>es. represents p es"
proof (induction rule: reachable.induct)
  case new
  then show ?case using represents_new by blast
next
  case (step p q)
  then show ?case using step_keeps pickler_step_small by blast
qed

definition bodies_fit :: "pickler \<Rightarrow> bool" where
  "bodies_fit p \<longleftrightarrow> list_all (\<lambda>(_, body). length body < 2 ^ 32) (pk_entries p)"

lemma represented_reads_back:
  assumes "represents p es" "small p" "bodies_fit p"
  shows "read_pickle (finish (pk_entries p)) =
    Ok \<lparr>major = MAJOR, minor = MINOR, entries = es, entry_tags = map (fst \<circ> encode_entry) es\<rparr>"
proof -
  have t: "pk_entries p = map encode_entry es" "\<forall>i < length es. writable (es ! i) \<and> list_all (\<lambda>j. j < i) (entry_refs (es ! i))"
    using assms(1) by (auto simp: represents_def table_def)
  have "closed_table es"
    unfolding closed_table_def list_all_iff
  proof (intro ballI conjI)
    fix e assume "e \<in> set es"
    then obtain i where "i < length es" "es ! i = e" by (auto simp: in_set_conv_nth)
    with t(2) show "writable e" by auto
    show "j < length es" if "j \<in> set (entry_refs e)" for j
      using that t(2) \<open>es ! i = e\<close> \<open>i < length es\<close> order_less_trans [of j i "length es"] by (auto simp: list_all_iff)
  qed
  moreover have "length es < 2 ^ 32" "list_all (\<lambda>e. length (snd (encode_entry e)) < 2 ^ 32) es"
    using assms(2,3) by (auto simp: small_def bodies_fit_def t(1) list_all_iff case_prod_unfold)
  ultimately show ?thesis
    unfolding t(1) by (rule finished_table_reads_back)
qed

text \<open>
  C23: whatever sequence of naming and reference operations a pickle was built with, \<open>read_pickle\<close>
  accepts the finished bytes, finds as many entries as were added, and every entry refers only to
  entries before it.
\<close>
theorem reachable_reads_back:
  assumes "reachable p" "small p" "bodies_fit p"
  shows "\<exists>q. read_pickle (finish (pk_entries p)) = Ok q \<and> length (entries q) = length (pk_entries p) \<and>
    (\<forall>i < length (entries q). list_all (\<lambda>j. j < i) (entry_refs (entries q ! i)))"
proof -
  obtain es where es: "represents p es" using reachable_represents [OF assms(1,2)] by blast
  then have "length (pk_entries p) = length es" "\<forall>i < length es. list_all (\<lambda>j. j < i) (entry_refs (es ! i))"
    by (auto simp: represents_def table_def)
  then show ?thesis using represented_reads_back [OF es assms(2,3)] by simp
qed

lemma reachable_reads_back_witness:
  "\<exists>q. read_pickle (finish (pk_entries (snd (run_state scala_module pickler_new)))) = Ok q \<and>
    length (entries q) = length (pk_entries (snd (run_state scala_module pickler_new))) \<and>
    (\<forall>i < length (entries q). list_all (\<lambda>j. j < i) (entry_refs (entries q ! i)))"
proof (rule reachable_reads_back)
  show "reachable (snd (run_state scala_module pickler_new))" by (rule reachable.step [OF reachable.new pickler_step.intros(8)])
  have "pk_entries (snd (run_state scala_module pickler_new)) =
    [(3, []), (11, []), (12, []), (1, [115, 99, 97, 108, 97]), (10, [3])]"
    by (simp add: scala_module_def remembered_def ext_mod_def interned_def term_name_def add_def pickler_new_def
      write_nat_def write_long_nat_to_def as_bytes_def Let_def State_Monad.update_def mod_key_def)
  then show "small (snd (run_state scala_module pickler_new))" "bodies_fit (snd (run_state scala_module pickler_new))"
    by (simp_all add: small_def bodies_fit_def)
qed

section \<open>The name of a package read back\<close>

text \<open>The dotted name the reader spells for a package, given innermost segment first.\<close>

fun package_name :: "str list \<Rightarrow> str" where
  "package_name [] = []"
| "package_name (seg # segs) = (if package_marker seg then [] else dotted_name (package_name segs) seg)"

lemma package_full_name:
  assumes "entries q = es" "package_at es (seg # segs) (Some i)" "length segs < k"
  shows "walk_ends q k (unat i) \<and> full_name q k (unat i) = Some (package_name (seg # segs))"
  using assms(2,3)
proof (induction segs arbitrary: seg i k)
  case Nil
  then obtain n where "entry_at es n (Entry_TermName seg)" "entry_at es i (Entry_ExtModClassRef (unat n) None)"
    by (auto simp: is_external_def)
  then have "sym_name q (unat i) = Some seg" "sym_owner q (unat i) = None"
    by (simp_all add: assms(1) entry_at_def sym_name_def sym_owner_def pickle_name_def idx_Some)
  then show ?case using Nil(2) by (cases k) (simp_all add: dotted_name_def)
next
  case (Cons seg' segs)
  obtain v where v: "is_external es (Mod seg v) i" "package_at es (seg' # segs) v"
    using Cons.prems(1) unfolding package_at.simps(2) [of es seg "seg' # segs"] by blast
  then obtain j where j: "v = Some j" by auto
  from v obtain n where n: "entry_at es n (Entry_TermName seg)" "entry_at es i (Entry_ExtModClassRef (unat n) (Some (unat j)))"
      "package_at es (seg' # segs) (Some j)"
    by (auto simp: is_external_def j)
  then have "sym_name q (unat i) = Some seg" "sym_owner q (unat i) = Some (unat j)"
    by (simp_all add: assms(1) entry_at_def sym_name_def sym_owner_def pickle_name_def idx_Some)
  moreover obtain k' where "k = Suc k'" "length segs < k'" using Cons.prems(2) by (cases k) auto
  ultimately show ?case using Cons.IH [OF n(3)] by simp
qed

text \<open>
  C24: the package a class's JVM name lives in, written by \<open>package_ref_of\<close> into any pickle the
  operations reach, is read back by \<open>read_pickle\<close> under its dotted name.
\<close>
theorem package_name_reads_back:
  assumes "reachable p" "run_state (package_ref_of jvm) p = (i, p')" "small p'" "bodies_fit p'"
    "list_all clean (package_path jvm)" "length (package_path jvm) \<le> MAX_DEPTH"
  shows "\<exists>q. read_pickle (finish (pk_entries p')) = Ok q \<and>
    fst (sym_full_name q (no_names q) (unat i)) = Some (package_name (package_path jvm))"
proof -
  have "small p" using package_ref_of.step_smaller [OF assms(2,3)] .
  then obtain es where es: "represents p es" using reachable_represents [OF assms(1)] by blast
  obtain xs where xs: "represents p' (es @ xs)" "package_at (es @ xs) (package_path jvm) (Some i)"
    using package_ref_of.step_represents [OF es assms(5,2,3)] by blast
  obtain seg segs where path: "package_path jvm = seg # segs" using xs(2) by (cases "package_path jvm") auto
  let ?q = "\<lparr>major = MAJOR, minor = MINOR, entries = es @ xs, entry_tags = map (fst \<circ> encode_entry) (es @ xs)\<rparr>"
  have "walk_ends ?q MAX_DEPTH (unat i) \<and> full_name ?q MAX_DEPTH (unat i) = Some (package_name (seg # segs))"
    using xs(2) assms(6) unfolding path by (intro package_full_name) auto
  moreover have "sound_slots ?q (no_names ?q)" by (auto simp: sound_slots_def no_names_def idx_def split: if_splits)
  ultimately have "fst (sym_full_name ?q (no_names ?q) (unat i)) = Some (package_name (package_path jvm))"
    using full_name_at_sound [of ?q "no_names ?q" 0 "unat i"] unfolding path sym_full_name_def by simp
  then show ?thesis using represented_reads_back [OF xs(1) assms(3,4)] by blast
qed

lemma package_name_reads_back_witness:
  "\<exists>q. read_pickle (finish (pk_entries (snd (run_state (package_ref_of (lit ''a/b/C'')) pickler_new)))) = Ok q \<and>
    fst (sym_full_name q (no_names q) (unat (fst (run_state (package_ref_of (lit ''a/b/C'')) pickler_new)))) = Some (lit ''a.b'')"
proof -
  let ?r = "run_state (package_ref_of (lit ''a/b/C'')) pickler_new"
  have "pk_entries (snd ?r) = [(3, []), (11, []), (12, []), (1, [97]), (10, [3]), (1, [98]), (10, [5, 4])]"
    by (simp add: package_ref_of_def segments_def dec.simps scala_module_def remembered_def ext_mod_def interned_def term_name_def add_def pickler_new_def
      write_nat_def write_long_nat_to_def as_bytes_def Let_def State_Monad.update_def mod_key_def)
  then have "small (snd ?r)" "bodies_fit (snd ?r)" by (simp_all add: small_def bodies_fit_def)
  moreover have path: "package_path (lit ''a/b/C'') = [[98], [97]]" by (simp add: package_path_def segments_def)
  moreover have "list_all clean [[98], [97]]" by (simp add: clean_def is_scalar_def)
  moreover have "package_name [[98], [97]] = lit ''a.b''" by (simp add: package_marker_def dotted_name_def)
  ultimately show ?thesis
    using package_name_reads_back [OF reachable.new, of "lit ''a/b/C''" "fst ?r" "snd ?r"]
    by (simp add: MAX_DEPTH_def del: lit_simps)
qed

lemma interned_again:
  assumes "grows w" "run_state (interned k w) p = (i, p')"
  shows "run_state (interned k w) p' = (i, p')"
  using assms(2)
  by (cases "ext_refs p k") (auto simp: interned_def State_Monad.update_def split: prod.splits)

text \<open>
  References are interned: asking twice for the same module gives the same index and adds nothing.
\<close>
theorem ext_mod_interned:
  "run_state (do { i \<leftarrow> ext_mod s w; j \<leftarrow> ext_mod s w; State_Monad.return (i, j) }) p =
    (case run_state (ext_mod s w) p of (i, p') \<Rightarrow> ((i, i), p'))"
proof -
  obtain i p' where r: "run_state (ext_mod s w) p = (i, p')" by fastforce
  then have "run_state (ext_mod s w) p' = (i, p')"
    unfolding ext_mod_def by (intro interned_again) (auto simp: Let_def intro!: grows_intros split: option.splits)
  with r show ?thesis by simp
qed

end
