(* ===== verification/ScalaColl.thy ===== *)
theory ScalaColl
  imports Prelude "HOL-Library.Multiset"
begin

text \<open>
  \<open>crates/typer/src/scala_coll.rs\<close>: the iteration order of Scala 2.13's immutable sets.  The hash mixing
  is on 32-bit words; the trie's order is computed from the elements and their hashes; \<open>ScalaSet\<close> is
  shown to be a set whose \<open>elems\<close> enumerates it, and the order of a hash set to depend on its elements
  alone.
\<close>

unbundle bit_operations_syntax

section \<open>Hashes\<close>

definition improve :: "i32 \<Rightarrow> i32" where
  "improve hcode =
     (let h = hcode + NOT (push_bit 9 hcode);
          h = h XOR drop_bit 14 h;
          h = h + push_bit 4 h
      in h XOR drop_bit 10 h)"

definition murmur_mix_last :: "i32 \<Rightarrow> i32 \<Rightarrow> i32" where
  "murmur_mix_last hash data =
     (let k = data;
          k = k * 0xcc9e2d51;
          k = word_rotl 15 k;
          k = k * 0x1b873593
      in hash XOR k)"

definition murmur_mix :: "i32 \<Rightarrow> i32 \<Rightarrow> i32" where
  "murmur_mix hash data =
     (let h = murmur_mix_last hash data in word_rotl 13 h * 5 + 0xe6546b64)"

definition murmur_finalize :: "i32 \<Rightarrow> i32 \<Rightarrow> i32" where
  "murmur_finalize hash len =
     (let h = hash XOR len;
          h = h XOR drop_bit 16 h;
          h = h * 0x85ebca6b;
          h = h XOR drop_bit 13 h;
          h = h * 0xc2b2ae35
      in h XOR drop_bit 16 h)"

text \<open>The UTF-16 code units of a string; \<open>java_string_hash\<close> folds over them.\<close>

definition utf16_units :: "str \<Rightarrow> nat list" where
  "utf16_units s =
     concat (map (\<lambda>c. if c < 0x10000 then [c]
                      else [0xD800 + (c - 0x10000) div 0x400, 0xDC00 + (c - 0x10000) mod 0x400]) s)"

definition java_string_hash :: "str \<Rightarrow> i32" where
  "java_string_hash s = foldl (\<lambda>h u. h * 31 + of_nat u) 0 (utf16_units s)"

section \<open>The order of a trie\<close>

definition fragment :: "u32 \<Rightarrow> nat \<Rightarrow> nat" where
  "fragment h shift = unat (drop_bit shift h AND 31)"

text \<open>The \<open>BTreeMap\<close> of a level: the non-empty groups by increasing fragment, each in insertion order.\<close>

definition buckets :: "('a \<times> u32) list \<Rightarrow> nat \<Rightarrow> ('a \<times> u32) list list" where
  "buckets items shift =
     filter (\<lambda>g. g \<noteq> []) (map (\<lambda>f. filter (\<lambda>(t, h). fragment h shift = f) items) [0..<32])"

function champ_level :: "('a \<times> u32) list \<Rightarrow> nat \<Rightarrow> 'a list" where
  "champ_level items shift =
     (if 32 \<le> shift then map fst items
      else map (\<lambda>g. fst (hd g)) (filter (\<lambda>g. length g = 1) (buckets items shift)) @
           concat (map (\<lambda>g. champ_level g (shift + 5)) (filter (\<lambda>g. 1 < length g) (buckets items shift))))"
  by pat_completeness auto
termination
  by (relation "measure (\<lambda>(_, shift). 32 - shift)") auto

declare champ_level.simps [simp del]

definition champ_order :: "('a \<times> i32) list \<Rightarrow> 'a list" where
  "champ_order items = champ_level (map (\<lambda>(t, h). (t, improve h)) items) 0"

section \<open>Sets\<close>

text \<open>
  \<open>HashElems\<close>: its cell \<open>ordered\<close> memoises \<open>rehash\<close> and is emptied by every change, so it is left out.
  The iteration order of the membership set is never observed.
\<close>

record 'a hash_elems =
  inserted :: "'a list"
  members :: "'a set"
  stale :: "'a set"

datatype 'a scala_set = Small "'a list" | Hash "'a hash_elems" | ListSet "'a list"

definition hash_set :: "'a list \<Rightarrow> 'a scala_set" where
  "hash_set ins = Hash \<lparr>inserted = ins, members = set ins, stale = {}\<rparr>"

definition sempty :: "'a scala_set" where
  "sempty = Small []"

definition sempty_list :: "'a scala_set" where
  "sempty_list = ListSet []"

definition rehash :: "('a \<Rightarrow> i32) \<Rightarrow> 'a list \<Rightarrow> 'a list" where
  "rehash scala_hash v = champ_order (map (\<lambda>x. (x, scala_hash x)) v)"

fun elems :: "('a \<Rightarrow> i32) \<Rightarrow> 'a scala_set \<Rightarrow> 'a list" where
  "elems scala_hash (Small v) = v"
| "elems scala_hash (ListSet v) = v"
| "elems scala_hash (Hash h) = rehash scala_hash (filter (\<lambda>e. e \<in> members h) (inserted h))"

fun slen :: "'a scala_set \<Rightarrow> nat" where
  "slen (Small v) = length v"
| "slen (ListSet v) = length v"
| "slen (Hash h) = card (members h)"

definition sis_empty :: "'a scala_set \<Rightarrow> bool" where
  "sis_empty s \<longleftrightarrow> slen s = 0"

fun scontains :: "'a scala_set \<Rightarrow> 'a \<Rightarrow> bool" where
  "scontains (Small v) x \<longleftrightarrow> x \<in> set v"
| "scontains (ListSet v) x \<longleftrightarrow> x \<in> set v"
| "scontains (Hash h) x \<longleftrightarrow> x \<in> members h"

definition shead :: "('a \<Rightarrow> i32) \<Rightarrow> 'a scala_set \<Rightarrow> 'a option" where
  "shead scala_hash s = (case elems scala_hash s of [] \<Rightarrow> None | x # _ \<Rightarrow> Some x)"

definition sincl :: "'a scala_set \<Rightarrow> 'a \<Rightarrow> 'a scala_set" where
  "sincl s x =
     (if scontains s x then s
      else case s of
        Small v \<Rightarrow> let v = v @ [x] in if length v \<le> 4 then Small v else hash_set v
      | Hash h \<Rightarrow>
          let h = (if x \<in> stale h
                   then h\<lparr>stale := stale h - {x}, inserted := filter (\<lambda>e. e \<noteq> x) (inserted h)\<rparr> else h)
          in Hash (h\<lparr>members := insert x (members h), inserted := inserted h @ [x]\<rparr>)
      | ListSet v \<Rightarrow> ListSet (v @ [x]))"

fun sexcl :: "'a scala_set \<Rightarrow> 'a \<Rightarrow> 'a scala_set" where
  "sexcl (Small v) x = Small (filter (\<lambda>e. e \<noteq> x) v)"
| "sexcl (ListSet v) x = ListSet (filter (\<lambda>e. e \<noteq> x) v)"
| "sexcl (Hash h) x =
     (if x \<in> members h then Hash (h\<lparr>members := members h - {x}, stale := insert x (stale h)\<rparr>) else Hash h)"

definition sfrom_iter :: "'a list \<Rightarrow> 'a scala_set" where
  "sfrom_iter xs = foldl sincl sempty xs"

definition slist_from :: "'a list \<Rightarrow> 'a scala_set" where
  "slist_from xs = foldl sincl sempty_list xs"

section \<open>Mixing is injective\<close>

lemma xor_shift_inj:
  assumes "0 < k"
  shows "inj (\<lambda>h :: 'a :: len word. h XOR drop_bit k h)"
proof (rule injI)
  fix x y :: "'a word"
  assume eq: "x XOR drop_bit k x = y XOR drop_bit k y"
  have step: "bit x n = bit y n" if "bit x (n + k) = bit y (n + k)" for n
  proof -
    have "bit (w XOR drop_bit k w) n \<longleftrightarrow> bit w n \<noteq> bit w (n + k)" for w :: "'a word"
      by (simp add: bit_xor_iff bit_drop_bit_eq add.commute)
    with arg_cong [OF eq, of "\<lambda>w. bit w n"] that show ?thesis by auto
  qed
  have "bit x n = bit y n" for n
  proof (induction "LENGTH('a) - n" arbitrary: n rule: less_induct)
    case less
    show ?case
    proof (cases "n < LENGTH('a)")
      case True
      then have "LENGTH('a) - (n + k) < LENGTH('a) - n" using assms by simp
      with less have "bit x (n + k) = bit y (n + k)" by blast
      then show ?thesis by (rule step)
    next
      case False
      then show ?thesis using bit_imp_le_length [of x n] bit_imp_le_length [of y n] by auto
    qed
  qed
  then show "x = y" by (intro bit_word_eqI) simp
qed

lemma times_inj:
  assumes "(m :: 'a :: len word) * m' = 1"
  shows "inj (\<lambda>h. h * m)"
proof (rule injI)
  fix x y assume "x * m = y * m"
  then have "x * (m * m') = y * (m * m')" by (metis mult.assoc)
  then show "x = y" by (simp add: assms)
qed

lemma improve_steps: "improve =
  (\<lambda>h. h XOR drop_bit 10 h) \<circ> (\<lambda>h. h * 17) \<circ> (\<lambda>h. h XOR drop_bit 14 h) \<circ> (\<lambda>h. h - 1) \<circ> (\<lambda>h. h * (- 511))"
proof
  fix h :: i32
  have "h + NOT (push_bit 9 h) = h * (- 511) - 1"
    by (simp add: not_eq_complement push_bit_eq_mult algebra_simps)
  moreover have "x + push_bit 4 x = x * 17" for x :: i32
    by (simp add: push_bit_eq_mult algebra_simps)
  ultimately show "improve h = ((\<lambda>h. h XOR drop_bit 10 h) \<circ> (\<lambda>h. h * 17) \<circ> (\<lambda>h. h XOR drop_bit 14 h) \<circ>
      (\<lambda>h. h - 1) \<circ> (\<lambda>h. h * (- 511))) h"
    by (simp only: improve_def Let_def comp_def)
qed

lemma improve_inj: "inj improve"
  unfolding improve_steps
  by (intro inj_compose xor_shift_inj times_inj [of 17 "0xf0f0f0f1"] times_inj [of "- 511" "0x08040201"]) (simp_all add: inj_def)


section \<open>The trie's order\<close>

lemma mset_filter_key:
  "mset (concat (map (\<lambda>f. filter (\<lambda>x. k x = f) xs) [0..<n])) = filter_mset (\<lambda>x. k x < (n :: nat)) (mset xs)"
proof (induction n)
  case (Suc n)
  have "filter_mset (\<lambda>x. k x < Suc n) M = filter_mset (\<lambda>x. k x < n) M + filter_mset (\<lambda>x. k x = n) M" for M
    by (induction M) auto
  then show ?case using Suc by simp
qed simp

lemma fragment_bound: "fragment h shift < 32"
proof -
  have "drop_bit shift h AND 31 = take_bit 5 (drop_bit shift h)"
    by (simp add: take_bit_eq_mask mask_eq_exp_minus_1)
  moreover have "take_bit 5 x < 32" for x :: nat by (simp add: take_bit_eq_mod)
  ultimately show ?thesis
    by (simp add: fragment_def unsigned_take_bit_eq)
qed

lemma concat_filter_nonempty: "concat (filter (\<lambda>g. g \<noteq> []) gs) = concat gs"
  by (induction gs) auto

lemma mset_buckets: "mset (concat (buckets items shift)) = mset items"
  unfolding buckets_def concat_filter_nonempty
  using mset_filter_key [of "\<lambda>(t, h). fragment h shift" items 32]
  by (simp add: case_prod_unfold fragment_bound)

lemma buckets_nonempty: "g \<in> set (buckets items shift) \<Longrightarrow> g \<noteq> []"
  by (auto simp: buckets_def)

lemma mset_groups:
  assumes "\<And>g. g \<in> set gs \<Longrightarrow> g \<noteq> []" "\<And>g. g \<in> set gs \<Longrightarrow> 1 < length g \<Longrightarrow> mset (f g) = mset (map fst g)"
  shows "mset (map (\<lambda>g. fst (hd g)) (filter (\<lambda>g. length g = 1) gs) @ concat (map f (filter (\<lambda>g. 1 < length g) gs))) =
    mset (map fst (concat gs))"
  using assms
proof (induction gs)
  case (Cons g gs)
  then have IH: "mset (map (\<lambda>g. fst (hd g)) (filter (\<lambda>g. length g = 1) gs) @ concat (map f (filter (\<lambda>g. 1 < length g) gs))) =
    mset (map fst (concat gs))" by auto
  have "length g = 1 \<or> 1 < length g" using Cons.prems(1) [of g] by (cases g) auto
  then show ?case
  proof
    assume "length g = 1"
    then obtain x where "g = [x]" by (cases g) auto
    with IH show ?thesis by simp
  next
    assume "1 < length g"
    with IH Cons.prems(2) [of g] show ?thesis by simp
  qed
qed simp

lemma mset_champ_level: "mset (champ_level items shift) = mset (map fst items)"
proof (induction items shift rule: champ_level.induct)
  case (1 items shift)
  show ?case
  proof (cases "32 \<le> shift")
    case False
    have "mset (champ_level items shift) = mset (map fst (concat (buckets items shift)))"
      unfolding champ_level.simps [of items shift] if_not_P [OF False]
      by (rule mset_groups) (use 1 False buckets_nonempty in auto)
    also have "\<dots> = mset (map fst items)" by (simp only: mset_map mset_buckets)
    finally show ?thesis .
  qed (simp add: champ_level.simps)
qed

lemma mset_rehash: "mset (rehash h v) = mset v"
  by (simp add: rehash_def champ_order_def mset_champ_level comp_def)

lemma rehash_props: "set (rehash h v) = set v" "distinct (rehash h v) = distinct v" "length (rehash h v) = length v"
  using mset_rehash [of h v] by (metis mset_eq_setD, metis mset_eq_imp_distinct_iff, metis size_mset)

lemma fragment_low_bits:
  assumes "take_bit shift a = take_bit shift b" "fragment a shift = fragment b shift"
  shows "take_bit (shift + 5) a = take_bit (shift + 5) b"
proof -
  have f: "drop_bit shift h AND 31 = take_bit 5 (drop_bit shift h)" for h :: u32
    by (simp add: take_bit_eq_mask mask_eq_exp_minus_1)
  have "take_bit 5 (drop_bit shift a) = take_bit 5 (drop_bit shift b)"
    using assms(2) unfolding fragment_def f by (simp add: word_unat_eq_iff)
  then have high: "bit a n = bit b n" if "shift \<le> n" "n < shift + 5" for n
  proof -
    have "bit (take_bit 5 (drop_bit shift w)) (n - shift) = bit w n" for w :: u32
      using that by (auto simp: bit_take_bit_iff bit_drop_bit_eq)
    with \<open>take_bit 5 (drop_bit shift a) = take_bit 5 (drop_bit shift b)\<close> show ?thesis by metis
  qed
  have low: "bit a n = bit b n" if "n < shift" for n
    using arg_cong [OF assms(1), of "\<lambda>w. bit w n"] that by (simp add: bit_take_bit_iff)
  show ?thesis
  proof (rule bit_word_eqI)
    fix n
    show "bit (take_bit (shift + 5) a) n = bit (take_bit (shift + 5) b) n"
      using high [of n] low [of n] by (cases "n < shift") (auto simp: bit_take_bit_iff)
  qed
qed

lemma mset_filter_eq: "mset xs = mset ys \<Longrightarrow> mset (filter P xs) = mset (filter P ys)"
  by simp

text \<open>With distinct hashes, the order does not depend on the order of insertion.\<close>

lemma champ_level_canonical:
  assumes "mset items = mset items'" "distinct (map snd items)"
    "\<And>x y. x \<in> set items \<Longrightarrow> y \<in> set items \<Longrightarrow> take_bit shift (snd x) = take_bit shift (snd y)"
  shows "champ_level items shift = champ_level items' shift"
  using assms
proof (induction items shift arbitrary: items' rule: champ_level.induct)
  case (1 items shift)
  show ?case
  proof (cases "32 \<le> shift")
    case True
    have same: "snd x = snd y" if "x \<in> set items" "y \<in> set items" for x y
      using 1(4) [OF that] True by (simp add: take_bit_word_eq_self)
    have "items = items'"
    proof (cases items)
      case (Cons x xs)
      show ?thesis
      proof (cases xs)
        case Nil
        then show ?thesis using 1(2) Cons by (cases items') auto
      next
        case (Cons y ys)
        with \<open>items = x # xs\<close> 1(3) same [of x y] show ?thesis by simp
      qed
    qed (use 1(2) in simp)
    then show ?thesis by simp
  next
    case False
    define G where "G = (\<lambda>xs :: ('a \<times> u32) list. \<lambda>f. filter (\<lambda>(t, h). fragment h shift = f) xs)"
    have ms: "mset (G items f) = mset (G items' f)" for f unfolding G_def using 1(2) by (rule mset_filter_eq)
    have len: "length (G items f) = length (G items' f)" for f using ms [of f] by (metis size_mset)
    have single: "hd (G items f) = hd (G items' f)" if "length (G items f) = 1" for f
      using ms [of f] that len [of f] by (cases "G items f"; cases "G items' f") auto
    have rec: "champ_level (G items f) (shift + 5) = champ_level (G items' f) (shift + 5)"
      if "f < 32" "1 < length (G items f)" for f
    proof (rule 1(1) [OF False _ ms])
      show "G items f \<in> set (filter (\<lambda>g. 1 < length g) (buckets items shift))"
        using that by (auto simp: buckets_def G_def)
      show "distinct (map snd (G items f))" unfolding G_def using 1(3) by (rule distinct_map_filter)
      show "take_bit (shift + 5) (snd x) = take_bit (shift + 5) (snd y)"
        if "x \<in> set (G items f)" "y \<in> set (G items f)" for x y
        using that 1(4) [of x y] by (intro fragment_low_bits) (auto simp: G_def)
    qed
    have b: "buckets xs shift = filter (\<lambda>g. g \<noteq> []) (map (G xs) [0..<32])" for xs by (simp add: buckets_def G_def)
    have ne: "G items f = [] \<longleftrightarrow> G items' f = []" for f using len [of f] by (simp flip: length_0_conv)
    have singles: "map (\<lambda>g. fst (hd g)) (filter (\<lambda>g. length g = 1) (filter (\<lambda>g. g \<noteq> []) (map (G items) fs))) =
        map (\<lambda>g. fst (hd g)) (filter (\<lambda>g. length g = 1) (filter (\<lambda>g. g \<noteq> []) (map (G items') fs)))" for fs
    proof (induction fs)
      case (Cons f fs)
      then show ?case using len [of f] ne [of f] single [of f] by simp
    qed simp
    have groups: "set fs \<subseteq> {..<32} \<Longrightarrow> map (\<lambda>g. champ_level g (shift + 5)) (filter (\<lambda>g. 1 < length g) (filter (\<lambda>g. g \<noteq> []) (map (G items) fs))) =
        map (\<lambda>g. champ_level g (shift + 5)) (filter (\<lambda>g. 1 < length g) (filter (\<lambda>g. g \<noteq> []) (map (G items') fs)))" for fs
    proof (induction fs)
      case (Cons f fs)
      then show ?case using len [of f] ne [of f] rec [of f] by simp
    qed simp
    show ?thesis
      unfolding champ_level.simps [of items shift] champ_level.simps [of items' shift] if_not_P [OF False] b
      using singles [of "[0..<32]"] groups [of "[0..<32]"] by (simp add: subset_iff)
  qed
qed


section \<open>A Scala set is a set\<close>

text \<open>What a client of the sets relies on.\<close>

locale set_operations =
  fixes inv :: "'s \<Rightarrow> bool" and elements :: "'s \<Rightarrow> 'a set" and incl excl :: "'s \<Rightarrow> 'a \<Rightarrow> 's"
    and has :: "'s \<Rightarrow> 'a \<Rightarrow> bool" and size_of :: "'s \<Rightarrow> nat" and listing :: "'s \<Rightarrow> 'a list"
  assumes incl_set: "inv s \<Longrightarrow> inv (incl s x) \<and> elements (incl s x) = insert x (elements s)"
    and excl_set: "inv s \<Longrightarrow> inv (excl s x) \<and> elements (excl s x) = elements s - {x}"
    and has_set: "inv s \<Longrightarrow> has s x \<longleftrightarrow> x \<in> elements s"
    and size_set: "inv s \<Longrightarrow> size_of s = card (elements s)"
    and listing_set: "inv s \<Longrightarrow> distinct (listing s) \<and> set (listing s) = elements s"
begin

lemma finite_elements: "inv s \<Longrightarrow> finite (elements s)"
  using listing_set by (metis List.finite_set)

lemma fold_incl: "inv s \<Longrightarrow> inv (foldl incl s xs) \<and> elements (foldl incl s xs) = elements s \<union> set xs"
  by (induction xs arbitrary: s) (auto simp: incl_set)

lemma size_zero: "inv s \<Longrightarrow> size_of s = 0 \<longleftrightarrow> elements s = {}"
  by (simp add: size_set finite_elements)

lemma size_one: "inv s \<Longrightarrow> size_of s = 1 \<longleftrightarrow> (\<exists>x. elements s = {x})"
  using card_1_singleton_iff [of "elements s"] by (simp add: size_set)

lemma listing_length: "inv s \<Longrightarrow> length (listing s) = size_of s"
  using listing_set size_set distinct_card by metis

end

fun sset :: "'a scala_set \<Rightarrow> 'a set" where
  "sset (Small v) = set v"
| "sset (ListSet v) = set v"
| "sset (Hash h) = members h"

fun sset_ok :: "'a scala_set \<Rightarrow> bool" where
  "sset_ok (Small v) \<longleftrightarrow> distinct v \<and> length v \<le> 4"
| "sset_ok (ListSet v) \<longleftrightarrow> distinct v"
| "sset_ok (Hash h) \<longleftrightarrow>
     distinct (inserted h) \<and> set (inserted h) = members h \<union> stale h \<and> members h \<inter> stale h = {}"

interpretation scala: set_operations sset_ok sset sincl sexcl scontains slen "elems h" for h :: "'a \<Rightarrow> i32"
proof
  fix s :: "'a scala_set" and x :: 'a
  assume ok: "sset_ok s"
  show "scontains s x \<longleftrightarrow> x \<in> sset s" by (cases s) auto
  show "sset_ok (sincl s x) \<and> sset (sincl s x) = insert x (sset s)"
    using ok by (cases s) (auto simp: sincl_def Let_def hash_set_def)
  show "sset_ok (sexcl s x) \<and> sset (sexcl s x) = sset s - {x}"
    using ok by (cases s) (auto intro: order_trans [OF length_filter_le])
  show "slen s = card (sset s)"
    using ok by (cases s) (auto simp: distinct_card)
  show "distinct (elems h s) \<and> set (elems h s) = sset s"
    using ok by (cases s) (auto simp: rehash_props)
qed

lemma sempty_ok [simp]: "sset_ok sempty" "sset sempty = {}" "sset_ok sempty_list" "sset sempty_list = {}"
  by (simp_all add: sempty_def sempty_list_def)

lemma sfrom_iter_ok: "sset_ok (sfrom_iter xs)" "sset (sfrom_iter xs) = set xs"
  using scala.fold_incl [of sempty xs] by (simp_all add: sfrom_iter_def)

lemma slist_from_ok: "sset_ok (slist_from xs)" "sset (slist_from xs) = set xs"
  using scala.fold_incl [of sempty_list xs] by (simp_all add: slist_from_def)

datatype 'a set_op = Incl 'a | Excl 'a

fun do_op :: "'a scala_set \<Rightarrow> 'a set_op \<Rightarrow> 'a scala_set" where
  "do_op s (Incl x) = sincl s x"
| "do_op s (Excl x) = sexcl s x"

fun do_op_set :: "'a set \<Rightarrow> 'a set_op \<Rightarrow> 'a set" where
  "do_op_set s (Incl x) = insert x s"
| "do_op_set s (Excl x) = s - {x}"

lemma do_ops_ok: "sset_ok s \<Longrightarrow> sset_ok (foldl do_op s ops) \<and> sset (foldl do_op s ops) = foldl do_op_set (sset s) ops"
proof (induction ops arbitrary: s)
  case (Cons a ops)
  then show ?case by (cases a) (auto simp: scala.incl_set scala.excl_set)
qed simp

text \<open>
  C25: after any sequence of insertions and removals, on any of the representations, a Scala set is the
  mathematical set: membership and size are the set's, and \<open>elems\<close> lists its elements, each once.
\<close>
theorem scala_set_refines_set:
  "\<forall>s0 \<in> {sempty, sempty_list}. let s = foldl do_op s0 ops; S = foldl do_op_set {} ops in
     (\<forall>x. scontains s x = (x \<in> S)) \<and> slen s = card S \<and> distinct (elems scala_hash s) \<and> set (elems scala_hash s) = S"
proof (intro ballI)
  fix s0 :: "'a scala_set" assume "s0 \<in> {sempty, sempty_list}"
  then have "sset_ok s0" "sset s0 = {}" by auto
  then have "sset_ok (foldl do_op s0 ops)" "sset (foldl do_op s0 ops) = foldl do_op_set {} ops"
    using do_ops_ok by metis+
  then show "let s = foldl do_op s0 ops; S = foldl do_op_set {} ops in
     (\<forall>x. scontains s x = (x \<in> S)) \<and> slen s = card S \<and> distinct (elems scala_hash s) \<and> set (elems scala_hash s) = S"
    by (simp add: Let_def scala.has_set scala.size_set scala.listing_set)
qed

lemma scala_set_refines_set_witness:
  "slen (foldl do_op sempty [Incl 3, Incl (5 :: u32), Excl 3]) = card (foldl do_op_set {} [Incl 3, Incl (5 :: u32), Excl 3])"
  using scala_set_refines_set [of "[Incl 3, Incl (5 :: u32), Excl 3]" id] by (metis insertI1)

lemma rehash_canonical:
  assumes "inj scala_hash" "mset xs = mset ys" "distinct xs"
  shows "rehash scala_hash xs = rehash scala_hash ys"
  unfolding rehash_def champ_order_def
proof (rule champ_level_canonical)
  have i: "inj (\<lambda>x. improve (scala_hash x))" using inj_compose [OF improve_inj assms(1)] by (simp add: comp_def)
  show "distinct (map snd (map (\<lambda>(t, h). (t, improve h)) (map (\<lambda>x. (x, scala_hash x)) xs)))"
    using assms(3) inj_on_subset [OF i] by (simp add: comp_def distinct_map)
qed (use assms(2) in auto)

text \<open>
  C26: with a hash that tells elements apart, two hash sets with the same elements are iterated in the
  same order, however they were built.
\<close>
theorem hash_order_canonical:
  assumes "inj scala_hash" "sset_ok (Hash a)" "sset_ok (Hash b)" "members a = members b"
  shows "elems scala_hash (Hash a) = elems scala_hash (Hash b)"
proof -
  have "mset (filter (\<lambda>e. e \<in> members a) (inserted a)) = mset (filter (\<lambda>e. e \<in> members b) (inserted b))"
  proof (rule set_eq_iff_mset_eq_distinct [THEN iffD1])
    show "set (filter (\<lambda>e. e \<in> members a) (inserted a)) = set (filter (\<lambda>e. e \<in> members b) (inserted b))"
      using assms(2-4) by auto
  qed (use assms(2,3) in simp_all)
  then show ?thesis
    using assms(2) by (simp add: rehash_canonical [OF assms(1)])
qed

lemma hash_order_canonical_witness:
  "elems id (hash_set [1, 2, 3, 4, 5 :: i32]) = elems id (hash_set [5, 4, 3, 2, 1])"
  unfolding hash_set_def by (rule hash_order_canonical) auto

text \<open>
  The hash mixing loses nothing: \<open>improve\<close>, \<open>murmur_finalize\<close> and \<open>murmur_mix_last\<close> are injective
  in the hash.
\<close>
theorem mixing_injective: "inj improve \<and> inj (\<lambda>h. murmur_finalize h n) \<and> inj (\<lambda>h. murmur_mix_last h d)"
proof (intro conjI)
  have "inj (\<lambda>h :: i32. h XOR n)" for n by (rule injI) (metis xor.assoc xor.right_neutral xor_self_eq)
  then show "inj (\<lambda>h. murmur_mix_last h d)" by (simp add: murmur_mix_last_def Let_def)
  have "(\<lambda>h. murmur_finalize h n) = (\<lambda>h. h XOR drop_bit 16 h) \<circ> (\<lambda>h. h * 0xc2b2ae35) \<circ> (\<lambda>h. h XOR drop_bit 13 h) \<circ>
      (\<lambda>h. h * 0x85ebca6b) \<circ> (\<lambda>h. h XOR drop_bit 16 h) \<circ> (\<lambda>h. h XOR n)"
    by (simp only: murmur_finalize_def Let_def comp_def)
  then show "inj (\<lambda>h. murmur_finalize h n)"
    using \<open>\<And>n. inj (\<lambda>h. h XOR n)\<close>
    by (simp only:) (intro inj_compose xor_shift_inj times_inj [of "0xc2b2ae35" "0x7ed1b41d"] times_inj [of "0x85ebca6b" "0xa5cb9243"]; simp)
qed (rule improve_inj)

end
