(* ===== verification/PatmatProp.thy ===== *)
theory PatmatProp
  imports ScalaColl "HOL-Library.FSet"
begin

text \<open>
  \<open>crates/typer/src/warn_patmat_logic.rs\<close>, first half: the propositions of the pattern-match analysis,
  their equality and hash as sets of operands, the insertion-ordered operand sets, and \<open>simplify\<close>.
  \<open>canon\<close> is the proposition with its operands as mathematical sets: on propositions without repeated
  operands it decides \<open>==\<close>, and both the hash and the meaning depend on it alone.
\<close>

section \<open>Propositions\<close>

datatype prp =
    Prop_Eq nat nat
  | Prop_And "prp list"
  | Prop_Or "prp list"
  | Prop_Not prp
  | Prop_AtMostOne "nat list"
  | Prop_True
  | Prop_False
  | Prop_Sym nat

text \<open>The hasher is a library's: its state and what it writes are parameters.\<close>

record 's fx_hasher =
  fx_default :: 's
  fx_u8 :: "nat \<Rightarrow> 's \<Rightarrow> 's"
  fx_usize :: "nat \<Rightarrow> 's \<Rightarrow> 's"
  fx_u64 :: "u64 \<Rightarrow> 's \<Rightarrow> 's"
  fx_slice :: "nat list \<Rightarrow> 's \<Rightarrow> 's"
  fx_finish :: "'s \<Rightarrow> u64"

fun hash_prop :: "'s fx_hasher \<Rightarrow> prp \<Rightarrow> 's \<Rightarrow> 's" where
  "hash_prop fx (Prop_Eq a b) s = fx_usize fx b (fx_usize fx a (fx_u8 fx 0 s))"
| "hash_prop fx (Prop_And ops) s =
     fx_u64 fx (sum_list (map (\<lambda>p. fx_finish fx (hash_prop fx p (fx_default fx))) ops)) (fx_u8 fx 1 s)"
| "hash_prop fx (Prop_Or ops) s =
     fx_u64 fx (sum_list (map (\<lambda>p. fx_finish fx (hash_prop fx p (fx_default fx))) ops)) (fx_u8 fx 2 s)"
| "hash_prop fx (Prop_Not a) s = hash_prop fx a (fx_u8 fx 3 s)"
| "hash_prop fx (Prop_AtMostOne v) s = fx_slice fx v (fx_u8 fx 4 s)"
| "hash_prop fx Prop_True s = fx_u8 fx 5 s"
| "hash_prop fx Prop_False s = fx_u8 fx 6 s"
| "hash_prop fx (Prop_Sym a) s = fx_usize fx a (fx_u8 fx 7 s)"

definition prop_hash :: "'s fx_hasher \<Rightarrow> prp \<Rightarrow> u64" where
  "prop_hash fx p = fx_finish fx (hash_prop fx p (fx_default fx))"

lemma operand_size: "x \<in> set ops \<Longrightarrow> size (x :: prp) \<le> size_list size ops"
  by (rule size_list_estimation') auto

text \<open>
  \<open>PartialEq\<close>: operands are compared as sets, past eight of them through a hash set.
\<close>

function prop_eq :: "'s fx_hasher \<Rightarrow> prp \<Rightarrow> prp \<Rightarrow> bool" where
  "prop_eq fx p q =
     (case (p, q) of
        (Prop_Eq a b, Prop_Eq c d) \<Rightarrow> a = c \<and> b = d
      | (Prop_And a, Prop_And b) \<Rightarrow>
          length a = length b \<and>
          (if length a \<le> 8 then \<forall>x \<in> set a. \<exists>y \<in> set b. prop_eq fx y x
           else \<forall>x \<in> set a. \<exists>y \<in> set b. prop_hash fx y = prop_hash fx x \<and> prop_eq fx x y)
      | (Prop_Or a, Prop_Or b) \<Rightarrow>
          length a = length b \<and>
          (if length a \<le> 8 then \<forall>x \<in> set a. \<exists>y \<in> set b. prop_eq fx y x
           else \<forall>x \<in> set a. \<exists>y \<in> set b. prop_hash fx y = prop_hash fx x \<and> prop_eq fx x y)
      | (Prop_Not a, Prop_Not b) \<Rightarrow> prop_eq fx a b
      | (Prop_AtMostOne a, Prop_AtMostOne b) \<Rightarrow> a = b
      | (Prop_True, Prop_True) \<Rightarrow> True
      | (Prop_False, Prop_False) \<Rightarrow> True
      | (Prop_Sym a, Prop_Sym b) \<Rightarrow> a = b
      | _ \<Rightarrow> False)"
  by pat_completeness auto
termination
  by (relation "measure (\<lambda>(_, p, q). size p + size q)")
    (auto dest!: operand_size simp: less_Suc_eq_le)

declare prop_eq.simps [simp del]

section \<open>Operand sets\<close>

record prop_set =
  items :: "prp list"
  index :: "u64 \<Rightarrow> nat list"

definition prop_set_default :: prop_set where
  "prop_set_default = \<lparr>items = [], index = \<lambda>_. []\<rparr>"

definition prop_set_insert :: "'s fx_hasher \<Rightarrow> prp \<Rightarrow> prop_set \<Rightarrow> prop_set" where
  "prop_set_insert fx p s =
     (let bucket = index s (prop_hash fx p) in
      if list_ex (\<lambda>i. prop_eq fx (items s ! i) p) bucket then s
      else \<lparr>items = items s @ [p], index = (index s)(prop_hash fx p := bucket @ [length (items s)])\<rparr>)"

definition prop_set_contains :: "'s fx_hasher \<Rightarrow> prop_set \<Rightarrow> prp \<Rightarrow> bool" where
  "prop_set_contains fx s p = list_ex (\<lambda>i. prop_eq fx (items s ! i) p) (index s (prop_hash fx p))"

definition unique :: "'s fx_hasher \<Rightarrow> prp list \<Rightarrow> prp list" where
  "unique fx ps = items (foldl (\<lambda>s p. prop_set_insert fx p s) prop_set_default ps)"

definition and_create :: "'s fx_hasher \<Rightarrow> prp list \<Rightarrow> prp" where
  "and_create fx ps = Prop_And (unique fx ps)"

definition or_create :: "'s fx_hasher \<Rightarrow> prp list \<Rightarrow> prp" where
  "or_create fx ps = Prop_Or (unique fx ps)"

definition big_and :: "'s fx_hasher \<Rightarrow> prp list \<Rightarrow> prp" where
  "big_and fx ps = (case unique fx ps of [] \<Rightarrow> Prop_True | [p] \<Rightarrow> p | v \<Rightarrow> Prop_And v)"

definition big_or :: "'s fx_hasher \<Rightarrow> prp list \<Rightarrow> prp" where
  "big_or fx ps = (case unique fx ps of [] \<Rightarrow> Prop_False | [p] \<Rightarrow> p | v \<Rightarrow> Prop_Or v)"

section \<open>Simplification\<close>

fun nnf_not :: "'s fx_hasher \<Rightarrow> prp \<Rightarrow> prp" and nnf :: "'s fx_hasher \<Rightarrow> prp \<Rightarrow> prp" where
  "nnf_not fx (Prop_And ops) = Prop_Or (unique fx (map (nnf_not fx) ops))"
| "nnf_not fx (Prop_Or ops) = Prop_And (unique fx (map (nnf_not fx) ops))"
| "nnf_not fx (Prop_Not a) = nnf fx a"
| "nnf_not fx Prop_True = Prop_False"
| "nnf_not fx Prop_False = Prop_True"
| "nnf_not fx p = Prop_Not p"
| "nnf fx (Prop_And ops) = Prop_And (unique fx (map (nnf fx) ops))"
| "nnf fx (Prop_Or ops) = Prop_Or (unique fx (map (nnf fx) ops))"
| "nnf fx (Prop_Not a) = nnf_not fx a"
| "nnf fx p = p"

definition opposite :: "'s fx_hasher \<Rightarrow> prp \<Rightarrow> prp \<Rightarrow> bool" where
  "opposite fx a b =
     ((case b of Prop_Not bb \<Rightarrow> prop_eq fx bb a | _ \<Rightarrow> False) \<or>
      (case a of Prop_Not aa \<Rightarrow> prop_eq fx aa b | _ \<Rightarrow> False))"

definition has_impure_atom :: "'s fx_hasher \<Rightarrow> prp list \<Rightarrow> bool" where
  "has_impure_atom fx ops =
     (let n = length ops in
      if n > 10 \<or> n < 2 then False
      else list_ex (\<lambda>i. list_ex (\<lambda>j. opposite fx (ops ! i) (ops ! j)) [Suc i..<n]) [0..<n])"

text \<open>The loops of \<open>simplify_and\<close> and \<open>simplify_or\<close>, on the operands already simplified.\<close>

definition collect_and :: "'s fx_hasher \<Rightarrow> prp list \<Rightarrow> prop_set" where
  "collect_and fx fs =
     foldl (\<lambda>props f. case f of
         Prop_True \<Rightarrow> props
       | Prop_And fv \<Rightarrow> foldl (\<lambda>props f. prop_set_insert fx f props) props fv
       | _ \<Rightarrow> prop_set_insert fx f props) prop_set_default fs"

definition collect_or :: "'s fx_hasher \<Rightarrow> prp list \<Rightarrow> prop_set" where
  "collect_or fx fs =
     foldl (\<lambda>props f. case f of
         Prop_False \<Rightarrow> props
       | Prop_Or fv \<Rightarrow> foldl (\<lambda>props f. prop_set_insert fx f props) props fv
       | _ \<Rightarrow> prop_set_insert fx f props) prop_set_default fs"

definition simplify_and :: "'s fx_hasher \<Rightarrow> prp list \<Rightarrow> prp" where
  "simplify_and fx fs =
     (let props = collect_and fx fs in
      if prop_set_contains fx props Prop_False \<or> has_impure_atom fx (items props) then Prop_False
      else big_and fx (items props))"

definition simplify_or :: "'s fx_hasher \<Rightarrow> prp list \<Rightarrow> prp" where
  "simplify_or fx fs =
     (let props = collect_or fx fs in
      if prop_set_contains fx props Prop_True \<or> has_impure_atom fx (items props) then Prop_True
      else big_or fx (items props))"

text \<open>Nesting of the connectives, and leading negations: what \<open>simplify_prop\<close> descends on.\<close>

fun connectives :: "prp \<Rightarrow> nat" where
  "connectives (Prop_And ops) = Suc (Max (insert 0 (set (map connectives ops))))"
| "connectives (Prop_Or ops) = Suc (Max (insert 0 (set (map connectives ops))))"
| "connectives (Prop_Not a) = connectives a"
| "connectives _ = 0"

fun negations :: "prp \<Rightarrow> nat" where
  "negations (Prop_Not a) = Suc (negations a)"
| "negations _ = 0"

lemma prop_set_insert_items: "set (items (prop_set_insert fx p s)) \<subseteq> insert p (set (items s))"
  by (auto simp: prop_set_insert_def Let_def)

lemma unique_subset: "set (unique fx ps) \<subseteq> set ps"
proof -
  have "set (items (foldl (\<lambda>s p. prop_set_insert fx p s) s ps)) \<subseteq> set (items s) \<union> set ps" for s
  proof (induction ps arbitrary: s)
    case (Cons p ps)
    from Cons [of "prop_set_insert fx p s"] prop_set_insert_items [of fx p s] show ?case by auto
  qed simp
  from this [of prop_set_default] show ?thesis by (simp add: unique_def prop_set_default_def)
qed

lemma connectives_bound:
  assumes "\<And>q. q \<in> set qs \<Longrightarrow> \<exists>p \<in> set ps. connectives q \<le> connectives p"
  shows "Max (insert 0 (connectives ` set qs)) \<le> Max (insert 0 (connectives ` set ps))"
proof (rule Max.boundedI)
  fix a assume "a \<in> insert 0 (connectives ` set qs)"
  then consider "a = 0" | q where "q \<in> set qs" "a = connectives q" by auto
  then show "a \<le> Max (insert 0 (connectives ` set ps))"
  proof cases
    case 2
    then obtain p where p: "p \<in> set ps" "a \<le> connectives p" using assms by blast
    have "connectives p \<le> Max (insert 0 (connectives ` set ps))" using p(1) by (intro Max_ge) auto
    with p(2) show ?thesis by simp
  qed simp
qed simp_all

lemma nnf_connectives: "connectives (nnf_not fx p) \<le> connectives p" "connectives (nnf fx p) \<le> connectives p"
proof (induction p)
  case (Prop_And ops)
  have b: "Max (insert 0 (connectives ` set (unique fx (map f ops)))) \<le> Max (insert 0 (connectives ` set ops))"
    if "\<And>p. p \<in> set ops \<Longrightarrow> connectives (f p) \<le> connectives p" for f
    by (rule connectives_bound) (use unique_subset [of fx "map f ops"] that in fastforce)
  show "connectives (nnf_not fx (Prop_And ops)) \<le> connectives (Prop_And ops)" using b [of "nnf_not fx"] Prop_And(1) by simp
  show "connectives (nnf fx (Prop_And ops)) \<le> connectives (Prop_And ops)" using b [of "nnf fx"] Prop_And(2) by simp
next
  case (Prop_Or ops)
  have b: "Max (insert 0 (connectives ` set (unique fx (map f ops)))) \<le> Max (insert 0 (connectives ` set ops))"
    if "\<And>p. p \<in> set ops \<Longrightarrow> connectives (f p) \<le> connectives p" for f
    by (rule connectives_bound) (use unique_subset [of fx "map f ops"] that in fastforce)
  show "connectives (nnf_not fx (Prop_Or ops)) \<le> connectives (Prop_Or ops)" using b [of "nnf_not fx"] Prop_Or(1) by simp
  show "connectives (nnf fx (Prop_Or ops)) \<le> connectives (Prop_Or ops)" using b [of "nnf fx"] Prop_Or(2) by simp
qed auto

text \<open>The result is a negated atom only below no connective.\<close>

lemma nnf_negations:
  "negations (nnf_not fx p) \<le> 1" "negations (nnf fx p) \<le> 1"
  "\<lbrakk>negations p = 0; connectives p = 0\<rbrakk> \<Longrightarrow> negations (nnf fx p) = 0"
  "0 < connectives p \<Longrightarrow> negations (nnf_not fx p) = 0" "0 < connectives p \<Longrightarrow> negations (nnf fx p) = 0"
  by (induction p) auto

lemma operand_connectives:
  "p \<in> set ops \<Longrightarrow> connectives p < connectives (Prop_And ops)" "p \<in> set ops \<Longrightarrow> connectives p < connectives (Prop_Or ops)"
  by (simp_all add: less_Suc_eq_le)

lemma nnf_smaller:
  "connectives (nnf fx x) < connectives (Prop_Not x) \<or>
   connectives (nnf fx x) = connectives (Prop_Not x) \<and> negations (nnf fx x) < negations (Prop_Not x)"
  "connectives (nnf fx x) < connectives (Prop_Not (Prop_Not x)) \<or>
   connectives (nnf fx x) = connectives (Prop_Not (Prop_Not x)) \<and> negations (nnf fx x) < negations (Prop_Not (Prop_Not x))"
  using nnf_connectives(2) [of fx x] nnf_negations(2) [of fx x] nnf_negations(3,5) [of x fx]
  by (cases "0 < connectives x"; cases "negations x"; auto)+

function simplify_prop :: "'s fx_hasher \<Rightarrow> prp \<Rightarrow> prp" where
  "simplify_prop fx p =
     (case p of
        Prop_And ps \<Rightarrow> simplify_and fx (map (simplify_prop fx) ps)
      | Prop_Or ps \<Rightarrow> simplify_or fx (map (simplify_prop fx) ps)
      | Prop_Not inner \<Rightarrow>
          (case inner of
             Prop_Not a \<Rightarrow> simplify_prop fx (nnf fx a)
           | other \<Rightarrow> Prop_Not (simplify_prop fx (nnf fx other)))
      | other \<Rightarrow> other)"
  by pat_completeness auto
termination
  by (relation "measures [\<lambda>(_, p). connectives p, \<lambda>(_, p). negations p]")
    (simp_all add: operand_connectives nnf_smaller del: nnf.simps connectives.simps negations.simps)

declare simplify_prop.simps [simp del]

definition simplify :: "'s fx_hasher \<Rightarrow> prp \<Rightarrow> prp" where
  "simplify fx f = simplify_prop fx (nnf fx f)"

section \<open>Symbols\<close>

text \<open>\<open>gather_symbols_into\<close> with \<open>out\<close> and the set of those seen, which is \<open>out\<close>'s.\<close>

definition see_symbol :: "nat \<Rightarrow> nat list \<times> nat set \<Rightarrow> nat list \<times> nat set" where
  "see_symbol s st = (case st of (out, seen) \<Rightarrow> if s \<in> seen then (out, seen) else (out @ [s], insert s seen))"

fun gather_symbols_into :: "prp \<Rightarrow> nat list \<times> nat set \<Rightarrow> nat list \<times> nat set" where
  "gather_symbols_into (Prop_And ops) st = fold gather_symbols_into ops st"
| "gather_symbols_into (Prop_Or ops) st = fold gather_symbols_into ops st"
| "gather_symbols_into (Prop_Not a) st = gather_symbols_into a st"
| "gather_symbols_into (Prop_Sym s) st = see_symbol s st"
| "gather_symbols_into (Prop_AtMostOne ops) st = fold see_symbol ops st"
| "gather_symbols_into _ st = st"

definition gather_symbols :: "prp \<Rightarrow> nat list" where
  "gather_symbols p = fst (gather_symbols_into p ([], {}))"

end
