(* ===== verification/PatmatSem.thy ===== *)
theory PatmatSem
  imports PatmatProp
begin

text \<open>
  The meaning of propositions, and that equality, hashing and simplification respect it.
\<close>

section \<open>Meaning\<close>

text \<open>\<open>e x c\<close>: the variable \<open>x\<close> is the constant \<open>c\<close>; \<open>v s\<close>: the symbol \<open>s\<close> holds.\<close>

fun holds :: "(nat \<Rightarrow> nat \<Rightarrow> bool) \<Rightarrow> (nat \<Rightarrow> bool) \<Rightarrow> prp \<Rightarrow> bool" where
  "holds e v (Prop_Eq x c) \<longleftrightarrow> e x c"
| "holds e v (Prop_And ops) \<longleftrightarrow> (\<forall>p \<in> set ops. holds e v p)"
| "holds e v (Prop_Or ops) \<longleftrightarrow> (\<exists>p \<in> set ops. holds e v p)"
| "holds e v (Prop_Not p) \<longleftrightarrow> \<not> holds e v p"
| "holds e v (Prop_AtMostOne ops) \<longleftrightarrow> length (filter v ops) \<le> 1"
| "holds e v Prop_True \<longleftrightarrow> True"
| "holds e v Prop_False \<longleftrightarrow> False"
| "holds e v (Prop_Sym s) \<longleftrightarrow> v s"

section \<open>Operands as sets\<close>

datatype cprop =
    C_Eq nat nat | C_And "cprop fset" | C_Or "cprop fset" | C_Not cprop | C_AtMostOne "nat list" | C_True | C_False
  | C_Sym nat

fun canon :: "prp \<Rightarrow> cprop" where
  "canon (Prop_Eq x c) = C_Eq x c"
| "canon (Prop_And ops) = C_And (fset_of_list (map canon ops))"
| "canon (Prop_Or ops) = C_Or (fset_of_list (map canon ops))"
| "canon (Prop_Not p) = C_Not (canon p)"
| "canon (Prop_AtMostOne ops) = C_AtMostOne ops"
| "canon Prop_True = C_True"
| "canon Prop_False = C_False"
| "canon (Prop_Sym s) = C_Sym s"

text \<open>No operand occurs twice.\<close>

fun operand_sets :: "prp \<Rightarrow> bool" where
  "operand_sets (Prop_And ops) \<longleftrightarrow> (\<forall>p \<in> set ops. operand_sets p) \<and> distinct (map canon ops)"
| "operand_sets (Prop_Or ops) \<longleftrightarrow> (\<forall>p \<in> set ops. operand_sets p) \<and> distinct (map canon ops)"
| "operand_sets (Prop_Not p) \<longleftrightarrow> operand_sets p"
| "operand_sets _ \<longleftrightarrow> True"

lemma canon_operands: "canon |`| fset_of_list a = canon |`| fset_of_list b \<longleftrightarrow> canon ` set a = canon ` set b"
  by (metis fimage.rep_eq fset_inject fset_of_list.rep_eq)

lemma canon_image: "canon ` set a = canon ` set b \<Longrightarrow> p \<in> set a \<Longrightarrow> \<exists>x \<in> set b. canon p = canon x"
  by (metis imageE imageI)

lemma canon_holds: "canon p = canon q \<Longrightarrow> holds e v p = holds e v q"
proof (induction p arbitrary: q)
  case (Prop_And ops)
  then obtain b where q: "q = Prop_And b" "canon ` set ops = canon ` set b"
    by (cases q) (auto simp: canon_operands)
  have "\<exists>x \<in> set b. canon p = canon x" if "p \<in> set ops" for p using canon_image [OF q(2) that] .
  moreover have "\<exists>x \<in> set ops. canon x = canon p" if "p \<in> set b" for p using canon_image [OF q(2) [symmetric] that] by metis
  ultimately show ?case using Prop_And.IH unfolding q(1) holds.simps by metis
next
  case (Prop_Or ops)
  then obtain b where q: "q = Prop_Or b" "canon ` set ops = canon ` set b"
    by (cases q) (auto simp: canon_operands)
  have "\<exists>x \<in> set b. canon p = canon x" if "p \<in> set ops" for p using canon_image [OF q(2) that] .
  moreover have "\<exists>x \<in> set ops. canon x = canon p" if "p \<in> set b" for p using canon_image [OF q(2) [symmetric] that] by metis
  ultimately show ?case using Prop_Or.IH unfolding q(1) holds.simps by metis
next
  case (Prop_Not p)
  then obtain p' where q: "q = Prop_Not p'" "canon p = canon p'" by (cases q) auto
  with Prop_Not.IH [OF q(2)] show ?case by simp
next
  case Prop_Eq then show ?case by (cases q) auto
next
  case Prop_AtMostOne then show ?case by (cases q) auto
next
  case Prop_True then show ?case by (cases q) auto
next
  case Prop_False then show ?case by (cases q) auto
next
  case Prop_Sym then show ?case by (cases q) auto
qed

section \<open>Equal propositions have equal hashes\<close>

lemma sum_list_matched:
  fixes f :: "'a \<Rightarrow> 'b :: comm_monoid_add"
  assumes "mset (map k xs) = mset (map k ys)" "\<And>x y. x \<in> set xs \<Longrightarrow> y \<in> set ys \<Longrightarrow> k x = k y \<Longrightarrow> f x = f y"
  shows "sum_list (map f xs) = sum_list (map f ys)"
  using assms
proof (induction xs arbitrary: ys)
  case Nil
  then show ?case by simp
next
  case (Cons x xs)
  then have "k x \<in> set (map k ys)" by (metis list.set_intros(1) list.simps(9) mset_eq_setD)
  then obtain y where y: "y \<in> set ys" "k y = k x" by auto
  then obtain as bs where ys: "ys = as @ y # bs" by (auto simp: in_set_conv_decomp)
  have "sum_list (map f xs) = sum_list (map f (as @ bs))"
    using Cons.prems y(2) by (intro Cons.IH) (auto simp: ys)
  moreover have "f x = f y" using Cons.prems(2) [of x y] y by simp
  ultimately show ?case by (simp add: ys ac_simps)
qed

lemma distinct_canon_mset:
  "distinct (map canon a) \<Longrightarrow> distinct (map canon b) \<Longrightarrow> canon ` set a = canon ` set b \<Longrightarrow> mset (map canon a) = mset (map canon b)"
  by (subst set_eq_iff_mset_eq_distinct [symmetric]) auto

lemma canon_hash: "operand_sets p \<Longrightarrow> operand_sets q \<Longrightarrow> canon p = canon q \<Longrightarrow> hash_prop fx p s = hash_prop fx q s"
proof (induction p arbitrary: q s)
  case (Prop_And ops)
  then obtain b where q: "q = Prop_And b" "canon ` set ops = canon ` set b"
    by (cases q) (auto simp: canon_operands)
  have "mset (map canon ops) = mset (map canon b)"
    using Prop_And.prems(1,2) q by (intro distinct_canon_mset) auto
  moreover have "fx_finish fx (hash_prop fx x (fx_default fx)) = fx_finish fx (hash_prop fx y (fx_default fx))"
    if "x \<in> set ops" "y \<in> set b" "canon x = canon y" for x y
    using Prop_And.IH [OF that(1) _ _ that(3)] Prop_And.prems(1,2) that(1,2) unfolding q(1) operand_sets.simps by metis
  ultimately have "sum_list (map (\<lambda>p. fx_finish fx (hash_prop fx p (fx_default fx))) ops) =
      sum_list (map (\<lambda>p. fx_finish fx (hash_prop fx p (fx_default fx))) b)"
    by (rule sum_list_matched)
  then show ?case by (simp add: q(1))
next
  case (Prop_Or ops)
  then obtain b where q: "q = Prop_Or b" "canon ` set ops = canon ` set b"
    by (cases q) (auto simp: canon_operands)
  have "mset (map canon ops) = mset (map canon b)"
    using Prop_Or.prems(1,2) q by (intro distinct_canon_mset) auto
  moreover have "fx_finish fx (hash_prop fx x (fx_default fx)) = fx_finish fx (hash_prop fx y (fx_default fx))"
    if "x \<in> set ops" "y \<in> set b" "canon x = canon y" for x y
    using Prop_Or.IH [OF that(1) _ _ that(3)] Prop_Or.prems(1,2) that(1,2) unfolding q(1) operand_sets.simps by metis
  ultimately have "sum_list (map (\<lambda>p. fx_finish fx (hash_prop fx p (fx_default fx))) ops) =
      sum_list (map (\<lambda>p. fx_finish fx (hash_prop fx p (fx_default fx))) b)"
    by (rule sum_list_matched)
  then show ?case by (simp add: q(1))
next
  case (Prop_Not p)
  then obtain p' where q: "q = Prop_Not p'" "canon p = canon p'" by (cases q) auto
  with Prop_Not.IH [of p'] Prop_Not.prems show ?case by simp
next
  case Prop_Eq then show ?case by (cases q) auto
next
  case Prop_AtMostOne then show ?case by (cases q) auto
next
  case Prop_True then show ?case by (cases q) auto
next
  case Prop_False then show ?case by (cases q) auto
next
  case Prop_Sym then show ?case by (cases q) auto
qed

lemma subset_same_card:
  assumes "distinct (map canon a)" "length a = length b" "canon ` set a \<subseteq> canon ` set b"
  shows "canon ` set a = canon ` set b"
proof (rule card_subset_eq)
  have "card (canon ` set a) = length a" using assms(1) by (metis distinct_card length_map list.set_map)
  moreover have "card (canon ` set b) \<le> length b" by (metis card_length length_map list.set_map)
  moreover have "card (canon ` set a) \<le> card (canon ` set b)" using assms(3) by (intro card_mono) auto
  ultimately show "card (canon ` set a) = card (canon ` set b)" using assms(2) by simp
qed (use assms(3) in auto)

lemma operands_equal:
  assumes IH: "\<And>x y. x \<in> set a \<Longrightarrow> y \<in> set b \<Longrightarrow> prop_eq fx y x \<longleftrightarrow> canon y = canon x"
    "\<And>x y. x \<in> set a \<Longrightarrow> y \<in> set b \<Longrightarrow> prop_eq fx x y \<longleftrightarrow> canon x = canon y"
    and wf: "\<forall>p \<in> set a. operand_sets p" "\<forall>p \<in> set b. operand_sets p" "distinct (map canon a)" "distinct (map canon b)"
  shows "(length a = length b \<and>
          (if length a \<le> 8 then \<forall>x \<in> set a. \<exists>y \<in> set b. prop_eq fx y x
           else \<forall>x \<in> set a. \<exists>y \<in> set b. prop_hash fx y = prop_hash fx x \<and> prop_eq fx x y)) \<longleftrightarrow>
    canon ` set a = canon ` set b"
proof -
  have h: "prop_hash fx y = prop_hash fx x" if "x \<in> set a" "y \<in> set b" "canon x = canon y" for x y
    using that wf canon_hash [of x y fx] by (simp add: prop_hash_def)
  have "(if length a \<le> 8 then \<forall>x \<in> set a. \<exists>y \<in> set b. prop_eq fx y x
           else \<forall>x \<in> set a. \<exists>y \<in> set b. prop_hash fx y = prop_hash fx x \<and> prop_eq fx x y) \<longleftrightarrow>
    (\<forall>x \<in> set a. \<exists>y \<in> set b. canon x = canon y)"
    using IH h by (auto; metis)
  also have "\<dots> \<longleftrightarrow> canon ` set a \<subseteq> canon ` set b" by (auto simp: image_iff)
  finally have "(length a = length b \<and>
          (if length a \<le> 8 then \<forall>x \<in> set a. \<exists>y \<in> set b. prop_eq fx y x
           else \<forall>x \<in> set a. \<exists>y \<in> set b. prop_hash fx y = prop_hash fx x \<and> prop_eq fx x y)) \<longleftrightarrow>
    length a = length b \<and> canon ` set a \<subseteq> canon ` set b" by simp
  moreover have "length a = length b" if "canon ` set a = canon ` set b"
    using that wf(3,4) by (metis distinct_card length_map list.set_map)
  ultimately show ?thesis using subset_same_card [OF wf(3), of b] by blast
qed

lemma prop_eq_canon: "operand_sets p \<Longrightarrow> operand_sets q \<Longrightarrow> prop_eq fx p q \<longleftrightarrow> canon p = canon q"
proof (induction "size p + size q" arbitrary: p q rule: less_induct)
  case less
  have IH: "prop_eq fx y x \<longleftrightarrow> canon y = canon x" "prop_eq fx x y \<longleftrightarrow> canon x = canon y"
    if "x \<in> set a" "y \<in> set b" "size_list size a + size_list size b < size p + size q"
      "\<forall>p \<in> set a. operand_sets p" "\<forall>p \<in> set b. operand_sets p" for x y a b
    using that less.hyps [of y x] less.hyps [of x y] operand_size [OF that(1)] operand_size [OF that(2)] by auto
  consider (conj) a b where "p = Prop_And a" "q = Prop_And b" | (disj) a b where "p = Prop_Or a" "q = Prop_Or b"
    | (neg) a b where "p = Prop_Not a" "q = Prop_Not b"
    | (other) "\<nexists>a b. p = Prop_And a \<and> q = Prop_And b" "\<nexists>a b. p = Prop_Or a \<and> q = Prop_Or b" "\<nexists>a b. p = Prop_Not a \<and> q = Prop_Not b"
    by blast
  then show ?case
  proof cases
    case conj
    from less.prems have wf: "\<forall>p \<in> set a. operand_sets p" "\<forall>p \<in> set b. operand_sets p" "distinct (map canon a)" "distinct (map canon b)"
      by (auto simp: conj)
    have "prop_eq fx p q \<longleftrightarrow> (length a = length b \<and>
          (if length a \<le> 8 then \<forall>x \<in> set a. \<exists>y \<in> set b. prop_eq fx y x
           else \<forall>x \<in> set a. \<exists>y \<in> set b. prop_hash fx y = prop_hash fx x \<and> prop_eq fx x y))"
      unfolding conj by (subst prop_eq.simps) simp
    also have "\<dots> \<longleftrightarrow> canon ` set a = canon ` set b"
      using IH [of _ a _ b] wf by (intro operands_equal) (auto simp: conj)
    finally have "prop_eq fx p q \<longleftrightarrow> canon ` set a = canon ` set b" .
    then show ?thesis by (simp add: conj canon_operands)
  next
    case disj
    from less.prems have wf: "\<forall>p \<in> set a. operand_sets p" "\<forall>p \<in> set b. operand_sets p" "distinct (map canon a)" "distinct (map canon b)"
      by (auto simp: disj)
    have "prop_eq fx p q \<longleftrightarrow> (length a = length b \<and>
          (if length a \<le> 8 then \<forall>x \<in> set a. \<exists>y \<in> set b. prop_eq fx y x
           else \<forall>x \<in> set a. \<exists>y \<in> set b. prop_hash fx y = prop_hash fx x \<and> prop_eq fx x y))"
      unfolding disj by (subst prop_eq.simps) simp
    also have "\<dots> \<longleftrightarrow> canon ` set a = canon ` set b"
      using IH [of _ a _ b] wf by (intro operands_equal) (auto simp: disj)
    finally have "prop_eq fx p q \<longleftrightarrow> canon ` set a = canon ` set b" .
    then show ?thesis by (simp add: disj canon_operands)
  next
    case neg
    then show ?thesis using less.hyps [of a b] less.prems by (subst prop_eq.simps) simp
  next
    case other
    then show ?thesis by (subst prop_eq.simps) (cases p; cases q; simp)
  qed
qed

end
