(* ===== verification/PatmatSimp.thy ===== *)
theory PatmatSimp
  imports PatmatSem
begin

text \<open>
  Operand sets are sets, and \<open>simplify\<close> keeps the meaning: the lemmas on \<open>PropSet\<close>, negation normal form
  and the two loops, and what the result looks like.
\<close>

section \<open>Operand sets are sets\<close>

definition prop_set_ok :: "'s fx_hasher \<Rightarrow> prop_set \<Rightarrow> bool" where
  "prop_set_ok fx s \<longleftrightarrow>
     (\<forall>p \<in> set (items s). operand_sets p) \<and> distinct (map canon (items s)) \<and>
     (\<forall>h. set (index s h) = {i. i < length (items s) \<and> prop_hash fx (items s ! i) = h})"

abbreviation canons :: "prop_set \<Rightarrow> cprop set" where
  "canons s \<equiv> canon ` set (items s)"

lemma prop_set_okD:
  assumes "prop_set_ok fx s"
  shows "\<forall>p \<in> set (items s). operand_sets p" "distinct (map canon (items s))"
  using assms by (simp_all add: prop_set_ok_def)

lemma prop_set_default_ok [simp]: "prop_set_ok fx prop_set_default" "items prop_set_default = []"
  by (simp_all add: prop_set_ok_def prop_set_default_def)

lemma bucket_search:
  assumes "prop_set_ok fx s" "operand_sets p"
  shows "list_ex (\<lambda>i. prop_eq fx (items s ! i) p) (index s (prop_hash fx p)) \<longleftrightarrow> canon p \<in> canons s"
proof -
  have i: "set (index s (prop_hash fx p)) = {i. i < length (items s) \<and> prop_hash fx (items s ! i) = prop_hash fx p}"
    and o: "operand_sets (items s ! i)" if "i < length (items s)" for i
    using assms(1) that by (auto simp: prop_set_ok_def)
  have e: "prop_eq fx (items s ! i) p \<longleftrightarrow> canon (items s ! i) = canon p" if "i < length (items s)" for i
    using prop_eq_canon [OF o [OF that] assms(2)] .
  have h: "prop_hash fx (items s ! i) = prop_hash fx p" if "i < length (items s)" "canon (items s ! i) = canon p" for i
    unfolding prop_hash_def by (simp only: canon_hash [OF o [OF that(1)] assms(2) that(2)])
  have "list_ex (\<lambda>i. prop_eq fx (items s ! i) p) (index s (prop_hash fx p)) \<longleftrightarrow>
      (\<exists>i < length (items s). canon (items s ! i) = canon p)"
    using assms(1) e h unfolding list_ex_iff by (auto simp: prop_set_ok_def)
  also have "\<dots> \<longleftrightarrow> canon p \<in> canons s" by (metis (no_types) image_iff in_set_conv_nth)
  finally show ?thesis .
qed

lemma prop_set_contains_iff:
  "prop_set_ok fx s \<Longrightarrow> operand_sets p \<Longrightarrow> prop_set_contains fx s p \<longleftrightarrow> canon p \<in> canons s"
  by (simp add: prop_set_contains_def bucket_search)

lemma prop_set_insert_ok:
  assumes "prop_set_ok fx s" "operand_sets p"
  shows "prop_set_ok fx (prop_set_insert fx p s)" "canons (prop_set_insert fx p s) = insert (canon p) (canons s)"
proof -
  have "prop_set_ok fx (prop_set_insert fx p s) \<and> canons (prop_set_insert fx p s) = insert (canon p) (canons s)"
  proof (cases "canon p \<in> canons s")
    case True
    then have "prop_set_insert fx p s = s" using bucket_search [OF assms] by (simp add: prop_set_insert_def Let_def)
    with True assms show ?thesis by auto
  next
    case False
    then have eq: "prop_set_insert fx p s = \<lparr>items = items s @ [p],
        index = (index s)(prop_hash fx p := index s (prop_hash fx p) @ [length (items s)])\<rparr>"
      using bucket_search [OF assms] by (simp add: prop_set_insert_def Let_def)
    show ?thesis
      unfolding eq using assms False
      by (auto simp: prop_set_ok_def nth_append less_Suc_eq)
  qed
  then show "prop_set_ok fx (prop_set_insert fx p s)" "canons (prop_set_insert fx p s) = insert (canon p) (canons s)"
    by auto
qed

lemma prop_set_inserts:
  assumes "prop_set_ok fx s" "\<forall>p \<in> set ps. operand_sets p"
  shows "prop_set_ok fx (foldl (\<lambda>s p. prop_set_insert fx p s) s ps) \<and>
    canons (foldl (\<lambda>s p. prop_set_insert fx p s) s ps) = canons s \<union> canon ` set ps"
  using assms by (induction ps arbitrary: s) (auto simp: prop_set_insert_ok)

lemma unique_props:
  assumes "\<forall>p \<in> set ps. operand_sets p"
  shows "\<forall>p \<in> set (unique fx ps). operand_sets p" "distinct (map canon (unique fx ps))"
    "canon ` set (unique fx ps) = canon ` set ps"
  using prop_set_inserts [OF prop_set_default_ok(1) [of fx] assms]
    prop_set_okD [of fx "foldl (\<lambda>s p. prop_set_insert fx p s) prop_set_default ps"]
  by (simp_all add: unique_def)

section \<open>Meaning through operand sets\<close>

lemma all_canon: "canon ` set a = canon ` set b \<Longrightarrow> (\<forall>p \<in> set a. holds e v p) \<longleftrightarrow> (\<forall>p \<in> set b. holds e v p)"
  using canon_holds [of "Prop_And a" "Prop_And b" e v] by (simp add: canon_operands)

lemma ex_canon: "canon ` set a = canon ` set b \<Longrightarrow> (\<exists>p \<in> set a. holds e v p) \<longleftrightarrow> (\<exists>p \<in> set b. holds e v p)"
  using canon_holds [of "Prop_Or a" "Prop_Or b" e v] by (simp add: canon_operands)

lemma unique_holds:
  assumes "\<forall>p \<in> set ps. operand_sets p"
  shows "(\<forall>p \<in> set (unique fx ps). holds e v p) \<longleftrightarrow> (\<forall>p \<in> set ps. holds e v p)"
    "(\<exists>p \<in> set (unique fx ps). holds e v p) \<longleftrightarrow> (\<exists>p \<in> set ps. holds e v p)"
  by (rule all_canon [OF unique_props(3) [OF assms]], rule ex_canon [OF unique_props(3) [OF assms]])

lemma big_and_holds: "\<forall>p \<in> set ps. operand_sets p \<Longrightarrow> holds e v (big_and fx ps) \<longleftrightarrow> (\<forall>p \<in> set ps. holds e v p)"
  using unique_holds(1) [of ps fx e v] by (auto simp: big_and_def split: list.splits)

lemma big_or_holds: "\<forall>p \<in> set ps. operand_sets p \<Longrightarrow> holds e v (big_or fx ps) \<longleftrightarrow> (\<exists>p \<in> set ps. holds e v p)"
  using unique_holds(2) [of ps fx e v] by (auto simp: big_or_def split: list.splits)

lemma big_operand_sets:
  assumes "\<forall>p \<in> set ps. operand_sets p"
  shows "operand_sets (big_and fx ps)" "operand_sets (big_or fx ps)"
  using unique_props [OF assms, of fx] by (auto simp: big_and_def big_or_def split: list.splits)

section \<open>Negation normal form\<close>

lemma nnf_sound: "operand_sets p \<Longrightarrow>
  operand_sets (nnf_not fx p) \<and> operand_sets (nnf fx p) \<and>
  (holds e v (nnf_not fx p) \<longleftrightarrow> \<not> holds e v p) \<and> (holds e v (nnf fx p) \<longleftrightarrow> holds e v p)"
proof (induction p)
  case (Prop_And ops)
  then have IH: "\<forall>p \<in> set ops. operand_sets (nnf_not fx p) \<and> operand_sets (nnf fx p) \<and>
      (holds e v (nnf_not fx p) \<longleftrightarrow> \<not> holds e v p) \<and> (holds e v (nnf fx p) \<longleftrightarrow> holds e v p)" by simp
  then have o: "\<forall>p \<in> set (map (nnf_not fx) ops). operand_sets p" "\<forall>p \<in> set (map (nnf fx) ops). operand_sets p" by simp_all
  note u = unique_props(1,2) [OF o(1), of fx] unique_props(1,2) [OF o(2), of fx]
    unique_holds [OF o(1), of fx e v] unique_holds [OF o(2), of fx e v]
  from IH show ?case by (simp add: u)
next
  case (Prop_Or ops)
  then have IH: "\<forall>p \<in> set ops. operand_sets (nnf_not fx p) \<and> operand_sets (nnf fx p) \<and>
      (holds e v (nnf_not fx p) \<longleftrightarrow> \<not> holds e v p) \<and> (holds e v (nnf fx p) \<longleftrightarrow> holds e v p)" by simp
  then have o: "\<forall>p \<in> set (map (nnf_not fx) ops). operand_sets p" "\<forall>p \<in> set (map (nnf fx) ops). operand_sets p" by simp_all
  note u = unique_props(1,2) [OF o(1), of fx] unique_props(1,2) [OF o(2), of fx]
    unique_holds [OF o(1), of fx e v] unique_holds [OF o(2), of fx e v]
  from IH show ?case by (simp add: u)
qed auto

section \<open>Simplification keeps the meaning\<close>

lemma opposite_holds:
  assumes "operand_sets a" "operand_sets b" "opposite fx a b"
  shows "holds e v a \<longleftrightarrow> \<not> holds e v b"
proof -
  from assms(3) consider c where "b = Prop_Not c" "prop_eq fx c a" | c where "a = Prop_Not c" "prop_eq fx c b"
    by (auto simp: opposite_def split: prp.splits)
  then show ?thesis
  proof cases
    case 1
    then have "canon c = canon a" using assms prop_eq_canon [of c a fx] by simp
    from canon_holds [OF this] 1 show ?thesis by simp
  next
    case 2
    then have "canon c = canon b" using assms prop_eq_canon [of c b fx] by simp
    from canon_holds [OF this] 2 show ?thesis by simp
  qed
qed

lemma has_impure_atom_holds:
  assumes "has_impure_atom fx ops" "\<forall>p \<in> set ops. operand_sets p"
  obtains a b where "a \<in> set ops" "b \<in> set ops" "\<And>e v. holds e v a \<longleftrightarrow> \<not> holds e v b"
proof -
  from assms(1) obtain i j where ij: "i < j" "j < length ops" "opposite fx (ops ! i) (ops ! j)"
    by (auto simp: has_impure_atom_def Let_def list_ex_iff Suc_le_eq dest: less_trans split: if_splits)
  then have ij: "i < length ops" "j < length ops" "opposite fx (ops ! i) (ops ! j)" by auto
  with assms(2) have "\<And>e v. holds e v (ops ! i) \<longleftrightarrow> \<not> holds e v (ops ! j)"
    by (intro opposite_holds) auto
  with ij show thesis by (intro that [of "ops ! i" "ops ! j"]) auto
qed

definition operands_and :: "prp \<Rightarrow> prp list" where
  "operands_and f = (case f of Prop_True \<Rightarrow> [] | Prop_And fv \<Rightarrow> fv | _ \<Rightarrow> [f])"

definition operands_or :: "prp \<Rightarrow> prp list" where
  "operands_or f = (case f of Prop_False \<Rightarrow> [] | Prop_Or fv \<Rightarrow> fv | _ \<Rightarrow> [f])"

lemma collect_flat:
  "collect_and fx fs = foldl (\<lambda>s p. prop_set_insert fx p s) prop_set_default (concat (map operands_and fs))"
  "collect_or fx fs = foldl (\<lambda>s p. prop_set_insert fx p s) prop_set_default (concat (map operands_or fs))"
proof -
  have "foldl (\<lambda>props f. case f of Prop_True \<Rightarrow> props | Prop_And fv \<Rightarrow> foldl (\<lambda>props f. prop_set_insert fx f props) props fv
       | _ \<Rightarrow> prop_set_insert fx f props) s fs = foldl (\<lambda>s p. prop_set_insert fx p s) s (concat (map operands_and fs))" for s
    by (induction fs arbitrary: s) (auto simp: operands_and_def split: prp.splits)
  then show "collect_and fx fs = foldl (\<lambda>s p. prop_set_insert fx p s) prop_set_default (concat (map operands_and fs))"
    by (simp only: collect_and_def)
  have "foldl (\<lambda>props f. case f of Prop_False \<Rightarrow> props | Prop_Or fv \<Rightarrow> foldl (\<lambda>props f. prop_set_insert fx f props) props fv
       | _ \<Rightarrow> prop_set_insert fx f props) s fs = foldl (\<lambda>s p. prop_set_insert fx p s) s (concat (map operands_or fs))" for s
    by (induction fs arbitrary: s) (auto simp: operands_or_def split: prp.splits)
  then show "collect_or fx fs = foldl (\<lambda>s p. prop_set_insert fx p s) prop_set_default (concat (map operands_or fs))"
    by (simp only: collect_or_def)
qed

lemma operands_props:
  "operand_sets f \<Longrightarrow> \<forall>p \<in> set (operands_and f). operand_sets p"
  "operand_sets f \<Longrightarrow> \<forall>p \<in> set (operands_or f). operand_sets p"
  "(\<forall>p \<in> set (operands_and f). holds e v p) \<longleftrightarrow> holds e v f"
  "(\<exists>p \<in> set (operands_or f). holds e v p) \<longleftrightarrow> holds e v f"
  by (auto simp: operands_and_def operands_or_def split: prp.splits)

lemma collect_props:
  assumes "\<forall>p \<in> set fs. operand_sets p"
  shows "prop_set_ok fx (collect_and fx fs)" "canons (collect_and fx fs) = canon ` set (concat (map operands_and fs))"
    "prop_set_ok fx (collect_or fx fs)" "canons (collect_or fx fs) = canon ` set (concat (map operands_or fs))"
proof -
  have o: "\<forall>p \<in> set (concat (map operands_and fs)). operand_sets p" "\<forall>p \<in> set (concat (map operands_or fs)). operand_sets p"
    using operands_props(1) [OF bspec [OF assms]] operands_props(2) [OF bspec [OF assms]] by simp_all
  show "prop_set_ok fx (collect_and fx fs)" "canons (collect_and fx fs) = canon ` set (concat (map operands_and fs))"
    "prop_set_ok fx (collect_or fx fs)" "canons (collect_or fx fs) = canon ` set (concat (map operands_or fs))"
    using prop_set_inserts [OF prop_set_default_ok(1) o(1), of fx] prop_set_inserts [OF prop_set_default_ok(1) o(2), of fx]
    unfolding collect_flat by simp_all
qed

lemma canon_true_false [simp]: "canon p = C_True \<longleftrightarrow> p = Prop_True" "canon p = C_False \<longleftrightarrow> p = Prop_False"
  by (cases p; simp)+

lemma simplify_and_sound:
  assumes fs: "\<forall>p \<in> set fs. operand_sets p"
  shows "operand_sets (simplify_and fx fs) \<and> (holds e v (simplify_and fx fs) \<longleftrightarrow> (\<forall>p \<in> set fs. holds e v p))"
proof -
  let ?s = "collect_and fx fs"
  note c = collect_props(1,2) [OF fs, of fx] note o = prop_set_okD [OF c(1)]
  have m: "(\<forall>p \<in> set (items ?s). holds e v p) \<longleftrightarrow> (\<forall>p \<in> set fs. holds e v p)"
    using all_canon [OF c(2), of e v] operands_props(3) by auto
  show ?thesis
  proof (cases "prop_set_contains fx ?s Prop_False \<or> has_impure_atom fx (items ?s)")
    case True
    have "\<not> (\<forall>p \<in> set (items ?s). holds e v p)"
    proof (cases "prop_set_contains fx ?s Prop_False")
      case True
      then have "Prop_False \<in> set (items ?s)" using prop_set_contains_iff [OF c(1), of Prop_False] by (auto simp: eq_commute [of C_False])
      then show ?thesis by force
    next
      case False
      with True obtain a b where "a \<in> set (items ?s)" "b \<in> set (items ?s)" "\<And>e v. holds e v a \<longleftrightarrow> \<not> holds e v b"
        using has_impure_atom_holds o(1) by metis
      then show ?thesis by blast
    qed
    with True m show ?thesis by (simp add: simplify_and_def Let_def)
  next
    case False
    then show ?thesis using m big_and_holds [OF o(1), of e v fx] big_operand_sets(1) [OF o(1), of fx]
      by (simp add: simplify_and_def Let_def)
  qed
qed

lemma simplify_or_sound:
  assumes fs: "\<forall>p \<in> set fs. operand_sets p"
  shows "operand_sets (simplify_or fx fs) \<and> (holds e v (simplify_or fx fs) \<longleftrightarrow> (\<exists>p \<in> set fs. holds e v p))"
proof -
  let ?s = "collect_or fx fs"
  note c = collect_props(3,4) [OF fs, of fx] note o = prop_set_okD [OF c(1)]
  have m: "(\<exists>p \<in> set (items ?s). holds e v p) \<longleftrightarrow> (\<exists>p \<in> set fs. holds e v p)"
    using ex_canon [OF c(2), of e v] operands_props(4) by auto
  show ?thesis
  proof (cases "prop_set_contains fx ?s Prop_True \<or> has_impure_atom fx (items ?s)")
    case True
    have "\<exists>p \<in> set (items ?s). holds e v p"
    proof (cases "prop_set_contains fx ?s Prop_True")
      case True
      then have "Prop_True \<in> set (items ?s)" using prop_set_contains_iff [OF c(1), of Prop_True] by (auto simp: eq_commute [of C_True])
      then show ?thesis by force
    next
      case False
      with True obtain a b where "a \<in> set (items ?s)" "b \<in> set (items ?s)" "\<And>e v. holds e v a \<longleftrightarrow> \<not> holds e v b"
        using has_impure_atom_holds o(1) by metis
      then show ?thesis by blast
    qed
    with True m show ?thesis by (simp add: simplify_or_def Let_def)
  next
    case False
    then show ?thesis using m big_or_holds [OF o(1), of e v fx] big_operand_sets(2) [OF o(1), of fx]
      by (simp add: simplify_or_def Let_def)
  qed
qed

lemma simplify_prop_sound:
  "operand_sets p \<Longrightarrow> operand_sets (simplify_prop fx p) \<and> (holds e v (simplify_prop fx p) \<longleftrightarrow> holds e v p)"
proof (induction fx p rule: simplify_prop.induct)
  case (1 fx p)
  show ?case
  proof (cases p)
    case (Prop_And ps)
    then show ?thesis using 1 simplify_and_sound [of "map (simplify_prop fx) ps" fx e v]
      by (subst (1 2) simplify_prop.simps) simp
  next
    case (Prop_Or ps)
    then show ?thesis using 1 simplify_or_sound [of "map (simplify_prop fx) ps" fx e v]
      by (subst (1 2) simplify_prop.simps) simp
  next
    case (Prop_Not q)
    show ?thesis
    proof (cases "\<exists>a. q = Prop_Not a")
      case True
      then obtain a where "q = Prop_Not a" by blast
      then show ?thesis using Prop_Not 1 nnf_sound [of a fx e v] by (subst (1 2) simplify_prop.simps) simp
    next
      case False
      then have "simplify_prop fx p = Prop_Not (simplify_prop fx (nnf fx q))"
        unfolding Prop_Not by (subst simplify_prop.simps) (simp split: prp.splits)
      moreover have "operand_sets (simplify_prop fx (nnf fx q)) \<and> (holds e v (simplify_prop fx (nnf fx q)) \<longleftrightarrow> holds e v (nnf fx q))"
        using 1 Prop_Not False nnf_sound [of q fx e v] by (cases q) auto
      ultimately show ?thesis using "1.prems" nnf_sound [of q fx e v] unfolding Prop_Not by simp
    qed
  qed (simp_all add: simplify_prop.simps)
qed

text \<open>
  C27: \<open>simplify\<close> keeps the truth value of a proposition under every assignment, and its result again has
  operands that differ from each other, for every hash function.
\<close>
theorem simplify_equivalent:
  assumes "operand_sets p"
  shows "operand_sets (simplify fx p) \<and> (holds e v (simplify fx p) \<longleftrightarrow> holds e v p)"
  using simplify_prop_sound [of "nnf fx p" fx e v] nnf_sound [OF assms, of fx e v] by (simp add: simplify_def)

text \<open>A hasher for examples: the sum of what is written.\<close>

definition sum_hasher :: "u64 fx_hasher" where
  "sum_hasher = \<lparr>fx_default = 0, fx_u8 = \<lambda>n s. s + of_nat n, fx_usize = \<lambda>n s. s + of_nat n, fx_u64 = (+),
     fx_slice = \<lambda>ns s. s + of_nat (sum_list ns), fx_finish = id\<rparr>"

lemma simplify_equivalent_witness:
  "\<not> holds (\<lambda>_ _. False) (\<lambda>s. s = 1)
     (simplify sum_hasher (Prop_Not (Prop_Or [Prop_Sym 2, Prop_Not (Prop_And [Prop_Sym 1, Prop_Sym 3])])))"
  using simplify_equivalent [of "Prop_Not (Prop_Or [Prop_Sym 2, Prop_Not (Prop_And [Prop_Sym 1, Prop_Sym 3])])"
      sum_hasher "\<lambda>_ _. False" "\<lambda>s. s = 1"]
  by simp

text \<open>
  On propositions whose operands differ, \<open>==\<close> is equality of the propositions with operands taken as
  sets, at any depth and on either side of the switch to a hash set, and equal propositions are hashed
  equally: the contract of \<open>Eq\<close> and \<open>Hash\<close>.
\<close>
theorem eq_is_set_equality:
  assumes "operand_sets p" "operand_sets q"
  shows "(prop_eq fx p q \<longleftrightarrow> canon p = canon q) \<and> (prop_eq fx p q \<longrightarrow> prop_hash fx p = prop_hash fx q)"
proof -
  have "prop_hash fx p = prop_hash fx q" if "canon p = canon q"
    unfolding prop_hash_def by (simp only: canon_hash [OF assms that])
  then show ?thesis using prop_eq_canon [OF assms, of fx] by blast
qed

lemma eq_is_set_equality_witness:
  "prop_eq sum_hasher (Prop_And [Prop_Sym 1, Prop_Or [Prop_Sym 2, Prop_True]]) (Prop_And [Prop_Or [Prop_True, Prop_Sym 2], Prop_Sym 1])"
proof -
  have "canon (Prop_And [Prop_Sym 1, Prop_Or [Prop_Sym 2, Prop_True]]) = canon (Prop_And [Prop_Or [Prop_True, Prop_Sym 2], Prop_Sym 1])"
    by (simp add: finsert_commute)
  then show ?thesis
    using eq_is_set_equality [of "Prop_And [Prop_Sym 1, Prop_Or [Prop_Sym 2, Prop_True]]"
        "Prop_And [Prop_Or [Prop_True, Prop_Sym 2], Prop_Sym 1]" sum_hasher] by simp
qed

end
