(* ===== verification/PatmatCnf.thy ===== *)
theory PatmatCnf
  imports PatmatSimp "HOL-Library.Mapping"
begin

text \<open>
  \<open>crates/typer/src/warn_patmat_logic.rs\<close>, the conversion to clauses: literals, the numbering of symbols,
  Plaisted's transformation with its literal counter and clause buffer, the shortcut for propositions
  already in conjunctive normal form, and \<open>eq_free_prop_to_solvable\<close>.  \<open>None\<close> is the panic of indexing a
  map without the key.  The literal counter is an \<open>i32\<close> in the code; it is an \<open>int\<close> here, being bounded by
  the number of nodes of the proposition.
\<close>

section \<open>Literals and clauses\<close>

type_synonym literal = int
type_synonym clause = "literal scala_set"

definition lit_neg :: "literal \<Rightarrow> literal" where
  "lit_neg l = - l"

definition lit_variable :: "literal \<Rightarrow> int" where
  "lit_variable l = abs l"

definition lit_positive :: "literal \<Rightarrow> bool" where
  "lit_positive l \<longleftrightarrow> 0 \<le> l"

definition lit_hash :: "literal \<Rightarrow> i32" where
  "lit_hash l = word_of_int l"

definition clause1 :: "literal \<Rightarrow> clause" where
  "clause1 l = sincl sempty l"

definition clause2 :: "literal \<Rightarrow> literal \<Rightarrow> clause" where
  "clause2 a b = sincl (sincl sempty a) b"

section \<open>Symbols\<close>

record symbol_mapping =
  var_for_sym :: "(nat, int) mapping"
  sym_for_var :: "(int, nat) mapping"
  relevant :: "int list"

definition number_symbols :: "nat list \<Rightarrow> (nat, int) mapping \<times> (int, nat) mapping" where
  "number_symbols symbols =
     foldl (\<lambda>(vs, ss) (i, s). (Mapping.update s (int (i + 1)) vs, Mapping.update (int (i + 1)) s ss))
       (Mapping.empty, Mapping.empty) (enumerate 0 symbols)"

definition symbol_mapping_new :: "nat list \<Rightarrow> symbol_mapping" where
  "symbol_mapping_new symbols =
     (let (vs, ss) = number_symbols symbols in
      \<lparr>var_for_sym = vs, sym_for_var = ss,
       relevant = remdups_adj (sort (map abs (Mapping.ordered_keys ss)))\<rparr>)"

definition sym_lit :: "symbol_mapping \<Rightarrow> nat \<Rightarrow> literal option" where
  "sym_lit m s = Mapping.lookup (var_for_sym m) s"

definition mapping_size :: "symbol_mapping \<Rightarrow> int" where
  "mapping_size m = int (Mapping.size (var_for_sym m))"

record solvable =
  cnf :: "clause list"
  solvable_mapping :: symbol_mapping

datatype budget_exceeded = BudgetExceeded

definition MAX_DPLL_DEPTH :: nat where
  "MAX_DPLL_DEPTH = 20"

definition MAX_FORMULA_SIZE :: nat where
  "MAX_FORMULA_SIZE = 100 * MAX_DPLL_DEPTH"

section \<open>Plaisted's transformation\<close>

record transformer =
  tmapping :: symbol_mapping
  literal_count :: int
  buff :: "clause list"
  true_lit :: "literal option"

definition new_literal :: "transformer \<Rightarrow> literal \<times> transformer" where
  "new_literal t = (literal_count t + 1, t\<lparr>literal_count := literal_count t + 1\<rparr>)"

definition add_clause :: "clause \<Rightarrow> transformer \<Rightarrow> transformer" where
  "add_clause c t = (if sis_empty c then t else t\<lparr>buff := buff t @ [c]\<rparr>)"

definition const_true :: "transformer \<Rightarrow> literal \<times> transformer" where
  "const_true t =
     (case true_lit t of
        Some l \<Rightarrow> (l, t)
      | None \<Rightarrow>
          let (l, t) = new_literal t; t = add_clause (clause1 l) t in (l, t\<lparr>true_lit := Some l\<rparr>))"

definition const_false :: "transformer \<Rightarrow> literal \<times> transformer" where
  "const_false t = (let (l, t) = const_true t in (lit_neg l, t))"

definition conv_and :: "literal list \<Rightarrow> transformer \<Rightarrow> literal \<times> transformer" where
  "conv_and bv t =
     (case bv of
        [] \<Rightarrow> const_true t
      | [b] \<Rightarrow> (b, t)
      | _ \<Rightarrow>
          let (cf, t) = const_false t in
          if cf \<in> set bv then (cf, t)
          else
            let (ct, t) = const_true t;
                new_bv = sexcl (sfrom_iter bv) ct;
                (o', t) = new_literal t
            in (o', foldl (\<lambda>t op. add_clause (clause2 op (lit_neg o')) t) t (elems lit_hash new_bv)))"

definition conv_or :: "literal list \<Rightarrow> transformer \<Rightarrow> literal \<times> transformer" where
  "conv_or bv t =
     (case bv of
        [] \<Rightarrow> const_false t
      | [b] \<Rightarrow> (b, t)
      | _ \<Rightarrow>
          let (ct, t) = const_true t in
          if ct \<in> set bv then (ct, t)
          else
            let (cf, t) = const_false t;
                new_bv = sexcl (sfrom_iter bv) cf;
                (o', t) = new_literal t
            in (o', add_clause (sincl new_bv (lit_neg o')) t))"

text \<open>The loop of the sequential counter, and the pairs \<open>i < j\<close> in order.\<close>

fun amo_chain :: "nat list \<Rightarrow> literal \<Rightarrow> transformer \<Rightarrow> (literal \<times> transformer) option" where
  "amo_chain [] si_minus t = Some (si_minus, t)"
| "amo_chain (s # mid) si_minus t =
     do {
       xi \<leftarrow> sym_lit (tmapping t) s;
       let (si, t) = new_literal t;
       let t = add_clause (clause2 (lit_neg xi) si) t;
       let t = add_clause (clause2 (lit_neg si_minus) si) t;
       let t = add_clause (clause2 (lit_neg xi) (lit_neg si_minus)) t;
       amo_chain mid si t
     }"

fun amo_pairs :: "literal list \<Rightarrow> (literal \<times> literal) list" where
  "amo_pairs [] = []"
| "amo_pairs (l # ls) = map (\<lambda>k. (l, k)) ls @ amo_pairs ls"

definition at_most_one :: "nat list \<Rightarrow> transformer \<Rightarrow> transformer option" where
  "at_most_one ops t =
     (if length ops \<le> 1 then Some t
      else if 5 < length ops then
        do {
          x1 \<leftarrow> sym_lit (tmapping t) (hd ops);
          let mid = butlast (tl ops);
          let xn = last (tl ops);
          let (s1, t) = new_literal t;
          let t = add_clause (clause2 (lit_neg x1) s1) t;
          (si_minus, t) \<leftarrow> amo_chain mid s1 t;
          xn \<leftarrow> sym_lit (tmapping t) xn;
          Some (add_clause (clause2 (lit_neg xn) (lit_neg si_minus)) t)
        }
      else
        do {
          lits \<leftarrow> those (map (sym_lit (tmapping t)) ops);
          Some (foldl (\<lambda>t (a, b). add_clause (clause2 (lit_neg a) (lit_neg b)) t) t (amo_pairs lits))
        })"

fun convert :: "prp \<Rightarrow> transformer \<Rightarrow> (literal option \<times> transformer) option"
and convert_all :: "prp list \<Rightarrow> literal list \<Rightarrow> transformer \<Rightarrow> (literal list \<times> transformer) option" where
  "convert (Prop_And fv) t = do { (lits, t) \<leftarrow> convert_all fv [] t; let (l, t) = conv_and lits t; Some (Some l, t) }"
| "convert (Prop_Or fv) t = do { (lits, t) \<leftarrow> convert_all fv [] t; let (l, t) = conv_or lits t; Some (Some l, t) }"
| "convert (Prop_Not a) t = do { (l, t) \<leftarrow> convert a t; Some (map_option lit_neg l, t) }"
| "convert (Prop_Sym s) t = do { l \<leftarrow> sym_lit (tmapping t) s; Some (Some l, t) }"
| "convert Prop_True t = (let (l, t) = const_true t in Some (Some l, t))"
| "convert Prop_False t = (let (l, t) = const_false t in Some (Some l, t))"
| "convert (Prop_AtMostOne ops) t = do { t \<leftarrow> at_most_one ops t; Some (None, t) }"
| "convert (Prop_Eq x c) t = Some (None, t)"
| "convert_all [] out t = Some (out, t)"
| "convert_all (f # fv) out t =
     do {
       (l, t) \<leftarrow> convert f t;
       convert_all fv (case l of Some l \<Rightarrow> if l \<in> set out then out else out @ [l] | None \<Rightarrow> out) t
     }"

definition transform :: "prp \<Rightarrow> transformer \<Rightarrow> (clause list \<times> transformer) option" where
  "transform p t =
     do {
       (top, t) \<leftarrow> convert p t;
       let c = (case top of Some l \<Rightarrow> clause1 l | None \<Rightarrow> sempty);
       let t = add_clause c t;
       Some (buff t, t\<lparr>buff := []\<rparr>)
     }"

section \<open>Already in conjunctive normal form\<close>

fun to_literal :: "symbol_mapping \<Rightarrow> prp \<Rightarrow> literal option option" where
  "to_literal m (Prop_Not inner) = do { l \<leftarrow> to_literal m inner; Some (map_option lit_neg l) }"
| "to_literal m (Prop_Sym s) = do { l \<leftarrow> sym_lit m s; Some (Some l) }"
| "to_literal m f = Some None"

fun incl_literals :: "symbol_mapping \<Rightarrow> prp list \<Rightarrow> clause \<Rightarrow> clause option option" where
  "incl_literals m [] c = Some (Some c)"
| "incl_literals m (x # fv) c =
     do {
       l \<leftarrow> to_literal m x;
       (case l of None \<Rightarrow> Some None | Some l \<Rightarrow> incl_literals m fv (sincl c l))
     }"

fun to_disjunction :: "symbol_mapping \<Rightarrow> prp \<Rightarrow> clause list option option" where
  "to_disjunction m (Prop_Or fv) = do { c \<leftarrow> incl_literals m fv sempty; Some (map_option (\<lambda>c. [c]) c) }"
| "to_disjunction m Prop_True = Some (Some [])"
| "to_disjunction m Prop_False = Some (Some [sempty])"
| "to_disjunction m f = do { l \<leftarrow> to_literal m f; Some (map_option (\<lambda>l. [clause1 l]) l) }"

fun to_disjunctions :: "symbol_mapping \<Rightarrow> prp list \<Rightarrow> clause list \<Rightarrow> clause list option option" where
  "to_disjunctions m [] out = Some (Some out)"
| "to_disjunctions m (x # fv) out =
     do {
       cs \<leftarrow> to_disjunction m x;
       (case cs of None \<Rightarrow> Some None | Some cs \<Rightarrow> to_disjunctions m fv (out @ cs))
     }"

definition to_cnf :: "symbol_mapping \<Rightarrow> prp \<Rightarrow> clause list option option" where
  "to_cnf m f =
     do {
       cs \<leftarrow> to_disjunction m f;
       (case cs of
          Some cs \<Rightarrow> Some (Some cs)
        | None \<Rightarrow> (case f of Prop_And fv \<Rightarrow> to_disjunctions m fv [] | _ \<Rightarrow> Some None))
     }"

section \<open>From propositions to clauses\<close>

fun exceeds_size :: "prp \<Rightarrow> bool" where
  "exceeds_size (Prop_And ops) \<longleftrightarrow> MAX_FORMULA_SIZE < length ops \<or> list_ex exceeds_size ops"
| "exceeds_size (Prop_Or ops) \<longleftrightarrow> MAX_FORMULA_SIZE < length ops \<or> list_ex exceeds_size ops"
| "exceeds_size (Prop_Not a) \<longleftrightarrow> exceeds_size a"
| "exceeds_size _ \<longleftrightarrow> False"

definition cnf_for :: "prp \<Rightarrow> transformer \<Rightarrow> (clause list \<times> transformer) option" where
  "cnf_for p t =
     do {
       cs \<leftarrow> to_cnf (tmapping t) p;
       (case cs of Some cs \<Rightarrow> Some (cs, t) | None \<Rightarrow> transform p t)
     }"

fun cnf_for_all :: "prp list \<Rightarrow> clause list \<Rightarrow> transformer \<Rightarrow> (clause list \<times> transformer) option" where
  "cnf_for_all [] out t = Some (out, t)"
| "cnf_for_all (x # props) out t = do { (cs, t) \<leftarrow> cnf_for x t; cnf_for_all props (out @ cs) t }"

definition eq_free_prop_to_solvable :: "'s fx_hasher \<Rightarrow> prp \<Rightarrow> (solvable, budget_exceeded) result" where
  "eq_free_prop_to_solvable fx p =
     (let simplified = simplify fx p in
      if exceeds_size simplified then Err BudgetExceeded
      else
        let m = symbol_mapping_new (gather_symbols p);
            t = \<lparr>tmapping = m, literal_count = mapping_size m, buff = [], true_lit = None\<rparr>
        in rbind (unwrap (case simplified of Prop_And props \<Rightarrow> cnf_for_all props [] t | other \<Rightarrow> cnf_for other t))
             (\<lambda>(cs, t). Ok \<lparr>cnf = cs, solvable_mapping = m\<rparr>))"

end
