(* ===== verification/PatmatDpll.thy ===== *)
theory PatmatDpll
  imports PatmatCnf
begin

text \<open>
  \<open>crates/typer/src/warn_patmat_logic.rs\<close>, the solver: unit propagation over the clause array in place,
  the cached scan, pure literals, splitting, the explicit stack, and the enumeration of models.  One turn of
  the loop is \<open>dpll_step\<close>; the loop may not end on arbitrary stacks, so it is a partial function.
\<close>

unbundle bit_operations_syntax

section \<open>Unit propagation\<close>

type_synonym clauses = "clause option list"

record scan =
  scan_empty :: bool
  scan_unit :: "nat option"

text \<open>What a scan notes of a clause of length \<open>n\<close> at \<open>j\<close>.\<close>

definition note_kept :: "nat \<Rightarrow> nat \<Rightarrow> scan \<Rightarrow> scan" where
  "note_kept n j sc =
     (if n = 0 then sc\<lparr>scan_empty := True\<rparr>
      else if n = 1 \<and> scan_unit sc = None then sc\<lparr>scan_unit := Some j\<rparr>
      else sc)"

function drop_loop :: "literal \<Rightarrow> nat \<Rightarrow> nat \<Rightarrow> clauses \<Rightarrow> scan \<Rightarrow> clauses \<times> scan" where
  "drop_loop u i j clauses sc =
     (if i < length clauses then
        (case clauses ! i of
           None \<Rightarrow> (clauses, sc)
         | Some c \<Rightarrow>
             let clauses = clauses[i := None] in
             if scontains c u then drop_loop u (i + 1) j clauses sc
             else
               let kept = (if scontains c (lit_neg u) then sexcl c (lit_neg u) else c) in
               drop_loop u (i + 1) (j + 1) (clauses[j := Some kept]) (note_kept (slen kept) j sc))
      else (clauses, sc))"
  by pat_completeness auto
termination
  by (relation "measure (\<lambda>(u, i, j, clauses, sc). length clauses - i)") auto

declare drop_loop.simps [simp del]

definition drop_unit :: "clauses \<Rightarrow> literal \<Rightarrow> clauses \<times> scan" where
  "drop_unit clauses u = drop_loop u 0 0 clauses \<lparr>scan_empty = False, scan_unit = None\<rparr>"

fun scan_from :: "nat \<Rightarrow> nat option \<Rightarrow> clauses \<Rightarrow> scan" where
  "scan_from i u [] = \<lparr>scan_empty = False, scan_unit = u\<rparr>"
| "scan_from i u (None # cs) = scan_from (i + 1) u cs"
| "scan_from i u (Some c # cs) =
     (if slen c = 0 then \<lparr>scan_empty = True, scan_unit = u\<rparr>
      else scan_from (i + 1) (if slen c = 1 \<and> u = None then Some i else u) cs)"

definition scan_clauses :: "clauses \<Rightarrow> scan" where
  "scan_clauses clauses = scan_from 0 None clauses"

section \<open>Pure literals\<close>

text \<open>The flags do not depend on the order in which a clause's literals are visited.\<close>

definition note_polarity :: "u8 list \<Rightarrow> literal \<Rightarrow> u8 list" where
  "note_polarity seen l =
     (let v = nat (lit_variable l);
          seen = (if length seen \<le> v then seen @ replicate (v + 1 - length seen) 0 else seen)
      in seen[v := seen ! v OR (if lit_positive l then 1 else 2)])"

fun flatten_clauses :: "clauses \<Rightarrow> clause list" where
  "flatten_clauses [] = []"
| "flatten_clauses (None # cs) = flatten_clauses cs"
| "flatten_clauses (Some c # cs) = c # flatten_clauses cs"

definition polarities :: "clauses \<Rightarrow> u8 list" where
  "polarities clauses = foldl (\<lambda>seen c. foldl note_polarity seen (elems lit_hash c)) [] (flatten_clauses clauses)"

fun position :: "('a \<Rightarrow> bool) \<Rightarrow> 'a list \<Rightarrow> nat option" where
  "position P [] = None"
| "position P (x # xs) = (if P x then Some 0 else map_option Suc (position P xs))"

definition pure_literal :: "clauses \<Rightarrow> literal option" where
  "pure_literal clauses =
     (let seen = polarities clauses in
      case position (\<lambda>f. f = 1 \<or> f = 2) seen of
        None \<Rightarrow> None
      | Some pure_var \<Rightarrow> Some (if seen ! pure_var = 2 then - int pure_var else int pure_var))"

definition drop_pure :: "clauses \<Rightarrow> literal \<Rightarrow> clauses" where
  "drop_pure clauses l = filter (\<lambda>c. \<not> (case c of Some c \<Rightarrow> scontains c l | None \<Rightarrow> False)) clauses"

section \<open>The search\<close>

type_synonym dpll_state = "clauses \<times> literal list \<times> scan option"

datatype dpll_outcome = Found "literal list option" | Continue "dpll_state list" | Panics

definition split_clauses :: "clauses \<Rightarrow> literal \<Rightarrow> clauses" where
  "split_clauses clauses l =
     (let effective = (case position (\<lambda>c. c = None) clauses of None \<Rightarrow> length clauses | Some i \<Rightarrow> i)
      in take effective clauses @ [Some (clause1 l)])"

definition search_state :: "clauses \<Rightarrow> literal list \<Rightarrow> scan option \<Rightarrow> dpll_state list \<Rightarrow> dpll_outcome" where
  "search_state clauses assignments scanned stack =
     (let sc = (case scanned of Some sc \<Rightarrow> sc | None \<Rightarrow> scan_clauses clauses) in
      if scan_empty sc then Continue stack
      else case scan_unit sc of
        Some ui \<Rightarrow>
          (case Option.bind (idx clauses ui) (\<lambda>c. Option.bind c (shead lit_hash)) of
             None \<Rightarrow> Panics
           | Some u \<Rightarrow>
               let (next_clauses, next_scan) = drop_unit clauses u in
               Continue ((next_clauses, u # assignments, Some next_scan) # stack))
      | None \<Rightarrow>
          (case pure_literal clauses of
             Some l \<Rightarrow> Continue ((drop_pure clauses l, l # assignments, None) # stack)
           | None \<Rightarrow>
               (case flatten_clauses clauses of
                  [] \<Rightarrow> Panics
                | c # _ \<Rightarrow>
                    (case shead lit_hash c of
                       None \<Rightarrow> Panics
                     | Some l \<Rightarrow>
                         Continue ((split_clauses clauses l, assignments, None) #
                           (split_clauses clauses (lit_neg l), assignments, None) # stack)))))"

definition dpll_step :: "dpll_state list \<Rightarrow> dpll_outcome" where
  "dpll_step stack =
     (case stack of
        [] \<Rightarrow> Found None
      | (clauses, assignments, scanned) # stack \<Rightarrow>
          (case clauses of
             [] \<Rightarrow> Found (Some assignments)
           | None # _ \<Rightarrow> Found (Some assignments)
           | _ \<Rightarrow> search_state clauses assignments scanned stack))"

partial_function (option) dpll_loop :: "dpll_state list \<Rightarrow> (literal list option, unit) result option" where
  "dpll_loop stack =
     (case dpll_step stack of
        Found r \<Rightarrow> Some (Ok r)
      | Panics \<Rightarrow> Some Panic
      | Continue stack \<Rightarrow> dpll_loop stack)"

definition find_tseitin_model :: "clause list \<Rightarrow> (literal list option, unit) result option" where
  "find_tseitin_model clauses = dpll_loop [(map Some clauses, [], None)]"

definition has_model :: "solvable \<Rightarrow> (bool, unit) result option" where
  "has_model s = map_option (\<lambda>r. rbind r (\<lambda>m. Ok (m \<noteq> None))) (find_tseitin_model (cnf s))"

section \<open>Enumerating models\<close>

record solution =
  model :: "(nat \<times> bool) list"
  unassigned :: "nat list"

text \<open>\<open>.to(ListMap)\<close>: a later binding of a key changes its value in place.\<close>

definition bind_symbol :: "(nat \<times> bool) list \<Rightarrow> nat \<times> bool \<Rightarrow> (nat \<times> bool) list" where
  "bind_symbol bs sb =
     (case position (\<lambda>(k, _). k = fst sb) bs of
        Some i \<Rightarrow> bs[i := (fst (bs ! i), snd sb)]
      | None \<Rightarrow> bs @ [sb])"

definition solution_of :: "symbol_mapping \<Rightarrow> literal list \<Rightarrow> solution option" where
  "solution_of m ls =
     (let unassigned_vars = filter (\<lambda>x. \<not> list_ex (\<lambda>l. lit_variable l = x) ls) (relevant m);
          sol_model = List.map_filter
            (\<lambda>l. map_option (\<lambda>s. (s, lit_positive l)) (Mapping.lookup (sym_for_var m) (lit_variable l))) ls
      in do {
        us \<leftarrow> those (map (Mapping.lookup (sym_for_var m)) unassigned_vars);
        Some \<lparr>model = foldl bind_symbol [] sol_model, unassigned = us\<rparr>
      })"

definition blocking_clause :: "symbol_mapping \<Rightarrow> literal list \<Rightarrow> clause" where
  "blocking_clause m ls = slist_from (map lit_neg (filter (\<lambda>l. lit_variable l \<in> set (relevant m)) ls))"

fun enumerate_models ::
  "nat \<Rightarrow> symbol_mapping \<Rightarrow> clause list \<Rightarrow> solution list \<Rightarrow> (solution list \<times> bool, unit) result option" where
  "enumerate_models 0 m clauses models = Some (Ok (models, True))"
| "enumerate_models (Suc depth) m clauses models =
     do {
       r \<leftarrow> find_tseitin_model clauses;
       (case r of
          Panic \<Rightarrow> Some Panic
        | Err e \<Rightarrow> Some (Err e)
        | Ok None \<Rightarrow> Some (Ok (models, False))
        | Ok (Some ls) \<Rightarrow>
            (case solution_of m ls of
               None \<Rightarrow> Some Panic
             | Some s \<Rightarrow> enumerate_models depth m (clauses @ [blocking_clause m ls]) (s # models)))
     }"

definition find_all_models :: "solvable \<Rightarrow> (solution list \<times> bool, unit) result option" where
  "find_all_models s = enumerate_models MAX_DPLL_DEPTH (solvable_mapping s) (cnf s) []"

end
