(* ===== verification/PatmatDpllSound.thy ===== *)
theory PatmatDpllSound
  imports PatmatDpll
begin

text \<open>
  The solver is correct: the loop ends, with an assignment that makes every clause true exactly when there is
  one, and the scan made while a unit is dropped is the one a fresh scan would make.
\<close>

section \<open>Clauses as sets of literals\<close>

definition lit_true :: "(int \<Rightarrow> bool) \<Rightarrow> literal \<Rightarrow> bool" where
  "lit_true V l \<longleftrightarrow> (if 0 < l then V l else \<not> V (- l))"

definition clause_true :: "(int \<Rightarrow> bool) \<Rightarrow> clause \<Rightarrow> bool" where
  "clause_true V c \<longleftrightarrow> (\<exists>l \<in> sset c. lit_true V l)"

definition cnf_true :: "(int \<Rightarrow> bool) \<Rightarrow> clause list \<Rightarrow> bool" where
  "cnf_true V cs \<longleftrightarrow> (\<forall>c \<in> set cs. clause_true V c)"

definition clause_ok :: "clause \<Rightarrow> bool" where
  "clause_ok c \<longleftrightarrow> sset_ok c \<and> 0 \<notin> sset c"

definition clause_vars :: "clause list \<Rightarrow> int set" where
  "clause_vars cs = abs ` (\<Union>c \<in> set cs. sset c)"

lemma lit_true_neg: "l \<noteq> 0 \<Longrightarrow> lit_true V (- l) \<longleftrightarrow> \<not> lit_true V l"
  by (auto simp: lit_true_def)

lemma cnf_true_simps [simp]:
  "cnf_true V []" "cnf_true V (c # cs) \<longleftrightarrow> clause_true V c \<and> cnf_true V cs"
  "cnf_true V (cs @ ds) \<longleftrightarrow> cnf_true V cs \<and> cnf_true V ds"
  by (auto simp: cnf_true_def)

lemma clause_vars_simps [simp]:
  "clause_vars [] = {}" "clause_vars (c # cs) = abs ` sset c \<union> clause_vars cs"
  "clause_vars (cs @ ds) = clause_vars cs \<union> clause_vars ds"
  by (auto simp: clause_vars_def)

lemma clause1_ok [simp]: "sset_ok (clause1 l)" "sset (clause1 l) = {l}" "slen (clause1 l) = 1"
proof -
  show *: "sset_ok (clause1 l)" "sset (clause1 l) = {l}" using scala.incl_set [of sempty l] by (simp_all add: clause1_def)
  show "slen (clause1 l) = 1" using scala.size_set [OF *(1)] * by simp
qed

lemma clause2_ok [simp]: "sset_ok (clause2 a b)" "sset (clause2 a b) = {a, b}"
  using scala.incl_set [of sempty a] scala.incl_set [of "sincl sempty a" b] by (simp_all add: clause2_def insert_commute)

lemma clause_ok_finite: "clause_ok c \<Longrightarrow> finite (sset c)"
  by (simp add: clause_ok_def scala.finite_elements)

lemma finite_clause_vars: "\<forall>c \<in> set cs. clause_ok c \<Longrightarrow> finite (clause_vars cs)"
  by (auto simp: clause_vars_def clause_ok_finite)

lemma slen_0: "clause_ok c \<Longrightarrow> slen c = 0 \<longleftrightarrow> sset c = {}"
  by (simp add: clause_ok_def scala.size_zero)

lemma slen_1: "clause_ok c \<Longrightarrow> slen c = 1 \<longleftrightarrow> (\<exists>l. sset c = {l})"
  using scala.size_one [of c] by (simp add: clause_ok_def)

lemma shead_props:
  assumes "clause_ok c"
  shows "shead lit_hash c = None \<longleftrightarrow> sset c = {}" "shead lit_hash c = Some l \<Longrightarrow> l \<in> sset c"
  using scala.listing_set [of c lit_hash] assms
  by (auto simp: shead_def clause_ok_def split: list.splits)

section \<open>The clause array\<close>

lemma flatten_map [simp]: "flatten_clauses (map Some cs) = cs" "flatten_clauses (map Some cs @ replicate k None) = cs"
proof -
  have n: "flatten_clauses (replicate k None) = []" for k by (induction k) auto
  have "flatten_clauses (map Some cs @ ds) = cs @ flatten_clauses ds" for ds by (induction cs) auto
  from this [of "[]"] this [of "replicate k None"] n
  show "flatten_clauses (map Some cs) = cs" "flatten_clauses (map Some cs @ replicate k None) = cs" by simp_all
qed

fun note_all :: "nat \<Rightarrow> scan \<Rightarrow> clause list \<Rightarrow> scan" where
  "note_all j sc [] = sc"
| "note_all j sc (c # cs) = note_all (j + 1) (note_kept (slen c) j sc) cs"

definition kept :: "literal \<Rightarrow> clause \<Rightarrow> clause" where
  "kept u c = (if scontains c (lit_neg u) then sexcl c (lit_neg u) else c)"

definition reduced :: "literal \<Rightarrow> clause list \<Rightarrow> clause list" where
  "reduced u cs = map (kept u) (filter (\<lambda>c. \<not> scontains c u) cs)"

lemma drop_loop_step:
  assumes "i < length clauses" "clauses ! i = Some c"
  shows "scontains c u \<Longrightarrow> drop_loop u i j clauses sc = drop_loop u (i + 1) j (clauses[i := None]) sc"
    "\<not> scontains c u \<Longrightarrow> drop_loop u i j clauses sc =
       drop_loop u (i + 1) (j + 1) (clauses[i := None, j := Some (kept u c)]) (note_kept (slen (kept u c)) j sc)"
  using assms by (subst drop_loop.simps; simp add: kept_def Let_def)+

lemma drop_loop_reduced:
  "drop_loop u (length ds + g) (length ds) (map Some ds @ replicate g None @ map Some cs @ replicate k None) sc =
     (map Some (ds @ reduced u cs) @ replicate (g + length cs - length (reduced u cs) + k) None,
      note_all (length ds) sc (reduced u cs))"
proof (induction cs arbitrary: ds g sc)
  case Nil
  have "(replicate g None @ replicate k None) ! g = None" if "0 < k"
    using that by (cases k) (simp_all add: nth_append)
  then show ?case
    by (subst drop_loop.simps) (cases "0 < k"; simp add: reduced_def nth_append replicate_add)
next
  case (Cons c cs)
  let ?a = "map Some ds @ replicate g None @ map Some (c # cs) @ replicate k None"
  have a: "length ds + g < length ?a" "?a ! (length ds + g) = Some c" by (simp_all add: nth_append)
  have u: "?a[length ds + g := None] = map Some ds @ replicate (Suc g) None @ map Some cs @ replicate k None"
    by (simp add: list_update_append replicate_append_same [symmetric])
  show ?case
  proof (cases "scontains c u")
    case True
    have "drop_loop u (length ds + g) (length ds) ?a sc =
        drop_loop u (length ds + Suc g) (length ds) (map Some ds @ replicate (Suc g) None @ map Some cs @ replicate k None) sc"
      using drop_loop_step(1) [OF a True] by (simp only: u add.assoc Suc_eq_plus1)
    also have "\<dots> = (map Some (ds @ reduced u cs) @ replicate (Suc g + length cs - length (reduced u cs) + k) None,
        note_all (length ds) sc (reduced u cs))" by (rule Cons.IH)
    finally show ?thesis using True by (simp add: reduced_def)
  next
    case False
    define c' where "c' = kept u c"
    have w: "(map Some ds @ replicate (Suc g) None @ map Some cs @ replicate k None)[length ds := Some c'] =
        map Some (ds @ [c']) @ replicate g None @ map Some cs @ replicate k None"
      by (simp add: list_update_append)
    have "drop_loop u (length ds + g) (length ds) ?a sc =
        drop_loop u (length (ds @ [c']) + g) (length (ds @ [c'])) (map Some (ds @ [c']) @ replicate g None @ map Some cs @ replicate k None)
          (note_kept (slen c') (length ds) sc)"
      unfolding drop_loop_step(2) [OF a False] c'_def [symmetric] u w by simp
    also have "\<dots> = (map Some ((ds @ [c']) @ reduced u cs) @ replicate (g + length cs - length (reduced u cs) + k) None,
        note_all (length (ds @ [c'])) (note_kept (slen c') (length ds) sc) (reduced u cs))" by (rule Cons.IH)
    finally show ?thesis using False by (simp add: reduced_def c'_def)
  qed
qed

lemma drop_unit_reduced:
  "\<exists>k'. drop_unit (map Some cs @ replicate k None) u =
     (map Some (reduced u cs) @ replicate k' None, note_all 0 \<lparr>scan_empty = False, scan_unit = None\<rparr> (reduced u cs))"
  using drop_loop_reduced [of u "[]" 0 cs k] by (auto simp: drop_unit_def)

section \<open>Scans\<close>

definition scan_ok :: "scan \<Rightarrow> clause list \<Rightarrow> bool" where
  "scan_ok sc cs \<longleftrightarrow> scan_empty sc = (\<exists>c \<in> set cs. slen c = 0) \<and>
     (\<not> scan_empty sc \<longrightarrow> scan_unit sc = position (\<lambda>c. slen c = 1) cs)"

lemma note_all_ok: "scan_ok (note_all 0 \<lparr>scan_empty = False, scan_unit = None\<rparr> cs) cs"
proof -
  have "scan_empty (note_all j sc cs) = (scan_empty sc \<or> (\<exists>c \<in> set cs. slen c = 0)) \<and>
      scan_unit (note_all j sc cs) =
        (case scan_unit sc of Some u \<Rightarrow> Some u | None \<Rightarrow> map_option ((+) j) (position (\<lambda>c. slen c = 1) cs))" for j sc
  proof (induction cs arbitrary: j sc)
    case (Cons c cs)
    have "((+) (Suc j)) = (+) j \<circ> Suc" by (rule ext) simp
    with Cons show ?case by (auto simp: note_kept_def option.map_comp split: option.splits)
  qed (auto split: option.splits)
  from this [of 0 "\<lparr>scan_empty = False, scan_unit = None\<rparr>"] show ?thesis
    by (simp add: scan_ok_def option.map_ident cong: option.map_cong)
qed

lemma scan_clauses_ok: "scan_ok (scan_clauses (map Some cs @ replicate k None)) cs"
proof -
  have n: "scan_from i u (replicate k None) = \<lparr>scan_empty = False, scan_unit = u\<rparr>" for i u
    by (induction k arbitrary: i) auto
  have "scan_empty (scan_from i u (map Some cs @ replicate k None)) = (\<exists>c \<in> set cs. slen c = 0) \<and>
      (\<not> (\<exists>c \<in> set cs. slen c = 0) \<longrightarrow>
       scan_unit (scan_from i u (map Some cs @ replicate k None)) =
        (case u of Some u \<Rightarrow> Some u | None \<Rightarrow> map_option ((+) i) (position (\<lambda>c. slen c = 1) cs)))" for i u
  proof (induction cs arbitrary: i u)
    case (Cons c cs)
    have "((+) (Suc i)) = (+) i \<circ> Suc" by (rule ext) simp
    then show ?case
      using Cons [of "Suc i" "Some i"] Cons [of "Suc i" u] by (cases u) (simp_all add: option.map_comp)
  qed (simp add: n split: option.splits)
  from this [of 0 None] show ?thesis
    by (simp add: scan_ok_def scan_clauses_def option.map_ident cong: option.map_cong)
qed

lemma position_Some: "position P xs = Some i \<Longrightarrow> i < length xs \<and> P (xs ! i)"
  by (induction xs arbitrary: i) (auto split: if_splits)

lemma position_None: "position P xs = None \<longleftrightarrow> (\<forall>x \<in> set xs. \<not> P x)"
  by (induction xs) auto

lemma scan_okD:
  assumes "scan_ok sc cs" "\<not> scan_empty sc"
  shows "scan_unit sc = Some i \<Longrightarrow> i < length cs \<and> slen (cs ! i) = 1"
    "scan_unit sc = None \<Longrightarrow> \<forall>c \<in> set cs. 1 < slen c"
proof -
  show "scan_unit sc = Some i \<Longrightarrow> i < length cs \<and> slen (cs ! i) = 1"
    using assms position_Some [of "\<lambda>c. slen c = 1" cs i] by (simp add: scan_ok_def)
  show "\<forall>c \<in> set cs. 1 < slen c" if n: "scan_unit sc = None"
  proof
    fix c assume "c \<in> set cs"
    moreover from n assms have "slen c \<noteq> 1" if "c \<in> set cs" for c
      using that position_None [of "\<lambda>c. slen c = 1" cs] by (simp add: scan_ok_def)
    moreover have "slen c \<noteq> 0" if "c \<in> set cs" for c using that assms by (simp add: scan_ok_def)
    ultimately show "1 < slen c" by (meson less_one linorder_neqE_nat)
  qed
qed

lemma note_scan_eq:
  assumes "scan_ok a cs" "scan_ok b cs"
  shows "scan_empty a = scan_empty b \<and> (\<not> scan_empty a \<longrightarrow> scan_unit a = scan_unit b)"
  using assms by (auto simp: scan_ok_def)

text \<open>
  Dropping a unit from the array in place leaves, packed to its front, the clauses without the unit and
  without its negation in them, in their order; and the scan it makes on the way is the one a fresh pass over
  the array would make.
\<close>
theorem drop_unit_scans:
  "case drop_unit (map Some cs @ replicate k None) u of (C, sc) \<Rightarrow>
     flatten_clauses C =
       map (\<lambda>c. if scontains c (- u) then sexcl c (- u) else c) (filter (\<lambda>c. \<not> scontains c u) cs) \<and>
     scan_empty sc = scan_empty (scan_clauses C) \<and>
     (\<not> scan_empty sc \<longrightarrow> scan_unit sc = scan_unit (scan_clauses C))"
proof -
  obtain k' where d: "drop_unit (map Some cs @ replicate k None) u =
     (map Some (reduced u cs) @ replicate k' None, note_all 0 \<lparr>scan_empty = False, scan_unit = None\<rparr> (reduced u cs))"
    using drop_unit_reduced by blast
  show ?thesis
    using note_scan_eq [OF note_all_ok scan_clauses_ok, of "reduced u cs" k']
    unfolding d prod.case flatten_map by (simp add: reduced_def kept_def [abs_def] lit_neg_def)
qed

lemma drop_unit_scans_witness:
  "flatten_clauses (fst (drop_unit (map Some [Small [1, 2], Small [-1, 3], Small [4]] @ replicate 2 None) (1 :: int))) =
     [Small [3], Small [4]]"
  using drop_unit_scans [where cs = "[Small [1, 2], Small [-1, 3], Small [4]]" and k = 2 and u = 1] by (simp add: case_prod_unfold)

section \<open>Units\<close>

lemma reduced_sset:
  assumes "clause_ok c"
  shows "clause_ok (kept u c)"
    "sset (kept u c) = sset c - {- u}"
  using assms scala.excl_set [of c "- u"] scala.has_set [of c "- u"] by (auto simp: kept_def clause_ok_def lit_neg_def)

lemma reduced_props:
  assumes "\<forall>c \<in> set cs. clause_ok c"
  shows "\<forall>c \<in> set (reduced u cs). clause_ok c"
    "clause_vars (reduced u cs) \<subseteq> clause_vars cs - {abs u}"
proof -
  have h: "scontains c u \<longleftrightarrow> u \<in> sset c" if "c \<in> set cs" for c
    using assms that scala.has_set [of c u] by (simp add: clause_ok_def)
  show "\<forall>c \<in> set (reduced u cs). clause_ok c"
    using assms reduced_sset(1) by (auto simp: reduced_def)
  show "clause_vars (reduced u cs) \<subseteq> clause_vars cs - {abs u}"
  proof
    fix x assume "x \<in> clause_vars (reduced u cs)"
    then obtain c l where c: "c \<in> set cs" "\<not> scontains c u" and
      l: "l \<in> sset (kept u c)" "x = abs l"
      by (auto simp: clause_vars_def reduced_def)
    have "l \<in> sset c - {- u}" using l(1) reduced_sset(2) [of c u] c(1) assms by simp
    moreover have "l \<noteq> u" using calculation c h by auto
    ultimately have "abs l \<noteq> abs u" "l \<in> sset c" by auto
    with c(1) l(2) show "x \<in> clause_vars cs - {abs u}" by (auto simp: clause_vars_def)
  qed
qed

lemma reduced_true:
  assumes "\<forall>c \<in> set cs. clause_ok c" "lit_true V u" "u \<noteq> 0"
  shows "cnf_true V (reduced u cs) \<longleftrightarrow> cnf_true V cs"
proof -
  have n: "\<not> lit_true V (- u)" using assms(2,3) by (simp add: lit_true_neg)
  have 1: "clause_true V c" if "c \<in> set cs" "scontains c u" for c
    using that assms scala.has_set [of c u] by (auto simp: clause_true_def clause_ok_def)
  have 2: "clause_true V (kept u c) \<longleftrightarrow> clause_true V c"
    if "c \<in> set cs" for c
    using reduced_sset(2) [of c u] assms(1) that n unfolding clause_true_def by auto
  show ?thesis using 1 2 by (auto simp: cnf_true_def reduced_def)
qed

section \<open>Pure literals\<close>

definition flag_of :: "literal set \<Rightarrow> nat \<Rightarrow> u8" where
  "flag_of L v = (if int v \<in> L then 1 else 0) OR (if 0 < v \<and> - int v \<in> L then 2 else 0)"

definition flags_ok :: "u8 list \<Rightarrow> literal set \<Rightarrow> bool" where
  "flags_ok seen L \<longleftrightarrow> (\<forall>l \<in> L. nat (abs l) < length seen) \<and> (\<forall>v < length seen. seen ! v = flag_of L v)"

lemma note_polarity_ok:
  assumes "flags_ok seen L" "l \<noteq> 0"
  shows "flags_ok (note_polarity seen l) (insert l L)"
proof -
  let ?v = "nat (lit_variable l)"
  define s where "s = (if length seen \<le> ?v then seen @ replicate (?v + 1 - length seen) 0 else seen)"
  have sl: "?v < length s" "length seen \<le> length s" by (auto simp: s_def)
  have out: "flag_of L v = 0" if "length seen \<le> v" for v
  proof -
    have "int v \<notin> L" "- int v \<notin> L" using assms(1) that by (fastforce simp: flags_ok_def)+
    then show ?thesis by (simp add: flag_of_def)
  qed
  have s: "s ! v = flag_of L v" if "v < length s" for v
  proof (cases "v < length seen")
    case True
    then show ?thesis using assms(1) by (simp add: s_def flags_ok_def nth_append)
  next
    case False
    then show ?thesis using that out [of v] by (simp add: s_def nth_append split: if_splits)
  qed
  have e: "note_polarity seen l = s[?v := s ! ?v OR (if lit_positive l then 1 else 2)]"
    by (simp add: note_polarity_def Let_def s_def)
  have f: "flag_of (insert l L) ?v = flag_of L ?v OR (if lit_positive l then 1 else 2)"
    using assms(2) by (auto simp: flag_of_def lit_variable_def lit_positive_def or.assoc or.commute or.left_commute)
  have g: "flag_of (insert l L) v = flag_of L v" if "v \<noteq> ?v" for v
    using that by (auto simp: flag_of_def lit_variable_def)
  have "nat (abs x) < length s" if "x \<in> insert l L" for x
    using that sl assms(1) by (auto simp: flags_ok_def lit_variable_def)
  moreover have "s[?v := s ! ?v OR (if lit_positive l then 1 else 2)] ! v = flag_of (insert l L) v" if "v < length s" for v
    using s [OF that] s [OF sl(1)] f g that by (cases "v = ?v") simp_all
  ultimately show ?thesis unfolding flags_ok_def e by simp
qed

lemma note_polarities_ok:
  assumes "flags_ok seen L" "0 \<notin> set ls"
  shows "flags_ok (foldl note_polarity seen ls) (L \<union> set ls)"
  using assms
proof (induction ls arbitrary: seen L)
  case (Cons l ls)
  then show ?case using Cons.IH [of "note_polarity seen l" "insert l L"] note_polarity_ok by simp
qed simp

lemma polarities_ok:
  assumes "\<forall>c \<in> set cs. clause_ok c"
  shows "flags_ok (polarities (map Some cs @ replicate k None)) (\<Union>c \<in> set cs. sset c)"
proof -
  have e: "set (elems lit_hash c) = sset c" if "c \<in> set cs" for c
    using assms that scala.listing_set [of c lit_hash] by (simp add: clause_ok_def)
  have "flags_ok (foldl (\<lambda>seen c. foldl note_polarity seen (elems lit_hash c)) seen cs) (L \<union> (\<Union>c \<in> set cs. sset c))"
    if "flags_ok seen L" for seen L
    using that assms e
  proof (induction cs arbitrary: seen L)
    case (Cons c cs)
    have "flags_ok (foldl note_polarity seen (elems lit_hash c)) (L \<union> sset c)"
      using note_polarities_ok [of seen L "elems lit_hash c"] Cons.prems by (auto simp: clause_ok_def)
    from Cons.IH [OF this] Cons.prems show ?case by (simp add: Un_assoc)
  qed simp
  from this [of "[]" "{}"] show ?thesis by (simp add: polarities_def flags_ok_def)
qed

lemma flag_values: "flag_of L v = 1 \<longleftrightarrow> int v \<in> L \<and> (v = 0 \<or> - int v \<notin> L)" "flag_of L v = 2 \<longleftrightarrow> int v \<notin> L \<and> 0 < v \<and> - int v \<in> L"
  "flag_of L v = 0 \<longleftrightarrow> int v \<notin> L \<and> (v = 0 \<or> - int v \<notin> L)"
  by (auto simp: flag_of_def)

lemma pure_literal_props:
  assumes "\<forall>c \<in> set cs. clause_ok c" "pure_literal (map Some cs @ replicate k None) = Some l"
  shows "\<exists>c \<in> set cs. l \<in> sset c" "\<forall>c \<in> set cs. - l \<notin> sset c" "l \<noteq> 0"
proof -
  let ?L = "\<Union>c \<in> set cs. sset c" and ?p = "polarities (map Some cs @ replicate k None)"
  have f: "?p ! v = flag_of ?L v" if "v < length ?p" for v using polarities_ok [OF assms(1), of k] that by (simp add: flags_ok_def)
  have z: "0 \<notin> ?L" using assms(1) by (auto simp: clause_ok_def)
  from assms(2) obtain v where v: "position (\<lambda>f. f = 1 \<or> f = 2) ?p = Some v"
      "l = (if ?p ! v = 2 then - int v else int v)"
    by (auto simp: pure_literal_def Let_def split: option.splits)
  with position_Some [OF v(1)] f have "flag_of ?L v = 1 \<and> l = int v \<or> flag_of ?L v = 2 \<and> l = - int v" by auto
  then have "l \<in> ?L \<and> - l \<notin> ?L" unfolding flag_values using z by auto
  with z show "\<exists>c \<in> set cs. l \<in> sset c" "\<forall>c \<in> set cs. - l \<notin> sset c" "l \<noteq> 0" by auto
qed

lemma drop_pure_props:
  assumes "\<forall>c \<in> set cs. clause_ok c"
  shows "drop_pure (map Some cs @ replicate k None) l = map Some (filter (\<lambda>c. l \<notin> sset c) cs) @ replicate k None"
proof -
  have "filter (\<lambda>c. \<not> (case c of Some c \<Rightarrow> scontains c l | None \<Rightarrow> False)) (map Some cs) = map Some (filter (\<lambda>c. l \<notin> sset c) cs)"
    using assms
  proof (induction cs)
    case (Cons c cs)
    then show ?case using scala.has_set [of c l] by (simp add: clause_ok_def)
  qed simp
  moreover have "filter (\<lambda>c. \<not> (case c of Some c \<Rightarrow> scontains c l | None \<Rightarrow> False)) (replicate k None) = replicate k None"
    by (induction k) auto
  ultimately show ?thesis by (simp add: drop_pure_def)
qed

lemma split_clauses_eq: "split_clauses (map Some cs @ replicate k None) l = map Some (cs @ [clause1 l])"
proof -
  have "position (\<lambda>c. c = None) (map Some cs @ replicate k None) = (if k = 0 then None else Some (length cs))"
    by (induction cs) (cases k; simp)+
  then show ?thesis by (simp add: split_clauses_def)
qed

end
