(* ===== verification/PatmatLoop.thy ===== *)
theory PatmatLoop
  imports PatmatDpllSound
begin

text \<open>
  The loop over the stack: what one turn does to the state on top, the measure that shrinks, and the
  correctness of \<open>find_tseitin_model\<close>.
\<close>

section \<open>States of the search\<close>

definition live :: "dpll_state \<Rightarrow> clause list" where
  "live st = flatten_clauses (fst st)"

definition state_ok :: "dpll_state \<Rightarrow> bool" where
  "state_ok st \<longleftrightarrow> (case st of (clauses, assignments, scanned) \<Rightarrow>
     (\<exists>cs k. clauses = map Some cs @ replicate k None \<and> (\<forall>c \<in> set cs. clause_ok c) \<and>
        (\<forall>sc. scanned = Some sc \<longrightarrow> scan_ok sc cs)))"

lemma state_okI:
  "\<lbrakk>\<forall>c \<in> set cs. clause_ok c; \<And>sc. scanned = Some sc \<Longrightarrow> scan_ok sc cs\<rbrakk>
    \<Longrightarrow> state_ok (map Some cs @ replicate k None, a, scanned)"
  by (auto simp: state_ok_def)

lemma live_simps [simp]:
  "live (map Some cs @ replicate k None, a) = cs" "live (map Some cs, a) = cs"
  by (simp_all add: live_def)

text \<open>A literal is assigned: every model of what is left that has it is a model, and every model stays one.\<close>

definition assigns :: "literal \<Rightarrow> clause list \<Rightarrow> clause list \<Rightarrow> bool" where
  "assigns u cs ds \<longleftrightarrow> u \<noteq> 0 \<and> abs u \<in> clause_vars cs \<and> clause_vars ds \<subseteq> clause_vars cs - {abs u} \<and>
     (\<forall>V. lit_true V u \<longrightarrow> cnf_true V ds \<longrightarrow> cnf_true V cs) \<and> (\<forall>V. cnf_true V cs \<longrightarrow> cnf_true V ds)"

inductive search_turn :: "dpll_state \<Rightarrow> dpll_state list \<Rightarrow> dpll_outcome \<Rightarrow> bool" where
  finished: "live (C, a, sc) = [] \<Longrightarrow> search_turn (C, a, sc) stack (Found (Some a))"
| dead: "\<exists>c \<in> set (live st). sset c = {} \<Longrightarrow> search_turn st stack (Continue stack)"
| assign: "\<lbrakk>assigns u (live (C, a, sc)) (live (C', u # a, sc')); state_ok (C', u # a, sc')\<rbrakk>
    \<Longrightarrow> search_turn (C, a, sc) stack (Continue ((C', u # a, sc') # stack))"
| split: "\<lbrakk>live (C, a, sc) = cs; \<forall>c \<in> set cs. 1 < slen c; \<exists>c \<in> set cs. l \<in> sset c; \<forall>c \<in> set cs. clause_ok c\<rbrakk>
    \<Longrightarrow> search_turn (C, a, sc) stack
      (Continue ((map Some (cs @ [clause1 l]), a, None) # (map Some (cs @ [clause1 (- l)]), a, None) # stack))"

inductive_cases search_turnE: "search_turn st stack out"

lemma unit_assigns:
  assumes ok: "\<forall>c \<in> set cs. clause_ok c" and c: "c \<in> set cs" "sset c = {u}"
  shows "assigns u cs (reduced u cs)"
proof -
  have nz: "u \<noteq> 0" using assms by (auto simp: clause_ok_def)
  have "abs u \<in> clause_vars cs" using c by (auto simp: clause_vars_def)
  moreover have "lit_true V u" if "cnf_true V cs" for V using that c by (auto simp: cnf_true_def clause_true_def)
  ultimately show ?thesis using nz reduced_props(2) [OF ok] reduced_true [OF ok _ nz] by (auto simp: assigns_def)
qed

lemma pure_assigns:
  assumes ok: "\<forall>c \<in> set cs. clause_ok c" and l: "\<exists>c \<in> set cs. l \<in> sset c" "\<forall>c \<in> set cs. - l \<notin> sset c" "l \<noteq> 0"
  shows "assigns l cs (filter (\<lambda>c. l \<notin> sset c) cs)"
proof -
  have "abs x \<noteq> abs l" if "c \<in> set cs" "l \<notin> sset c" "x \<in> sset c" for c x
    using that l(2) by (metis abs_eq_iff add.inverse_inverse)
  then have "clause_vars (filter (\<lambda>c. l \<notin> sset c) cs) \<subseteq> clause_vars cs - {abs l}"
    by (auto simp: clause_vars_def)
  moreover have "abs l \<in> clause_vars cs" using l(1) by (auto simp: clause_vars_def)
  ultimately show ?thesis
    unfolding assigns_def cnf_true_def clause_true_def using l(3) by auto
qed

lemma search_state_turn:
  assumes ok: "\<forall>c \<in> set cs. clause_ok c" and sc: "\<And>sc. scanned = Some sc \<Longrightarrow> scan_ok sc cs" and ne: "cs \<noteq> []"
    and C_def: "C = map Some cs @ replicate k None"
  shows "search_turn (C, a, scanned) stack (search_state C a scanned stack)"
proof -
  define s where "s = (case scanned of Some sc \<Rightarrow> sc | None \<Rightarrow> scan_clauses C)"
  have s: "scan_ok s cs" using sc scan_clauses_ok [of cs k] by (auto simp: s_def C_def split: option.splits)
  have e: "search_state C a scanned stack =
     (if scan_empty s then Continue stack
      else case scan_unit s of
        Some ui \<Rightarrow>
          (case Option.bind (idx C ui) (\<lambda>c. Option.bind c (shead lit_hash)) of
             None \<Rightarrow> Panics
           | Some u \<Rightarrow>
               let (next_clauses, next_scan) = drop_unit C u in
               Continue ((next_clauses, u # a, Some next_scan) # stack))
      | None \<Rightarrow>
          (case pure_literal C of
             Some l \<Rightarrow> Continue ((drop_pure C l, l # a, None) # stack)
           | None \<Rightarrow>
               (case flatten_clauses C of
                  [] \<Rightarrow> Panics
                | c # _ \<Rightarrow>
                    (case shead lit_hash c of
                       None \<Rightarrow> Panics
                     | Some l \<Rightarrow>
                         Continue ((split_clauses C l, a, None) #
                           (split_clauses C (lit_neg l), a, None) # stack)))))"
    by (simp only: search_state_def s_def Let_def)
  show ?thesis
  proof (cases "scan_empty s")
    case True
    then have "\<exists>c \<in> set cs. sset c = {}" using s ok slen_0 by (auto simp: scan_ok_def)
    with True show ?thesis unfolding e by (simp add: C_def search_turn.dead)
  next
    case False
    show ?thesis
    proof (cases "scan_unit s")
      case (Some ui)
      with scan_okD(1) [OF s False] have ui: "ui < length cs" "slen (cs ! ui) = 1" by auto
      then have c: "cs ! ui \<in> set cs" "clause_ok (cs ! ui)" using ok by auto
      then obtain u where u: "sset (cs ! ui) = {u}" using slen_1 ui(2) by blast
      have "shead lit_hash (cs ! ui) = Some u"
        using shead_props [OF c(2)] u by (cases "shead lit_hash (cs ! ui)") auto
      then have "Option.bind (idx C ui) (\<lambda>c. Option.bind c (shead lit_hash)) = Some u"
        using ui(1) by (simp add: C_def idx_def nth_append)
      moreover obtain k' where "drop_unit C u = (map Some (reduced u cs) @ replicate k' None,
          note_all 0 \<lparr>scan_empty = False, scan_unit = None\<rparr> (reduced u cs))"
        using drop_unit_reduced [of cs k u] by (auto simp: C_def)
      ultimately have "search_state C a scanned stack = Continue ((map Some (reduced u cs) @ replicate k' None, u # a,
          Some (note_all 0 \<lparr>scan_empty = False, scan_unit = None\<rparr> (reduced u cs))) # stack)"
        unfolding e using False Some by simp
      then show ?thesis
        using unit_assigns [OF ok c(1) u] reduced_props(1) [OF ok] note_all_ok
        by (auto simp: C_def intro!: search_turn.assign state_okI)
    next
      case None
      show ?thesis
      proof (cases "pure_literal C")
        case (Some l)
        note p = pure_literal_props [OF ok Some [unfolded C_def]]
        have "search_state C a scanned stack = Continue ((map Some (filter (\<lambda>c. l \<notin> sset c) cs) @ replicate k None, l # a, None) # stack)"
          unfolding e using False None Some drop_pure_props [OF ok] by (simp add: C_def)
        then show ?thesis
          using pure_assigns [OF ok p] ok by (auto simp: C_def intro!: search_turn.assign state_okI)
      next
        case no: None
        obtain c cs' where cs: "cs = c # cs'" using ne by (cases cs) auto
        have two: "\<forall>c \<in> set cs. 1 < slen c" using scan_okD(2) [OF s False None] .
        then have "shead lit_hash c \<noteq> None"
          using shead_props(1) [of c] slen_0 [of c] ok cs by auto
        then obtain l where l: "shead lit_hash c = Some l" by blast
        then have "l \<in> sset c" using shead_props(2) ok cs by simp
        moreover have "search_state C a scanned stack =
            Continue ((map Some (cs @ [clause1 l]), a, None) # (map Some (cs @ [clause1 (- l)]), a, None) # stack)"
        proof -
          have "flatten_clauses C = c # cs'" "split_clauses C m = map Some (cs @ [clause1 m])" for m
            unfolding C_def by (simp_all only: flatten_map split_clauses_eq cs)
          then show ?thesis unfolding e using False None no l by (simp add: lit_neg_def del: map_append)
        qed
        moreover have "live (C, a, scanned) = cs" by (simp add: C_def)
        moreover have "\<exists>c \<in> set cs. l \<in> sset c" using \<open>l \<in> sset c\<close> by (simp add: cs)
        ultimately show ?thesis using two ok search_turn.split by metis
      qed
    qed
  qed
qed

lemma dpll_turn: "state_ok st \<Longrightarrow> search_turn st stack (dpll_step (st # stack))"
proof -
  assume "state_ok st"
  then obtain cs k a scanned where st: "st = (map Some cs @ replicate k None, a, scanned)"
    "\<forall>c \<in> set cs. clause_ok c" "\<And>sc. scanned = Some sc \<Longrightarrow> scan_ok sc cs"
    by (auto simp: state_ok_def split: prod.splits)
  show ?thesis
  proof (cases "cs = []")
    case True
    then have "dpll_step (st # stack) = Found (Some a)" by (cases k) (simp_all add: st(1) dpll_step_def)
    moreover have "live st = []" by (simp add: st(1) True del: list.map)
    ultimately show ?thesis using search_turn.finished by (metis st(1))
  next
    case False
    then have "dpll_step (st # stack) = search_state (map Some cs @ replicate k None) a scanned stack"
      by (cases cs) (simp_all add: st(1) dpll_step_def)
    with search_state_turn [OF st(2,3) False] show ?thesis by (simp add: st(1))
  qed
qed

section \<open>Termination\<close>

definition weight :: "dpll_state \<Rightarrow> nat" where
  "weight st = 3 ^ (2 * card (clause_vars (live st)) + (if \<forall>c \<in> set (live st). 1 < slen c then 1 else 0))"

definition work :: "dpll_state list \<Rightarrow> nat" where
  "work stack = sum_list (map weight stack)"

lemma weight_less:
  assumes "card (clause_vars (live st')) < card (clause_vars (live st))"
  shows "weight st' < weight st"
  unfolding weight_def by (rule power_strict_increasing) (use assms in auto)

lemma state_ok_live: "state_ok st \<Longrightarrow> \<forall>c \<in> set (live st). clause_ok c"
  by (auto simp: state_ok_def)

lemma turn_work:
  assumes "search_turn st stack (Continue stack')" "state_ok st"
  shows "work stack' < work (st # stack)"
  using assms(1)
proof (cases rule: search_turn.cases)
  case dead
  then show ?thesis by (simp add: work_def weight_def)
next
  case (assign u C a sc C' sc')
  have "finite (clause_vars (live st))" using finite_clause_vars [OF state_ok_live [OF assms(2)]] .
  moreover have "clause_vars (live (C', u # a, sc')) \<subset> clause_vars (live st)" using assign by (auto simp: assigns_def)
  ultimately have "weight (C', u # a, sc') < weight st" by (intro weight_less psubset_card_mono)
  then show ?thesis using assign by (simp add: work_def)
next
  case (split C a sc cs l)
  let ?n = "card (clause_vars cs)"
  have v: "clause_vars (cs @ [clause1 l]) = clause_vars cs" "clause_vars (cs @ [clause1 (- l)]) = clause_vars cs"
    using split by (auto simp: clause_vars_def)
  have w: "weight (map Some (cs @ [clause1 m]), a, None) = 3 ^ (2 * card (clause_vars (cs @ [clause1 m])))" for m
    by (simp add: weight_def del: map_append clause_vars_simps)
  have "weight st = 3 * 3 ^ (2 * ?n)" using split by (simp add: weight_def)
  then show ?thesis using split v by (simp add: work_def w del: map_append clause_vars_simps)
qed

section \<open>Correctness\<close>

text \<open>The literals found since a state was pushed.\<close>

definition completes :: "dpll_state \<Rightarrow> literal list \<Rightarrow> bool" where
  "completes st r \<longleftrightarrow> (\<exists>new. r = new @ fst (snd st) \<and> 0 \<notin> set new \<and> distinct (map abs new) \<and>
     abs ` set new \<subseteq> clause_vars (live st) \<and>
     (\<forall>V. (\<forall>l \<in> set new. lit_true V l) \<longrightarrow> cnf_true V (live st)))"

definition satisfiable :: "clause list \<Rightarrow> bool" where
  "satisfiable cs \<longleftrightarrow> (\<exists>V. cnf_true V cs)"

lemma completes_assign:
  assumes "assigns u (live (C, a, sc)) (live (C', u # a, sc'))" "completes (C', u # a, sc') r"
  shows "completes (C, a, sc) r"
proof -
  obtain new where new: "r = new @ u # a" "0 \<notin> set new" "distinct (map abs new)"
    "abs ` set new \<subseteq> clause_vars (live (C', u # a, sc'))"
    "\<And>V. (\<forall>l \<in> set new. lit_true V l) \<Longrightarrow> cnf_true V (live (C', u # a, sc'))"
    using assms(2) by (auto simp: completes_def)
  have "\<exists>n. r = n @ a \<and> 0 \<notin> set n \<and> distinct (map abs n) \<and> abs ` set n \<subseteq> clause_vars (live (C, a, sc)) \<and>
     (\<forall>V. (\<forall>l \<in> set n. lit_true V l) \<longrightarrow> cnf_true V (live (C, a, sc)))"
  proof (intro exI [of _ "new @ [u]"] conjI allI impI)
    show "distinct (map abs (new @ [u]))" "abs ` set (new @ [u]) \<subseteq> clause_vars (live (C, a, sc))"
      using new(3,4) assms(1) by (auto simp: assigns_def)
    show "cnf_true V (live (C, a, sc))" if "\<forall>l \<in> set (new @ [u]). lit_true V l" for V
      using that new(5) [of V] assms(1) by (auto simp: assigns_def)
  qed (use new(1,2) assms(1) in \<open>auto simp: assigns_def\<close>)
  then show ?thesis by (simp add: completes_def)
qed

lemma completes_split:
  assumes "completes (map Some (cs @ [clause1 l]), a, None) r" "live (C, a, sc) = cs" "abs l \<in> clause_vars cs"
  shows "completes (C, a, sc) r"
proof -
  have "clause_vars (cs @ [clause1 l]) = clause_vars cs" using assms(3) by auto
  then show ?thesis using assms(1,2) by (simp add: completes_def del: map_append clause_vars_simps) auto
qed

definition answers :: "dpll_state list \<Rightarrow> literal list option \<Rightarrow> bool" where
  "answers stack r \<longleftrightarrow>
     (case r of None \<Rightarrow> \<forall>st \<in> set stack. \<not> satisfiable (live st) | Some a \<Rightarrow> \<exists>st \<in> set stack. completes st a)"

lemma answers_turn:
  assumes "answers stack' r"
    "\<And>st. \<lbrakk>st \<in> set stack; satisfiable (live st)\<rbrakk> \<Longrightarrow> \<exists>st \<in> set stack'. satisfiable (live st)"
    "\<And>st a. \<lbrakk>st \<in> set stack'; completes st a\<rbrakk> \<Longrightarrow> \<exists>st \<in> set stack. completes st a"
  shows "answers stack r"
  using assms unfolding answers_def by (cases r) (simp_all, blast+)

lemma dpll_loop_correct:
  "\<forall>st \<in> set stack. state_ok st \<Longrightarrow> \<exists>r. dpll_loop stack = Some (Ok r) \<and> answers stack r"
proof (induction "work stack" arbitrary: stack rule: less_induct)
  case less
  show ?case
  proof (cases stack)
    case Nil
    then show ?thesis by (subst dpll_loop.simps) (simp add: dpll_step_def answers_def)
  next
    case (Cons st rest)
    have ok: "state_ok st" and rest: "\<forall>st \<in> set rest. state_ok st" using less.prems by (auto simp: Cons)
    have turn: "search_turn st rest (dpll_step stack)" using dpll_turn [OF ok] by (simp add: Cons)
    have IH: "\<exists>r. dpll_loop stack = Some (Ok r) \<and> answers stack' r"
      if "dpll_step stack = Continue stack'" "\<forall>st \<in> set stack'. state_ok st" for stack'
      using less.hyps [of stack'] turn_work [of st rest stack'] ok turn that
      by (subst dpll_loop.simps) (simp add: Cons)
    from turn show ?thesis
    proof (cases rule: search_turn.cases)
      case (finished C a sc)
      have "completes st a" using finished by (auto simp: completes_def)
      then show ?thesis using finished by (subst dpll_loop.simps) (simp add: Cons answers_def)
    next
      case dead
      then have "\<not> satisfiable (live st)" by (auto simp: satisfiable_def cnf_true_def clause_true_def)
      have "answers stack r" if "answers rest r" for r
        by (rule answers_turn [OF that]) (use \<open>\<not> satisfiable (live st)\<close> in \<open>auto simp: Cons\<close>)
      with IH [OF dead(1) rest] show ?thesis by blast
    next
      case (assign u C a sc C' sc')
      have sat: "satisfiable (live st) \<Longrightarrow> satisfiable (live (C', u # a, sc'))"
        using assign by (auto simp: assigns_def satisfiable_def)
      have com: "completes (C', u # a, sc') r \<Longrightarrow> completes st r" for r
        using completes_assign assign by blast
      have "answers stack r" if "answers ((C', u # a, sc') # rest) r" for r
        by (rule answers_turn [OF that]) (use sat com in \<open>auto simp: Cons\<close>)
      moreover have "\<forall>st \<in> set ((C', u # a, sc') # rest). state_ok st" using assign(4) rest by simp
      ultimately show ?thesis using IH [OF assign(2)] by blast
    next
      case (split C a sc cs l)
      let ?p = "(map Some (cs @ [clause1 l]), a, None)" and ?n = "(map Some (cs @ [clause1 (- l)]), a, None)"
      have nz: "l \<noteq> 0" using split by (auto simp: clause_ok_def)
      have v: "abs l \<in> clause_vars cs" "abs (- l) \<in> clause_vars cs" using split by (auto simp: clause_vars_def)
      have c: "clause_ok (clause1 m)" if "m \<noteq> 0" for m using that by (simp add: clause_ok_def)
      have oks: "\<forall>st \<in> set (?p # ?n # rest). state_ok st"
        using split c nz rest state_okI [of "cs @ [clause1 l]" None 0 a] state_okI [of "cs @ [clause1 (- l)]" None 0 a]
        by (simp del: map_append)
      have sat: "satisfiable (live ?p) \<or> satisfiable (live ?n)" if s: "satisfiable (live st)"
      proof -
        from s obtain V where V: "cnf_true V cs" using split by (auto simp: satisfiable_def)
        have "cnf_true V (live ?p) \<or> cnf_true V (live ?n)"
          unfolding live_simps using V lit_true_neg [OF nz, of V] by (auto simp: clause_true_def)
        then show ?thesis by (auto simp: satisfiable_def)
      qed
      have com: "completes ?p r \<or> completes ?n r \<Longrightarrow> completes st r" for r
        using completes_split [of cs l a r C sc] completes_split [of cs "- l" a r C sc] split v by blast
      have "answers stack r" if "answers (?p # ?n # rest) r" for r
        by (rule answers_turn [OF that]) (use sat com in \<open>auto simp: Cons simp del: map_append live_simps\<close>)
      with IH [OF split(2) oks] show ?thesis by blast
    qed
  qed
qed

end
