(* ===== verification/PatmatTseitin.thy ===== *)
theory PatmatTseitin
  imports PatmatLoop
begin

text \<open>
  Plaisted's transformation is equisatisfiable: every model of the clauses satisfies the proposition, and every
  assignment of the symbols that satisfies the proposition extends to the literals that were introduced.
\<close>

section \<open>Assignments that agree\<close>

definition agree :: "int \<Rightarrow> (int \<Rightarrow> bool) \<Rightarrow> (int \<Rightarrow> bool) \<Rightarrow> bool" where
  "agree n V W \<longleftrightarrow> (\<forall>x \<le> n. V x = W x)"

lemma agree_refl [simp]: "agree n V V"
  by (simp add: agree_def)

lemma agree_trans: "\<lbrakk>agree n U V; agree m V W; n \<le> m\<rbrakk> \<Longrightarrow> agree n U W"
  by (auto simp: agree_def)

lemma agree_lit: "\<lbrakk>agree n V W; abs l \<le> n\<rbrakk> \<Longrightarrow> lit_true V l = lit_true W l"
  by (auto simp: agree_def lit_true_def)

lemma agree_fresh: "agree n V (V(n + 1 := b))"
  by (simp add: agree_def)

definition below :: "int \<Rightarrow> clause list \<Rightarrow> bool" where
  "below n cs \<longleftrightarrow> (\<forall>c \<in> set cs. clause_ok c \<and> (\<forall>l \<in> sset c. abs l \<le> n))"

lemma below_simps [simp]: "below n []" "below n (c # cs) \<longleftrightarrow> clause_ok c \<and> (\<forall>l \<in> sset c. abs l \<le> n) \<and> below n cs"
  "below n (cs @ ds) \<longleftrightarrow> below n cs \<and> below n ds"
  by (auto simp: below_def)

lemma below_mono: "\<lbrakk>below n cs; n \<le> m\<rbrakk> \<Longrightarrow> below m cs"
  by (force simp: below_def)

lemma agree_cnf: "\<lbrakk>agree n V W; below n cs\<rbrakk> \<Longrightarrow> cnf_true V cs = cnf_true W cs"
  using agree_lit [of n V W] by (auto simp: cnf_true_def clause_true_def below_def)

section \<open>The transformer's invariant\<close>

text \<open>\<open>D\<close> are the clauses already handed over.\<close>

definition transformer_ok :: "clause list \<Rightarrow> transformer \<Rightarrow> bool" where
  "transformer_ok D t \<longleftrightarrow>
     0 \<le> literal_count t \<and> below (literal_count t) (D @ buff t) \<and>
     (\<forall>l. true_lit t = Some l \<longrightarrow> 0 < l \<and> l \<le> literal_count t \<and> (\<exists>c \<in> set (D @ buff t). sset c = {l})) \<and>
     (\<forall>s l. sym_lit (tmapping t) s = Some l \<longrightarrow> 0 < l \<and> l \<le> literal_count t)"

definition extends :: "clause list \<Rightarrow> transformer \<Rightarrow> transformer \<Rightarrow> bool" where
  "extends D t t' \<longleftrightarrow> transformer_ok D t' \<and> tmapping t' = tmapping t \<and> literal_count t \<le> literal_count t' \<and>
     (\<exists>new. buff t' = buff t @ new)"

lemma extends_refl: "transformer_ok D t \<Longrightarrow> extends D t t"
  by (simp add: extends_def)

lemma extends_trans [trans]: "\<lbrakk>extends D t t1; extends D t1 t2\<rbrakk> \<Longrightarrow> extends D t t2"
  by (auto simp: extends_def)

lemma extendsD:
  assumes "extends D t t'"
  shows "transformer_ok D t'" "tmapping t' = tmapping t" "literal_count t \<le> literal_count t'"
    "cnf_true V (D @ buff t') \<Longrightarrow> cnf_true V (D @ buff t)"
  using assms by (auto simp: extends_def)

lemma new_literal_extends:
  assumes "transformer_ok D t"
  shows "extends D t (snd (new_literal t))" "fst (new_literal t) = literal_count t + 1"
    "buff (snd (new_literal t)) = buff t" "literal_count (snd (new_literal t)) = literal_count t + 1"
    "true_lit (snd (new_literal t)) = true_lit t" "tmapping (snd (new_literal t)) = tmapping t"
  using assms below_mono [of "literal_count t" _ "literal_count t + 1"]
  by (auto simp: extends_def transformer_ok_def new_literal_def) fastforce+

lemma add_clause_eq:
  assumes "clause_ok c" "sset c \<noteq> {}"
  shows "add_clause c t = t\<lparr>buff := buff t @ [c]\<rparr>"
  using assms slen_0 by (simp add: add_clause_def sis_empty_def)

lemma add_clause_extends:
  assumes "transformer_ok D t" "clause_ok c" "sset c \<noteq> {}" "\<forall>l \<in> sset c. abs l \<le> literal_count t"
  shows "extends D t (add_clause c t)" "buff (add_clause c t) = buff t @ [c]"
    "literal_count (add_clause c t) = literal_count t" "true_lit (add_clause c t) = true_lit t" "tmapping (add_clause c t) = tmapping t"
  using assms by (auto simp: add_clause_eq extends_def transformer_ok_def)

section \<open>Gates\<close>

text \<open>
  The literal \<open>l\<close> stands for \<open>P\<close>: whatever satisfies the clauses and \<open>l\<close> satisfies \<open>P\<close>, and what satisfied
  the earlier clauses extends so that \<open>l\<close> is \<open>P\<close>.
\<close>

definition gate :: "clause list \<Rightarrow> transformer \<Rightarrow> literal \<Rightarrow> transformer \<Rightarrow> ((int \<Rightarrow> bool) \<Rightarrow> bool) \<Rightarrow> bool" where
  "gate D t l t' P \<longleftrightarrow> extends D t t' \<and> l \<noteq> 0 \<and> abs l \<le> literal_count t' \<and>
     (\<forall>V. cnf_true V (D @ buff t') \<longrightarrow> lit_true V l \<longrightarrow> P V) \<and>
     (\<forall>V. cnf_true V (D @ buff t) \<longrightarrow>
        (\<exists>W. agree (literal_count t) V W \<and> cnf_true W (D @ buff t') \<and> lit_true W l = P V))"

lemma gate_cong:
  assumes "gate D t l t' P" "\<And>V. cnf_true V (D @ buff t) \<Longrightarrow> P V = Q V"
  shows "gate D t l t' Q"
  using assms extendsD(4) [of D t t'] unfolding gate_def by (simp del: cnf_true_simps)

lemma const_true_old:
  assumes "transformer_ok D t" "true_lit t = Some l" "cnf_true V (D @ buff t)"
  shows "lit_true V l"
proof -
  from assms obtain c where "c \<in> set (D @ buff t)" "sset c = {l}" by (auto simp: transformer_ok_def)
  then show ?thesis using assms(3) by (fastforce simp: cnf_true_def clause_true_def simp del: cnf_true_simps)
qed

lemma const_true_props:
  assumes ok: "transformer_ok D t" and c: "const_true t = (l, t')"
  shows "extends D t t'" "0 < l" "l \<le> literal_count t'" "true_lit t' = Some l"
    "cnf_true V (D @ buff t) \<Longrightarrow> \<exists>W. agree (literal_count t) V W \<and> cnf_true W (D @ buff t')"
proof -
  have "extends D t t' \<and> 0 < l \<and> l \<le> literal_count t' \<and> true_lit t' = Some l \<and>
    (cnf_true V (D @ buff t) \<longrightarrow> (\<exists>W. agree (literal_count t) V W \<and> cnf_true W (D @ buff t')))"
  proof (cases "true_lit t")
    case (Some k)
    then have "l = k" "t' = t" using c by (auto simp: const_true_def)
    moreover have "0 < k" "k \<le> literal_count t" using ok Some by (auto simp: transformer_ok_def)
    ultimately show ?thesis using extends_refl [OF ok] Some agree_refl by blast
  next
    case None
    let ?n = "literal_count t + 1"
    have t': "l = ?n" "t' = t\<lparr>literal_count := ?n, buff := buff t @ [clause1 ?n], true_lit := Some ?n\<rparr>"
      using c None ok by (auto simp: const_true_def new_literal_def add_clause_eq clause_ok_def transformer_ok_def)
    have b: "below (literal_count t) (D @ buff t)" using ok by (simp add: transformer_ok_def)
    have "extends D t t'"
      using ok below_mono [of "literal_count t" "D @ buff t" ?n]
      by (force simp: t' extends_def transformer_ok_def clause_ok_def)
    moreover have "cnf_true (V(?n := True)) (D @ buff t')" if "cnf_true V (D @ buff t)"
    proof -
      have "lit_true (V(?n := True)) ?n" using ok by (simp add: lit_true_def transformer_ok_def)
      then show ?thesis
        using agree_cnf [OF agree_fresh b, of V True] that by (simp add: t' clause_true_def)
    qed
    ultimately show ?thesis using ok agree_fresh by (auto simp: t' transformer_ok_def)
  qed
  then show "extends D t t'" "0 < l" "l \<le> literal_count t'" "true_lit t' = Some l"
    "cnf_true V (D @ buff t) \<Longrightarrow> \<exists>W. agree (literal_count t) V W \<and> cnf_true W (D @ buff t')" by auto
qed

lemma const_gates:
  assumes ok: "transformer_ok D t"
  shows "const_true t = (l, t') \<Longrightarrow> gate D t l t' (\<lambda>_. True)" "const_false t = (l, t') \<Longrightarrow> gate D t l t' (\<lambda>_. False)"
proof -
  have *: "gate D t l t' (\<lambda>_. True) \<and> gate D t (- l) t' (\<lambda>_. False)" if c: "const_true t = (l, t')" for l
  proof -
    note p = const_true_props [OF ok c]
    have v: "lit_true V l" "\<not> lit_true V (- l)" if "cnf_true V (D @ buff t')" for V
      using const_true_old [OF extendsD(1) [OF p(1)] p(4) that] p(2) by (simp_all add: lit_true_neg)
    then show ?thesis using p by (force simp: gate_def)
  qed
  then show "const_true t = (l, t') \<Longrightarrow> gate D t l t' (\<lambda>_. True)" by blast
  show "const_false t = (l, t') \<Longrightarrow> gate D t l t' (\<lambda>_. False)"
    using * by (auto simp: const_false_def lit_neg_def split: prod.splits)
qed

text \<open>A fresh literal with clauses that hold when it is given the value \<open>P\<close>.\<close>

lemma fresh_gate:
  assumes ext: "extends D t t1" and sat: "\<And>V. cnf_true V (D @ buff t) \<Longrightarrow> \<exists>W. agree (literal_count t) V W \<and> cnf_true W (D @ buff t1)"
    and t2: "extends D t1 t2" "buff t2 = buff t1 @ cs" "literal_count t2 = literal_count t1 + 1"
    and sound: "\<And>V. \<lbrakk>cnf_true V (D @ buff t1); cnf_true V cs; lit_true V (literal_count t1 + 1)\<rbrakk> \<Longrightarrow> P V"
    and full: "\<And>V. cnf_true V (D @ buff t1) \<Longrightarrow> cnf_true (V(literal_count t1 + 1 := P V)) cs"
    and P: "\<And>V W. agree (literal_count t) V W \<Longrightarrow> P V = P W"
  shows "gate D t (literal_count t1 + 1) t2 P"
proof -
  let ?n = "literal_count t1 + 1"
  have ok1: "transformer_ok D t1" using extendsD(1) [OF ext] .
  then have n: "0 < ?n" "below (literal_count t1) (D @ buff t1)" by (auto simp: transformer_ok_def)
  have "\<exists>W. agree (literal_count t) V W \<and> cnf_true W (D @ buff t2) \<and> lit_true W ?n = P V"
    if V: "cnf_true V (D @ buff t)" for V
  proof -
    obtain V1 where V1: "agree (literal_count t) V V1" "cnf_true V1 (D @ buff t1)" using sat [OF V] by blast
    let ?W = "V1(?n := P V1)"
    have "cnf_true ?W (D @ buff t1)" using agree_cnf [OF agree_fresh n(2), of V1 "P V1"] V1(2) by simp
    moreover have "agree (literal_count t) V ?W" using agree_trans [OF V1(1) agree_fresh extendsD(3) [OF ext]] .
    ultimately show ?thesis
      using full [OF V1(2)] P [OF V1(1)] n(1) t2(2) by (intro exI [of _ ?W]) (simp add: lit_true_def)
  qed
  then show ?thesis
    unfolding gate_def using extends_trans [OF ext t2(1)] n(1) t2(2,3) sound by auto
qed

definition lits_ok :: "transformer \<Rightarrow> literal list \<Rightarrow> bool" where
  "lits_ok t ls \<longleftrightarrow> (\<forall>l \<in> set ls. l \<noteq> 0 \<and> abs l \<le> literal_count t)"

lemma lits_okD: "lits_ok t ls \<Longrightarrow> l \<in> set ls \<Longrightarrow> l \<noteq> 0 \<and> abs l \<le> literal_count t"
  by (simp add: lits_ok_def)

lemma single_gate:
  "\<lbrakk>transformer_ok D t; b \<noteq> 0; abs b \<le> literal_count t; \<And>V. P V = lit_true V b\<rbrakk> \<Longrightarrow> gate D t b t P"
  unfolding gate_def by (intro conjI allI impI exI conjI, rule extends_refl) (auto simp del: cnf_true_simps)

lemma sexcl_from: "sset_ok (sexcl (sfrom_iter ls) l)" "sset (sexcl (sfrom_iter ls) l) = set ls - {l}"
  using scala.excl_set [OF sfrom_iter_ok(1), of ls l] by (simp_all add: sfrom_iter_ok)

lemma and_clauses:
  assumes "transformer_ok D t" "0 < o'" "o' \<le> literal_count t" "\<forall>l \<in> set ops. l \<noteq> 0 \<and> abs l \<le> literal_count t"
  shows "extends D t (foldl (\<lambda>t op. add_clause (clause2 op (- o')) t) t ops) \<and>
    buff (foldl (\<lambda>t op. add_clause (clause2 op (- o')) t) t ops) = buff t @ map (\<lambda>op. clause2 op (- o')) ops \<and>
    literal_count (foldl (\<lambda>t op. add_clause (clause2 op (- o')) t) t ops) = literal_count t"
  using assms
proof (induction ops arbitrary: t)
  case (Cons op ops)
  have c: "clause_ok (clause2 op (- o'))" "sset (clause2 op (- o')) \<noteq> {}" "\<forall>l \<in> sset (clause2 op (- o')). abs l \<le> literal_count t"
    using Cons.prems by (auto simp: clause_ok_def)
  note a = add_clause_extends [OF Cons.prems(1) c]
  have "extends D (add_clause (clause2 op (- o')) t) (foldl (\<lambda>t op. add_clause (clause2 op (- o')) t) (add_clause (clause2 op (- o')) t) ops) \<and>
    buff (foldl (\<lambda>t op. add_clause (clause2 op (- o')) t) (add_clause (clause2 op (- o')) t) ops) =
      buff (add_clause (clause2 op (- o')) t) @ map (\<lambda>op. clause2 op (- o')) ops \<and>
    literal_count (foldl (\<lambda>t op. add_clause (clause2 op (- o')) t) (add_clause (clause2 op (- o')) t) ops) = literal_count (add_clause (clause2 op (- o')) t)"
    using Cons.prems by (intro Cons.IH) (simp_all add: extendsD(1) [OF a(1)] a)
  then show ?case using extends_trans [OF a(1)] a by simp
qed (simp add: extends_refl)

lemma lits_agree: "lits_ok t bv \<Longrightarrow> agree (literal_count t) V W \<Longrightarrow> l \<in> set bv \<Longrightarrow> lit_true V l = lit_true W l"
  by (auto dest: lits_okD agree_lit)

lemma conv_and_gate:
  assumes ok: "transformer_ok D t" and bv: "lits_ok t bv" and c: "conv_and bv t = (l, t')"
  shows "gate D t l t' (\<lambda>V. \<forall>b \<in> set bv. lit_true V b)"
proof -
  let ?P = "\<lambda>V. \<forall>b \<in> set bv. lit_true V b"
  have P: "?P V = ?P W" if "agree (literal_count t) V W" for V W
    using lits_agree [OF bv that] by auto
  consider "bv = []" | b where "bv = [b]" | b1 b2 bs where "bv = b1 # b2 # bs" by (cases bv rule: remdups_adj.cases) auto
  then show ?thesis
  proof cases
    case 1
    then show ?thesis using c const_gates(1) [OF ok] by (simp add: conv_and_def)
  next
    case 2
    then show ?thesis using c bv ok single_gate by (simp add: conv_and_def lits_ok_def)
  next
    case 3
    obtain ct t1 where ct: "const_true t = (ct, t1)" by fastforce
    note p = const_true_props [OF ok ct]
    have cf: "const_false t = (- ct, t1)" by (simp add: const_false_def ct lit_neg_def)
    have again: "const_true t1 = (ct, t1)" by (simp add: const_true_def p(4))
    have true: "lit_true V ct" if "cnf_true V (D @ buff t1)" for V
      using const_true_old [OF extendsD(1) [OF p(1)] p(4) that] .
    show ?thesis
    proof (cases "- ct \<in> set bv")
      case True
      have "gate D t (- ct) t1 (\<lambda>_. False)" using const_gates(2) [OF ok cf] .
      moreover have "\<not> ?P V" if V: "cnf_true V (D @ buff t)" for V
      proof -
        obtain W where W: "agree (literal_count t) V W" "cnf_true W (D @ buff t1)" using p(5) [OF V] by blast
        then have "\<not> lit_true W (- ct)" using true [OF W(2)] p(2) by (simp add: lit_true_neg)
        then show ?thesis using True P [OF W(1)] by blast
      qed
      moreover have "l = - ct" "t' = t1" using c True cf by (auto simp: 3 conv_and_def)
      ultimately show ?thesis using gate_cong [of D t "- ct" t1 "\<lambda>_. False" ?P] by blast
    next
      case False
      define ops where "ops = elems lit_hash (sexcl (sfrom_iter bv) ct)"
      have ops: "set ops = set bv - {ct}" using scala.listing_set [OF sexcl_from(1), of lit_hash bv ct] by (simp add: ops_def sexcl_from)
      let ?t2 = "snd (new_literal t1)"
      note n = new_literal_extends [OF extendsD(1) [OF p(1)]]
      have l: "l = literal_count t1 + 1" and t': "t' = foldl (\<lambda>t op. add_clause (clause2 op (- (literal_count t1 + 1))) t) ?t2 ops"
        using c False cf again by (auto simp add: 3 conv_and_def Let_def ops_def lit_neg_def new_literal_def)
      have c0: "0 \<le> literal_count t1" using extendsD(1) [OF p(1)] by (simp add: transformer_ok_def)
      have a: "extends D ?t2 t' \<and> buff t' = buff ?t2 @ map (\<lambda>op. clause2 op (- (literal_count t1 + 1))) ops \<and>
          literal_count t' = literal_count ?t2"
        unfolding t' using ops bv extendsD(3) [OF p(1)] c0 n(4)
        by (intro and_clauses) (auto simp: extendsD(1) [OF n(1)] lits_ok_def intro: order_trans)
      show ?thesis
        unfolding l
      proof (rule fresh_gate [OF p(1,5)])
        show "extends D t1 t'" using extends_trans [OF n(1)] a by blast
        show "buff t' = buff t1 @ map (\<lambda>op. clause2 op (- (literal_count t1 + 1))) ops" "literal_count t' = literal_count t1 + 1"
          using a n by simp_all
        show "?P V" if "cnf_true V (D @ buff t1)" "cnf_true V (map (\<lambda>op. clause2 op (- (literal_count t1 + 1))) ops)"
          "lit_true V (literal_count t1 + 1)" for V
        proof
          fix b assume "b \<in> set bv"
          moreover have "lit_true V b" if "b \<in> set ops"
            using that \<open>cnf_true V (map _ ops)\<close> \<open>lit_true V (_ + 1)\<close> c0
              lit_true_neg [of "literal_count t1 + 1" V] by (auto simp: cnf_true_def clause_true_def)
          ultimately show "lit_true V b" using true [OF that(1)] ops by blast
        qed
        show "cnf_true (V(literal_count t1 + 1 := ?P V)) (map (\<lambda>op. clause2 op (- (literal_count t1 + 1))) ops)" for V
        proof -
          let ?W = "V(literal_count t1 + 1 := ?P V)"
          have "lit_true ?W op" if "op \<in> set ops" "?P V" for op
            using agree_lit [OF agree_fresh, of op "literal_count t1" V "?P V"] that ops lits_okD [OF bv, of op]
              extendsD(3) [OF p(1)] by auto
          moreover have "lit_true ?W (- (literal_count t1 + 1))" if "\<not> ?P V" using that c0 by (simp add: lit_true_def)
          ultimately have "\<forall>op \<in> set ops. lit_true ?W op \<or> lit_true ?W (- (literal_count t1 + 1))" by blast
          then show ?thesis by (simp add: cnf_true_def clause_true_def)
        qed
      qed (assumption, rule P)
    qed
  qed
qed

lemma conv_or_gate:
  assumes ok: "transformer_ok D t" and bv: "lits_ok t bv" and c: "conv_or bv t = (l, t')"
  shows "gate D t l t' (\<lambda>V. \<exists>b \<in> set bv. lit_true V b)"
proof -
  let ?P = "\<lambda>V. \<exists>b \<in> set bv. lit_true V b"
  have P: "?P V = ?P W" if "agree (literal_count t) V W" for V W
    using lits_agree [OF bv that] by auto
  consider "bv = []" | b where "bv = [b]" | b1 b2 bs where "bv = b1 # b2 # bs" by (cases bv rule: remdups_adj.cases) auto
  then show ?thesis
  proof cases
    case 1
    then show ?thesis using c const_gates(2) [OF ok] by (simp add: conv_or_def)
  next
    case 2
    then show ?thesis using c bv ok single_gate by (simp add: conv_or_def lits_ok_def)
  next
    case 3
    obtain ct t1 where ct: "const_true t = (ct, t1)" by fastforce
    note p = const_true_props [OF ok ct]
    have again: "const_false t1 = (- ct, t1)" by (simp add: const_false_def const_true_def p(4) lit_neg_def)
    have true: "lit_true V ct" if "cnf_true V (D @ buff t1)" for V
      using const_true_old [OF extendsD(1) [OF p(1)] p(4) that] .
    show ?thesis
    proof (cases "ct \<in> set bv")
      case True
      have "gate D t ct t1 (\<lambda>_. True)" using const_gates(1) [OF ok ct] .
      moreover have "?P V" if V: "cnf_true V (D @ buff t)" for V
      proof -
        obtain W where W: "agree (literal_count t) V W" "cnf_true W (D @ buff t1)" using p(5) [OF V] by blast
        then show ?thesis using True true [OF W(2)] P [OF W(1)] by blast
      qed
      moreover have "l = ct" "t' = t1" using c True ct by (auto simp: 3 conv_or_def)
      ultimately show ?thesis using gate_cong [of D t ct t1 "\<lambda>_. True" ?P] by blast
    next
      case False
      define cl where "cl = sincl (sexcl (sfrom_iter bv) (- ct)) (- (literal_count t1 + 1))"
      have c0: "0 \<le> literal_count t1" using extendsD(1) [OF p(1)] by (simp add: transformer_ok_def)
      have cl: "sset_ok cl" "sset cl = insert (- (literal_count t1 + 1)) (set bv - {- ct})"
        using scala.incl_set [OF sexcl_from(1), of bv "- ct" "- (literal_count t1 + 1)"] by (simp_all only: cl_def sexcl_from)
      let ?t2 = "snd (new_literal t1)"
      note n = new_literal_extends [OF extendsD(1) [OF p(1)]]
      have l: "l = literal_count t1 + 1" and t': "t' = add_clause cl ?t2"
        using c False ct again by (auto simp add: 3 conv_or_def Let_def cl_def lit_neg_def new_literal_def)
      have a: "clause_ok cl" "sset cl \<noteq> {}" "\<forall>l \<in> sset cl. abs l \<le> literal_count ?t2"
        using cl bv extendsD(3) [OF p(1)] c0 n(4) by (auto simp: clause_ok_def lits_ok_def)
      note a = add_clause_extends [OF extendsD(1) [OF n(1)] a]
      show ?thesis
        unfolding l
      proof (rule fresh_gate [OF p(1,5)])
        show "extends D t1 t'" using extends_trans [OF n(1)] a t' by blast
        show "buff t' = buff t1 @ [cl]" "literal_count t' = literal_count t1 + 1"
          using a n by (simp_all add: t')
        show "?P V" if "cnf_true V [cl]" "lit_true V (literal_count t1 + 1)" for V
          using that c0 lit_true_neg [of "literal_count t1 + 1" V] cl by (auto simp: clause_true_def)
        show "cnf_true (V(literal_count t1 + 1 := ?P V)) [cl]" if V: "cnf_true V (D @ buff t1)" for V
        proof (cases "?P V")
          case True
          then obtain b where b: "b \<in> set bv" "lit_true V b" by blast
          have "lit_true (V(literal_count t1 + 1 := ?P V)) b"
            using agree_lit [OF agree_fresh, of b "literal_count t1" V "?P V"] b lits_okD [OF bv b(1)] extendsD(3) [OF p(1)] by auto
          moreover have "b \<noteq> - ct" using true [OF V] p(2) b(2) by (auto simp: lit_true_neg)
          ultimately show ?thesis using b(1) cl by (auto simp: clause_true_def)
        next
          case False
          then show ?thesis using c0 cl by (simp add: clause_true_def lit_true_def)
        qed
      qed (assumption, rule P)
    qed
  qed
qed

end
