(* ===== verification/PatmatConvert.thy ===== *)
theory PatmatConvert
  imports PatmatTseitin
begin

text \<open>
  The encodings of \<open>at most one\<close>, and the conversion of a proposition in negation normal form: a literal
  that stands for it.
\<close>

section \<open>Values of symbols\<close>

definition sym_value :: "symbol_mapping \<Rightarrow> (int \<Rightarrow> bool) \<Rightarrow> nat \<Rightarrow> bool" where
  "sym_value m V s = (case sym_lit m s of Some l \<Rightarrow> lit_true V l | None \<Rightarrow> False)"

lemma sym_litD:
  "\<lbrakk>transformer_ok D t; sym_lit (tmapping t) s = Some l\<rbrakk> \<Longrightarrow> 0 < l \<and> l \<le> literal_count t"
  by (auto simp: transformer_ok_def)

lemma sym_value_agree:
  assumes "transformer_ok D t" "agree (literal_count t) V W"
  shows "sym_value (tmapping t) V = sym_value (tmapping t) W"
proof
  fix s
  show "sym_value (tmapping t) V s = sym_value (tmapping t) W s"
  proof (cases "sym_lit (tmapping t) s")
    case (Some l)
    then show ?thesis using sym_litD [OF assms(1) Some] agree_lit [OF assms(2), of l] by (simp add: sym_value_def)
  qed (simp add: sym_value_def)
qed

lemma those_Some: "those xs = Some ys \<longleftrightarrow> xs = map Some ys"
  by (induction xs arbitrary: ys) (auto split: option.splits)

lemma sym_lits:
  assumes "those (map (sym_lit m) ops) = Some ls"
  shows "length (filter (sym_value m V) ops) = length (filter (lit_true V) ls)" "length ops = length ls"
    "\<And>l. l \<in> set ls \<Longrightarrow> \<exists>s. sym_lit m s = Some l"
proof -
  have *: "map (sym_lit m) ops = map Some ls" using assms by (simp add: those_Some)
  then show "length ops = length ls" by (metis length_map)
  show "\<And>l. l \<in> set ls \<Longrightarrow> \<exists>s. sym_lit m s = Some l" using arg_cong [OF *, of set] by (auto dest!: equalityD2 simp: image_subset_iff) force
  from * show "length (filter (sym_value m V) ops) = length (filter (lit_true V) ls)"
  proof (induction ops arbitrary: ls)
    case (Cons s ops)
    then show ?case by (cases ls) (auto simp: sym_value_def)
  qed simp
qed

section \<open>At most one\<close>

definition clause_in :: "int \<Rightarrow> clause \<Rightarrow> bool" where
  "clause_in n c \<longleftrightarrow> clause_ok c \<and> sset c \<noteq> {} \<and> (\<forall>l \<in> sset c. abs l \<le> n)"

lemma clause_in2 [simp]: "clause_in n (clause2 a b) \<longleftrightarrow> a \<noteq> 0 \<and> b \<noteq> 0 \<and> abs a \<le> n \<and> abs b \<le> n"
  by (auto simp: clause_in_def clause_ok_def)

lemma clause_in_extends:
  assumes "transformer_ok D t" "clause_in (literal_count t) c"
  shows "extends D t (add_clause c t)" "buff (add_clause c t) = buff t @ [c]"
    "literal_count (add_clause c t) = literal_count t" "tmapping (add_clause c t) = tmapping t"
  using add_clause_extends [OF assms(1), of c] assms(2) by (auto simp: clause_in_def)

lemma add_clauses:
  assumes "transformer_ok D t" "\<forall>c \<in> set cs. clause_in (literal_count t) c"
  shows "extends D t (foldl (\<lambda>t c. add_clause c t) t cs) \<and> buff (foldl (\<lambda>t c. add_clause c t) t cs) = buff t @ cs \<and>
    literal_count (foldl (\<lambda>t c. add_clause c t) t cs) = literal_count t"
  using assms
proof (induction cs arbitrary: t)
  case (Cons c cs)
  have "clause_in (literal_count t) c" using Cons.prems(2) by simp
  note a = clause_in_extends [OF Cons.prems(1) this]
  show ?case using Cons.IH [OF extendsD(1) [OF a(1)]] Cons.prems(2) extends_trans [OF a(1)] a by simp
qed (simp add: extends_refl)

lemma clause2_true [simp]: "clause_true V (clause2 a b) \<longleftrightarrow> lit_true V a \<or> lit_true V b"
  by (simp add: clause_true_def)

lemma lit_true_minus [simp]: "0 < l \<Longrightarrow> lit_true V (- l) \<longleftrightarrow> \<not> lit_true V l"
  by (simp add: lit_true_neg)

lemma cnf_true_fresh:
  assumes "transformer_ok D t"
  shows "cnf_true (V(literal_count t + 1 := b)) (D @ buff t) = cnf_true V (D @ buff t)"
  using agree_cnf [OF agree_fresh, of "literal_count t" "D @ buff t" V b] assms
  by (simp add: transformer_ok_def)

lemma lit_true_fresh:
  "\<lbrakk>0 \<le> n; abs l \<le> n\<rbrakk> \<Longrightarrow> lit_true (V(n + 1 := b)) l = lit_true V l" "0 \<le> n \<Longrightarrow> lit_true (V(n + 1 := b)) (n + 1) = b"
  using agree_lit [OF agree_fresh, of l n V b] by (auto simp: lit_true_def)

definition one_of :: "(int \<Rightarrow> bool) \<Rightarrow> literal list \<Rightarrow> bool" where
  "one_of V ls \<longleftrightarrow> (\<exists>l \<in> set ls. lit_true V l)"

definition amo :: "(int \<Rightarrow> bool) \<Rightarrow> literal list \<Rightarrow> bool" where
  "amo V ls \<longleftrightarrow> length (filter (lit_true V) ls) \<le> 1"

lemma amo_simps [simp]: "amo V []" "amo V (l # ls) \<longleftrightarrow> (if lit_true V l then \<not> one_of V ls else amo V ls)"
  "amo V (ls @ [l]) \<longleftrightarrow> (if lit_true V l then \<not> one_of V ls else amo V ls)"
  by (auto simp: amo_def one_of_def filter_empty_conv)

lemma one_of_simps [simp]: "\<not> one_of V []" "one_of V (l # ls) \<longleftrightarrow> lit_true V l \<or> one_of V ls"
  by (auto simp: one_of_def)

lemma not_one_of_amo: "\<not> one_of V ls \<Longrightarrow> amo V ls"
  by (induction ls) auto

lemma agree_one_of:
  assumes "agree n V W" "\<forall>l \<in> set ls. abs l \<le> n"
  shows "one_of V ls = one_of W ls" "amo V ls = amo W ls"
proof -
  have "filter (lit_true V) ls = filter (lit_true W) ls" using agree_lit [OF assms(1)] assms(2) by (intro filter_cong) auto
  then show "one_of V ls = one_of W ls" "amo V ls = amo W ls"
    by (simp_all add: amo_def one_of_def flip: filter_empty_conv) (metis filter_empty_conv)
qed

text \<open>The sequential counter: \<open>sn\<close> holds when one of the literals so far does.\<close>

lemma amo_chain_correct:
  assumes "transformer_ok D t" "those (map (sym_lit (tmapping t)) mid) = Some xs" "0 < si" "si \<le> literal_count t"
  shows "\<exists>sn t'. amo_chain mid si t = Some (sn, t') \<and> extends D t t' \<and> 0 < sn \<and> sn \<le> literal_count t' \<and>
    (\<forall>V. cnf_true V (D @ buff t') \<longrightarrow>
       (lit_true V si \<longrightarrow> \<not> one_of V xs) \<and> amo V xs \<and> (lit_true V si \<or> one_of V xs \<longrightarrow> lit_true V sn)) \<and>
    (\<forall>V. cnf_true V (D @ buff t) \<and> (lit_true V si \<longrightarrow> \<not> one_of V xs) \<and> amo V xs \<longrightarrow>
       (\<exists>W. agree (literal_count t) V W \<and> cnf_true W (D @ buff t') \<and>
          (lit_true W sn \<longleftrightarrow> lit_true V si \<or> one_of V xs)))"
  using assms
proof (induction mid arbitrary: si t xs)
  case Nil
  then show ?case by (auto simp: extends_refl those_Some intro: agree_refl)
next
  case (Cons s mid)
  obtain x ys where xs: "xs = x # ys" "sym_lit (tmapping t) s = Some x"
    "those (map (sym_lit (tmapping t)) mid) = Some ys"
    using Cons.prems(2) [unfolded those_Some] by (auto simp: those_Some Cons_eq_map_conv)
  note x = sym_litD [OF Cons.prems(1) xs(2)]
  let ?n = "literal_count t"
  let ?t1 = "snd (new_literal t)"
  note n = new_literal_extends [OF Cons.prems(1)]
  have n0: "0 \<le> ?n" using Cons.prems(1) by (simp add: transformer_ok_def)
  define cs where "cs = [clause2 (- x) (?n + 1), clause2 (- si) (?n + 1), clause2 (- x) (- si)]"
  define t2 where "t2 = foldl (\<lambda>t c. add_clause c t) ?t1 cs"
  have "\<forall>c \<in> set cs. clause_in (literal_count ?t1) c"
    using x Cons.prems(3,4) n0 n(4) by (simp add: cs_def)
  from add_clauses [OF extendsD(1) [OF n(1)] this]
  have t2: "extends D ?t1 t2" "buff t2 = buff t @ cs" "literal_count t2 = ?n + 1" using n by (simp_all add: t2_def)
  have ok2: "transformer_ok D t2" using extendsD(1) [OF t2(1)] .
  have m2: "tmapping t2 = tmapping t" using extendsD(2) [OF t2(1)] n(6) by simp
  have e: "amo_chain (s # mid) si t = amo_chain mid (?n + 1) t2"
    by (simp add: xs(2) t2_def cs_def lit_neg_def new_literal_def Let_def)
  obtain sn t' where IH: "amo_chain mid (?n + 1) t2 = Some (sn, t')" "extends D t2 t'" "0 < sn" "sn \<le> literal_count t'"
    "\<And>V. cnf_true V (D @ buff t') \<Longrightarrow> (lit_true V (?n + 1) \<longrightarrow> \<not> one_of V ys) \<and> amo V ys \<and> (lit_true V (?n + 1) \<or> one_of V ys \<longrightarrow> lit_true V sn)"
    "\<And>V. \<lbrakk>cnf_true V (D @ buff t2); lit_true V (?n + 1) \<longrightarrow> \<not> one_of V ys; amo V ys\<rbrakk> \<Longrightarrow>
       \<exists>W. agree (?n + 1) V W \<and> cnf_true W (D @ buff t') \<and> (lit_true W sn \<longleftrightarrow> lit_true V (?n + 1) \<or> one_of V ys)"
    using Cons.IH [OF ok2, of ys "?n + 1"] xs(3) n0 t2(3) m2 by auto
  show ?case
    unfolding e
  proof (intro exI conjI)
    show "amo_chain mid (?n + 1) t2 = Some (sn, t')" "0 < sn" "sn \<le> literal_count t'" by fact+
    show "extends D t t'" using extends_trans [OF extends_trans [OF n(1) t2(1)] IH(2)] .
    show "\<forall>V. cnf_true V (D @ buff t') \<longrightarrow>
       (lit_true V si \<longrightarrow> \<not> one_of V xs) \<and> amo V xs \<and> (lit_true V si \<or> one_of V xs \<longrightarrow> lit_true V sn)"
    proof (intro allI impI)
      fix V assume V: "cnf_true V (D @ buff t')"
      then have "cnf_true V cs" using extendsD(4) [OF IH(2) V] t2(2) by simp
      then show "(lit_true V si \<longrightarrow> \<not> one_of V xs) \<and> amo V xs \<and> (lit_true V si \<or> one_of V xs \<longrightarrow> lit_true V sn)"
        using IH(5) [OF V] x Cons.prems(3) by (auto simp: cs_def xs(1))
    qed
    show "\<forall>V. cnf_true V (D @ buff t) \<and> (lit_true V si \<longrightarrow> \<not> one_of V xs) \<and> amo V xs \<longrightarrow>
       (\<exists>W. agree ?n V W \<and> cnf_true W (D @ buff t') \<and> (lit_true W sn \<longleftrightarrow> lit_true V si \<or> one_of V xs))"
    proof (intro allI impI)
      fix V assume V: "cnf_true V (D @ buff t) \<and> (lit_true V si \<longrightarrow> \<not> one_of V xs) \<and> amo V xs"
      define U where "U = V(?n + 1 := lit_true V si \<or> lit_true V x)"
      have a: "agree ?n V U" unfolding U_def by (rule agree_fresh)
      have u: "lit_true U (?n + 1) \<longleftrightarrow> lit_true V si \<or> lit_true V x" unfolding U_def by (rule lit_true_fresh(2) [OF n0])
      have s: "lit_true U si = lit_true V si" "lit_true U x = lit_true V x"
        using agree_lit [OF a] x Cons.prems(3,4) by auto
      have "\<forall>l \<in> set ys. abs l \<le> ?n" using sym_lits(3) [OF xs(3)] sym_litD [OF Cons.prems(1)] by fastforce
      note y = agree_one_of [OF a this]
      have "cnf_true U cs" using V x Cons.prems(3) n0 by (auto simp: cs_def u s xs(1))
      moreover have "cnf_true U (D @ buff t)" using V cnf_true_fresh [OF Cons.prems(1)] by (simp add: U_def)
      ultimately have "cnf_true U (D @ buff t2)" by (simp add: t2(2))
      moreover have "lit_true U (?n + 1) \<longrightarrow> \<not> one_of U ys" "amo U ys"
        using V y u not_one_of_amo by (auto simp: xs(1) split: if_splits)
      ultimately obtain W where "agree (?n + 1) U W" "cnf_true W (D @ buff t')"
        "lit_true W sn \<longleftrightarrow> lit_true U (?n + 1) \<or> one_of U ys" using IH(6) by blast
      then show "\<exists>W. agree ?n V W \<and> cnf_true W (D @ buff t') \<and> (lit_true W sn \<longleftrightarrow> lit_true V si \<or> one_of V xs)"
        using a u y by (intro exI [of _ W]) (auto simp: xs(1) agree_def)
    qed
  qed
qed

lemma amo_pairs_set: "(\<forall>(a, b) \<in> set (amo_pairs ls). \<not> (lit_true V a \<and> lit_true V b)) \<longleftrightarrow> amo V ls"
  by (induction ls) (auto simp: one_of_def not_one_of_amo)

lemma amo_pairs_in: "(a, b) \<in> set (amo_pairs ls) \<Longrightarrow> a \<in> set ls \<and> b \<in> set ls"
  by (induction ls) auto

definition enforces :: "clause list \<Rightarrow> transformer \<Rightarrow> transformer \<Rightarrow> ((int \<Rightarrow> bool) \<Rightarrow> bool) \<Rightarrow> bool" where
  "enforces D t t' P \<longleftrightarrow> extends D t t' \<and> (\<forall>V. cnf_true V (D @ buff t') \<longrightarrow> P V) \<and>
     (\<forall>V. cnf_true V (D @ buff t) \<and> P V \<longrightarrow> (\<exists>W. agree (literal_count t) V W \<and> cnf_true W (D @ buff t')))"

lemma enforces_clauses:
  assumes "transformer_ok D t" "\<forall>c \<in> set cs. clause_in (literal_count t) c"
    "\<And>V. P V = cnf_true V cs"
  shows "enforces D t (foldl (\<lambda>t c. add_clause c t) t cs) P"
proof -
  have "cnf_true V (D @ buff t) \<and> P V \<longleftrightarrow> cnf_true V (D @ buff (foldl (\<lambda>t c. add_clause c t) t cs))" for V
    using add_clauses [OF assms(1,2)] assms(3) by simp
  then show ?thesis using add_clauses [OF assms(1,2)] agree_refl unfolding enforces_def by blast
qed

lemma at_most_one_long:
  assumes ok: "transformer_ok D t" and l: "those (map (sym_lit (tmapping t)) ops) = Some ls" and n: "5 < length ops"
  shows "\<exists>t'. at_most_one ops t = Some t' \<and> enforces D t t' (\<lambda>V. amo V ls)"
proof -
  obtain s mid sn where ops: "ops = s # mid @ [sn]"
    using n by (cases ops; cases "tl ops" rule: rev_cases) auto
  obtain x1 xs xn where ls: "ls = x1 # xs @ [xn]" "sym_lit (tmapping t) s = Some x1"
    "those (map (sym_lit (tmapping t)) mid) = Some xs" "sym_lit (tmapping t) sn = Some xn"
    using l [unfolded those_Some] by (auto simp: those_Some ops Cons_eq_map_conv append_eq_map_conv)
  note x1 = sym_litD [OF ok ls(2)] and xn = sym_litD [OF ok ls(4)]
  have xs: "\<forall>l \<in> set xs. abs l \<le> literal_count t" using sym_lits(3) [OF ls(3)] sym_litD [OF ok] by fastforce
  let ?n = "literal_count t" and ?t1 = "snd (new_literal t)"
  note nl = new_literal_extends [OF ok]
  have n0: "0 \<le> ?n" using ok by (simp add: transformer_ok_def)
  define t2 where "t2 = add_clause (clause2 (- x1) (?n + 1)) ?t1"
  have "clause_in (literal_count ?t1) (clause2 (- x1) (?n + 1))" using x1 n0 nl(4) by simp
  note t2 = clause_in_extends [OF extendsD(1) [OF nl(1)] this, folded t2_def]
  have m2: "tmapping t2 = tmapping t" using t2(4) nl(6) by simp
  obtain sl t3 where ch: "amo_chain mid (?n + 1) t2 = Some (sl, t3)" "extends D t2 t3" "0 < sl" "sl \<le> literal_count t3"
    "\<And>V. cnf_true V (D @ buff t3) \<Longrightarrow> (lit_true V (?n + 1) \<longrightarrow> \<not> one_of V xs) \<and> amo V xs \<and> (lit_true V (?n + 1) \<or> one_of V xs \<longrightarrow> lit_true V sl)"
    "\<And>V. \<lbrakk>cnf_true V (D @ buff t2); lit_true V (?n + 1) \<longrightarrow> \<not> one_of V xs; amo V xs\<rbrakk> \<Longrightarrow>
       \<exists>W. agree (?n + 1) V W \<and> cnf_true W (D @ buff t3) \<and> (lit_true W sl \<longleftrightarrow> lit_true V (?n + 1) \<or> one_of V xs)"
    using amo_chain_correct [OF extendsD(1) [OF t2(1)], of mid xs "?n + 1"] ls(3) m2 n0 t2(3) nl(4) by auto
  have e3: "extends D t t3" using extends_trans [OF extends_trans [OF nl(1) t2(1)] ch(2)] .
  have m3: "tmapping t3 = tmapping t" using extendsD(2) [OF e3] .
  define t4 where "t4 = add_clause (clause2 (- xn) (- sl)) t3"
  have "clause_in (literal_count t3) (clause2 (- xn) (- sl))" using xn ch(3,4) extendsD(3) [OF e3] by simp
  note t4 = clause_in_extends [OF extendsD(1) [OF ch(2)] this, folded t4_def]
  have "at_most_one ops t = Some t4"
  proof -
    have "\<not> length ops \<le> 1" using n by simp
    moreover have "hd ops = s" "butlast (tl ops) = mid" "last (tl ops) = sn" by (simp_all add: ops)
    ultimately show ?thesis using n ch(1) ls(2,4) m3
      by (simp add: at_most_one_def t2_def t4_def lit_neg_def new_literal_def Let_def)
  qed
  moreover have "enforces D t t4 (\<lambda>V. amo V ls)"
    unfolding enforces_def
  proof (intro conjI allI impI)
    show "extends D t t4" using extends_trans [OF e3 t4(1)] .
    fix V
    show "amo V ls" if V: "cnf_true V (D @ buff t4)"
    proof -
      have "cnf_true V (D @ buff t3)" "clause_true V (clause2 (- xn) (- sl))" using V t4(2) by simp_all
      moreover have "clause_true V (clause2 (- x1) (?n + 1))"
        using extendsD(4) [OF ch(2) calculation(1)] t2(2) by simp
      ultimately show ?thesis
        using ch(5) [of V] ch(3) x1 xn n0 by (cases "lit_true V x1"; cases "lit_true V xn") (simp_all add: ls(1) one_of_def)
    qed
    show "\<exists>W. agree ?n V W \<and> cnf_true W (D @ buff t4)" if V: "cnf_true V (D @ buff t) \<and> amo V ls"
    proof -
      define U where "U = V(?n + 1 := lit_true V x1)"
      have a: "agree ?n V U" unfolding U_def by (rule agree_fresh)
      have u: "lit_true U (?n + 1) \<longleftrightarrow> lit_true V x1" unfolding U_def by (rule lit_true_fresh(2) [OF n0])
      have s: "lit_true U x1 = lit_true V x1" "lit_true U xn = lit_true V xn" using agree_lit [OF a] x1 xn by auto
      note y = agree_one_of [OF a xs]
      have "cnf_true U (D @ buff t)" using V cnf_true_fresh [OF ok] by (simp add: U_def)
      then have "cnf_true U (D @ buff t2)" using u s x1 by (simp add: t2(2) nl(3))
      moreover have "lit_true U (?n + 1) \<longrightarrow> \<not> one_of U xs" "amo U xs"
        using V y u not_one_of_amo by (auto simp: ls(1) one_of_def split: if_splits)
      ultimately obtain W where W: "agree (?n + 1) U W" "cnf_true W (D @ buff t3)"
        "lit_true W sl \<longleftrightarrow> lit_true U (?n + 1) \<or> one_of U xs" using ch(6) by blast
      have w: "agree ?n V W" using agree_trans [OF a W(1)] by simp
      have "\<not> (lit_true W xn \<and> lit_true W sl)"
        using V W(3) u y agree_lit [OF w, of xn] xn by (auto simp: ls(1) one_of_def split: if_splits)
      then have "cnf_true W (D @ buff t4)" using W(2) ch(3) xn by (simp add: t4(2))
      with w show ?thesis by blast
    qed
  qed
  ultimately show ?thesis by blast
qed

lemma at_most_one_correct:
  assumes ok: "transformer_ok D t" and l: "those (map (sym_lit (tmapping t)) ops) = Some ls"
  shows "\<exists>t'. at_most_one ops t = Some t' \<and> enforces D t t' (\<lambda>V. length (filter (sym_value (tmapping t) V) ops) \<le> 1)"
proof -
  have "\<exists>t'. at_most_one ops t = Some t' \<and> enforces D t t' (\<lambda>V. amo V ls)"
  proof -
    consider "length ops \<le> 1" | "5 < length ops" | "1 < length ops" "length ops \<le> 5" by linarith
    then show ?thesis
    proof cases
      case 1
      then have "amo V ls" for V using sym_lits(2) [OF l] length_filter_le [of "lit_true V" ls] unfolding amo_def by linarith
      then have "enforces D t t (\<lambda>V. amo V ls)" using enforces_clauses [OF ok, of "[]" "\<lambda>V. amo V ls"] by simp
      then show ?thesis using 1 by (simp add: at_most_one_def)
    next
      case 2
      then show ?thesis using at_most_one_long [OF ok l] by blast
    next
      case 3
      let ?cs = "map (\<lambda>(a, b). clause2 (- a) (- b)) (amo_pairs ls)"
      have b: "0 < l \<and> l \<le> literal_count t" if "l \<in> set ls" for l using sym_lits(3) [OF l that] sym_litD [OF ok] by blast
      have "enforces D t (foldl (\<lambda>t c. add_clause c t) t ?cs) (\<lambda>V. amo V ls)"
      proof (rule enforces_clauses [OF ok])
        show "\<forall>c \<in> set ?cs. clause_in (literal_count t) c"
          using b by (force dest!: amo_pairs_in)
        have "\<And>a b. (a, b) \<in> set (amo_pairs ls) \<Longrightarrow> 0 < a \<and> 0 < b" using b amo_pairs_in by blast
        then show "amo V ls = cnf_true V ?cs" for V
          unfolding amo_pairs_set [symmetric] cnf_true_def by fastforce
      qed
      moreover have "at_most_one ops t = Some (foldl (\<lambda>t c. add_clause c t) t ?cs)"
        using 3 l by (simp add: at_most_one_def foldl_map lit_neg_def case_prod_unfold)
      ultimately show ?thesis by blast
    qed
  qed
  moreover have "amo V ls \<longleftrightarrow> length (filter (sym_value (tmapping t) V) ops) \<le> 1" for V
    by (simp add: amo_def sym_lits(1) [OF l])
  ultimately show ?thesis by simp
qed

end
