(* ===== verification/PatmatForms.thy ===== *)
theory PatmatForms
  imports PatmatConvert
begin

text \<open>
  The propositions the solver is given, what \<open>simplify\<close> makes of them, and the numbering of their symbols.
\<close>

section \<open>Symbols of a proposition\<close>

fun syms :: "prp \<Rightarrow> nat set" where
  "syms (Prop_And ops) = (\<Union>p \<in> set ops. syms p)"
| "syms (Prop_Or ops) = (\<Union>p \<in> set ops. syms p)"
| "syms (Prop_Not p) = syms p"
| "syms (Prop_Sym s) = {s}"
| "syms (Prop_AtMostOne ops) = set ops"
| "syms _ = {}"

section \<open>Forms\<close>

text \<open>No equality and no \<open>at most one\<close>; and \<open>at most one\<close> as conjuncts only.\<close>

fun boolean_prop :: "prp \<Rightarrow> bool" where
  "boolean_prop (Prop_And ops) \<longleftrightarrow> (\<forall>p \<in> set ops. boolean_prop p)"
| "boolean_prop (Prop_Or ops) \<longleftrightarrow> (\<forall>p \<in> set ops. boolean_prop p)"
| "boolean_prop (Prop_Not p) \<longleftrightarrow> boolean_prop p"
| "boolean_prop (Prop_Eq _ _) \<longleftrightarrow> False"
| "boolean_prop (Prop_AtMostOne _) \<longleftrightarrow> False"
| "boolean_prop _ \<longleftrightarrow> True"

fun solvable_form :: "prp \<Rightarrow> bool" where
  "solvable_form (Prop_And ops) \<longleftrightarrow> (\<forall>p \<in> set ops. solvable_form p)"
| "solvable_form (Prop_AtMostOne _) \<longleftrightarrow> True"
| "solvable_form p \<longleftrightarrow> boolean_prop p"

text \<open>The same in negation normal form.\<close>

fun nnf_pure :: "prp \<Rightarrow> bool" where
  "nnf_pure (Prop_And ops) \<longleftrightarrow> (\<forall>p \<in> set ops. nnf_pure p)"
| "nnf_pure (Prop_Or ops) \<longleftrightarrow> (\<forall>p \<in> set ops. nnf_pure p)"
| "nnf_pure (Prop_Not p) \<longleftrightarrow> (\<exists>s. p = Prop_Sym s)"
| "nnf_pure (Prop_Eq _ _) \<longleftrightarrow> False"
| "nnf_pure (Prop_AtMostOne _) \<longleftrightarrow> False"
| "nnf_pure _ \<longleftrightarrow> True"

fun nnf_top :: "prp \<Rightarrow> bool" where
  "nnf_top (Prop_And ops) \<longleftrightarrow> (\<forall>p \<in> set ops. nnf_top p)"
| "nnf_top (Prop_AtMostOne _) \<longleftrightarrow> True"
| "nnf_top p \<longleftrightarrow> nnf_pure p"

fun conjunct :: "prp \<Rightarrow> bool" where
  "conjunct (Prop_AtMostOne _) \<longleftrightarrow> True"
| "conjunct p \<longleftrightarrow> nnf_pure p"

fun clausal :: "prp \<Rightarrow> bool" where
  "clausal (Prop_And ops) \<longleftrightarrow> (\<forall>p \<in> set ops. conjunct p)"
| "clausal p \<longleftrightarrow> conjunct p"

lemma nnf_pure_conjunct: "nnf_pure p \<Longrightarrow> conjunct p"
  by (cases p) auto

lemma conjunct_clausal: "conjunct p \<Longrightarrow> clausal p"
  by (cases p) (auto simp: nnf_pure_conjunct)

lemma nnf_pure_top: "nnf_pure p \<Longrightarrow> nnf_top p"
  by (induction p) auto

lemma boolean_solvable: "boolean_prop p \<Longrightarrow> solvable_form p"
  by (induction p) auto

section \<open>Simplification keeps the form and adds no symbol\<close>

lemma unique_all: "\<forall>p \<in> set ps. Q p \<Longrightarrow> \<forall>p \<in> set (unique fx ps). Q p"
  using unique_subset [of fx ps] by auto

lemma nnf_forms: "boolean_prop p \<Longrightarrow> nnf_pure (nnf fx p) \<and> nnf_pure (nnf_not fx p)"
proof (induction p)
  case (Prop_And ops)
  have "\<forall>q \<in> set (unique fx (map (nnf fx) ops)). nnf_pure q" "\<forall>q \<in> set (unique fx (map (nnf_not fx) ops)). nnf_pure q"
    by (rule unique_all; use Prop_And in simp)+
  then show ?case by simp
next
  case (Prop_Or ops)
  have "\<forall>q \<in> set (unique fx (map (nnf fx) ops)). nnf_pure q" "\<forall>q \<in> set (unique fx (map (nnf_not fx) ops)). nnf_pure q"
    by (rule unique_all; use Prop_Or in simp)+
  then show ?case by simp
qed auto

lemma nnf_top_form: "solvable_form p \<Longrightarrow> nnf_top (nnf fx p)"
proof (induction p)
  case (Prop_And ops)
  have "\<forall>q \<in> set (unique fx (map (nnf fx) ops)). nnf_top q" by (rule unique_all) (use Prop_And in simp)
  then show ?case by simp
next
  case (Prop_Or ops)
  then show ?case using nnf_forms [of "Prop_Or ops" fx] by simp
next
  case (Prop_Not p)
  then show ?case using nnf_forms [of "Prop_Not p" fx] nnf_pure_top by simp
qed auto

lemma nnf_syms: "syms (nnf fx p) \<subseteq> syms p \<and> syms (nnf_not fx p) \<subseteq> syms p"
proof (induction p)
  case (Prop_And ops)
  have "\<forall>q \<in> set (unique fx (map (nnf fx) ops)). syms q \<subseteq> syms (Prop_And ops)"
    "\<forall>q \<in> set (unique fx (map (nnf_not fx) ops)). syms q \<subseteq> syms (Prop_And ops)"
    by (rule unique_all; use Prop_And in fastforce)+
  then show ?case by auto
next
  case (Prop_Or ops)
  have "\<forall>q \<in> set (unique fx (map (nnf fx) ops)). syms q \<subseteq> syms (Prop_Or ops)"
    "\<forall>q \<in> set (unique fx (map (nnf_not fx) ops)). syms q \<subseteq> syms (Prop_Or ops)"
    by (rule unique_all; use Prop_Or in fastforce)+
  then show ?case by auto
qed auto

lemma collect_unique:
  "items (collect_and fx fs) = unique fx (concat (map operands_and fs))"
  "items (collect_or fx fs) = unique fx (concat (map operands_or fs))"
  by (simp_all add: collect_flat unique_def)

lemma big_cases:
  "big_and fx ps = Prop_True \<or> big_and fx ps \<in> set ps \<or> (\<exists>v. big_and fx ps = Prop_And v \<and> set v \<subseteq> set ps)"
  "big_or fx ps = Prop_False \<or> big_or fx ps \<in> set ps \<or> (\<exists>v. big_or fx ps = Prop_Or v \<and> set v \<subseteq> set ps)"
  using unique_subset [of fx ps] by (auto simp: big_and_def big_or_def split: list.splits)

lemma simplify_and_cases:
  fixes fs
  defines "X \<equiv> set (concat (map operands_and fs))"
  shows "simplify_and fx fs = Prop_True \<or> simplify_and fx fs = Prop_False \<or> simplify_and fx fs \<in> X \<or>
    (\<exists>v. simplify_and fx fs = Prop_And v \<and> (\<forall>x \<in> set v. x \<in> X))"
  using big_cases(1) [of fx "items (collect_and fx fs)"] unique_subset [of fx "concat (map operands_and fs)"]
  unfolding collect_unique simplify_and_def Let_def X_def by (auto simp del: set_concat set_map map_map)

lemma simplify_or_cases:
  fixes fs
  defines "X \<equiv> set (concat (map operands_or fs))"
  shows "simplify_or fx fs = Prop_True \<or> simplify_or fx fs = Prop_False \<or> simplify_or fx fs \<in> X \<or>
    (\<exists>v. simplify_or fx fs = Prop_Or v \<and> (\<forall>x \<in> set v. x \<in> X))"
  using big_cases(2) [of fx "items (collect_or fx fs)"] unique_subset [of fx "concat (map operands_or fs)"]
  unfolding collect_unique simplify_or_def Let_def X_def by (auto simp del: set_concat set_map map_map)

lemma operands_syms: "(\<Union>p \<in> set (operands_and f). syms p) = syms f" "(\<Union>p \<in> set (operands_or f). syms p) = syms f"
  by (cases f; simp add: operands_and_def operands_or_def)+

lemma simplify_prop_syms: "syms (simplify_prop fx p) \<subseteq> syms p"
proof (induction fx p rule: simplify_prop.induct)
  case (1 fx p)
  show ?case
  proof (cases p)
    case (Prop_And ps)
    have "simplify_prop fx p = simplify_and fx (map (simplify_prop fx) ps)" by (subst simplify_prop.simps) (simp add: Prop_And)
    moreover have "\<forall>q \<in> set (concat (map operands_and (map (simplify_prop fx) ps))). syms q \<subseteq> syms p"
      using "1.IH"(1) [OF Prop_And] operands_syms(1) by (fastforce simp: Prop_And)
    ultimately show ?thesis using simplify_and_cases [of fx "map (simplify_prop fx) ps"]
      by (auto simp del: set_concat set_map map_map; blast)
  next
    case (Prop_Or ps)
    have "simplify_prop fx p = simplify_or fx (map (simplify_prop fx) ps)" by (subst simplify_prop.simps) (simp add: Prop_Or)
    moreover have "\<forall>q \<in> set (concat (map operands_or (map (simplify_prop fx) ps))). syms q \<subseteq> syms p"
      using "1.IH"(2) [OF Prop_Or] operands_syms(2) by (fastforce simp: Prop_Or)
    ultimately show ?thesis using simplify_or_cases [of fx "map (simplify_prop fx) ps"] 
      by (auto simp del: set_concat set_map map_map; blast)
  next
    case (Prop_Not q)
    show ?thesis
    proof (cases "\<exists>a. q = Prop_Not a")
      case True
      then obtain a where "q = Prop_Not a" by blast
      then show ?thesis using Prop_Not 1 nnf_syms [of fx a] by (subst simplify_prop.simps) auto
    next
      case False
      then have "simplify_prop fx p = Prop_Not (simplify_prop fx (nnf fx q))"
        unfolding Prop_Not by (subst simplify_prop.simps) (simp split: prp.splits)
      moreover have "syms (simplify_prop fx (nnf fx q)) \<subseteq> syms (nnf fx q)"
        using 1 Prop_Not False by (cases q) auto
      ultimately show ?thesis using nnf_syms [of fx q] unfolding Prop_Not by auto
    qed
  qed (simp_all add: simplify_prop.simps)
qed

lemma simplify_syms: "syms (simplify fx p) \<subseteq> syms p"
  using simplify_prop_syms [of fx "nnf fx p"] nnf_syms [of fx p] by (auto simp: simplify_def)

lemma operands_pure:
  "nnf_pure f \<Longrightarrow> \<forall>p \<in> set (operands_and f). nnf_pure p" "nnf_pure f \<Longrightarrow> \<forall>p \<in> set (operands_or f). nnf_pure p"
  "clausal f \<Longrightarrow> \<forall>p \<in> set (operands_and f). conjunct p"
  by (cases f; simp add: operands_and_def operands_or_def)+

lemma simplify_prop_pure: "nnf_pure p \<Longrightarrow> nnf_pure (simplify_prop fx p)"
proof (induction p)
  case (Prop_And ps)
  have "\<forall>p \<in> set (concat (map operands_and (map (simplify_prop fx) ps))). nnf_pure p"
    using Prop_And operands_pure(1) by fastforce
  then have "nnf_pure (simplify_and fx (map (simplify_prop fx) ps))"
    using simplify_and_cases [of fx "map (simplify_prop fx) ps"] by (auto simp del: set_concat set_map map_map)
  then show ?case by (subst simplify_prop.simps) simp
next
  case (Prop_Or ps)
  have "\<forall>p \<in> set (concat (map operands_or (map (simplify_prop fx) ps))). nnf_pure p"
    using Prop_Or operands_pure(2) by fastforce
  then have "nnf_pure (simplify_or fx (map (simplify_prop fx) ps))"
    using simplify_or_cases [of fx "map (simplify_prop fx) ps"] by (auto simp del: set_concat set_map map_map)
  then show ?case by (subst simplify_prop.simps) simp
next
  case (Prop_Not q)
  then obtain s where "q = Prop_Sym s" by auto
  then show ?case by (simp add: simplify_prop.simps)
qed (simp_all add: simplify_prop.simps)

lemma simplify_prop_clausal: "nnf_top p \<Longrightarrow> clausal (simplify_prop fx p)"
proof (induction p)
  case (Prop_And ps)
  have "\<forall>p \<in> set (concat (map operands_and (map (simplify_prop fx) ps))). conjunct p"
    using Prop_And operands_pure(3) by fastforce
  then have "clausal (simplify_and fx (map (simplify_prop fx) ps))"
    using simplify_and_cases [of fx "map (simplify_prop fx) ps"] conjunct_clausal by (auto simp del: set_concat set_map map_map)
  then show ?case by (subst simplify_prop.simps) simp
next
  case (Prop_Or ps)
  then have "nnf_pure (simplify_prop fx (Prop_Or ps))" using simplify_prop_pure [of "Prop_Or ps"] by simp
  then show ?case by (intro conjunct_clausal nnf_pure_conjunct)
next
  case (Prop_Not q)
  then have "nnf_pure (simplify_prop fx (Prop_Not q))" using simplify_prop_pure [of "Prop_Not q"] by simp
  then show ?case by (intro conjunct_clausal nnf_pure_conjunct)
qed (simp_all add: simplify_prop.simps)

lemma simplify_clausal: "solvable_form p \<Longrightarrow> clausal (simplify fx p)"
  by (simp add: simplify_def simplify_prop_clausal nnf_top_form)

section \<open>Gathering and numbering symbols\<close>

definition seen_ok :: "nat list \<times> nat set \<Rightarrow> bool" where
  "seen_ok st \<longleftrightarrow> distinct (fst st) \<and> set (fst st) = snd st"

lemma see_symbol_ok: "seen_ok st \<Longrightarrow> seen_ok (see_symbol s st) \<and> snd (see_symbol s st) = insert s (snd st)"
  by (cases st) (auto simp: see_symbol_def seen_ok_def)

lemma see_symbols_ok: "seen_ok st \<Longrightarrow> seen_ok (fold see_symbol ops st) \<and> snd (fold see_symbol ops st) = set ops \<union> snd st"
  by (induction ops arbitrary: st) (auto simp: see_symbol_ok)

lemma gather_into_ok: "seen_ok st \<Longrightarrow> seen_ok (gather_symbols_into p st) \<and> snd (gather_symbols_into p st) = syms p \<union> snd st"
proof (induction p arbitrary: st)
  case (Prop_And ops)
  then show ?case by (induction ops arbitrary: st) auto
next
  case (Prop_Or ops)
  then show ?case by (induction ops arbitrary: st) auto
qed (auto simp: see_symbol_ok see_symbols_ok)

lemma gather_symbols_ok: "distinct (gather_symbols p)" "set (gather_symbols p) = syms p"
  using gather_into_ok [of "([], {})" p] by (auto simp: gather_symbols_def seen_ok_def)

definition numbered :: "nat list \<Rightarrow> symbol_mapping \<Rightarrow> bool" where
  "numbered ss m \<longleftrightarrow>
     (\<forall>s v. sym_lit m s = Some v \<longleftrightarrow> (\<exists>i < length ss. ss ! i = s \<and> v = int (i + 1))) \<and>
     (\<forall>s v. Mapping.lookup (sym_for_var m) v = Some s \<longleftrightarrow> sym_lit m s = Some v) \<and>
     mapping_size m = int (length ss) \<and> set (relevant m) = {1..int (length ss)}"

lemma number_symbols_ok:
  assumes "distinct ss" "number_symbols ss = (vs, rs)"
  shows "(\<forall>s v. Mapping.lookup vs s = Some v \<longleftrightarrow> (\<exists>i < length ss. ss ! i = s \<and> v = int (i + 1))) \<and>
    (\<forall>s v. Mapping.lookup rs v = Some s \<longleftrightarrow> (\<exists>i < length ss. ss ! i = s \<and> v = int (i + 1))) \<and>
    Mapping.keys vs = set ss \<and> Mapping.keys rs = {1..int (length ss)}"
  using assms
proof (induction ss arbitrary: vs rs rule: rev_induct)
  case Nil
  then show ?case by (simp add: number_symbols_def)
next
  case (snoc x ss)
  obtain vs' rs' where n: "number_symbols ss = (vs', rs')" by fastforce
  have e: "vs = Mapping.update x (int (length ss + 1)) vs'" "rs = Mapping.update (int (length ss + 1)) x rs'"
    using snoc.prems(2) n by (simp_all add: number_symbols_def enumerate_append_eq)
  have d: "distinct ss" "x \<notin> set ss" using snoc.prems(1) by simp_all
  note IH = snoc.IH [OF d(1) n]
  have k: "insert (int (length ss + 1)) {1..int (length ss)} = {1..int (length ss + 1)}" by auto
  have "Mapping.lookup vs s = Some v \<longleftrightarrow> (\<exists>i < length (ss @ [x]). (ss @ [x]) ! i = s \<and> v = int (i + 1))" for s v
    using IH d(2) by (auto simp: e lookup_update' nth_append less_Suc_eq)
  moreover have "Mapping.lookup rs v = Some s \<longleftrightarrow> (\<exists>i < length (ss @ [x]). (ss @ [x]) ! i = s \<and> v = int (i + 1))" for s v
    using IH by (auto simp: e lookup_update' nth_append less_Suc_eq)
  ultimately show ?case using IH k by (simp add: e)
qed

lemma symbol_mapping_numbered:
  assumes "distinct ss"
  shows "numbered ss (symbol_mapping_new ss)"
proof -
  obtain vs rs where n: "number_symbols ss = (vs, rs)" by fastforce
  note ok = number_symbols_ok [OF assms n]
  have "abs ` {1..int (length ss)} = {1..int (length ss)}" by force
  moreover have "finite (Mapping.keys rs)" using ok by simp
  ultimately have "set (remdups_adj (sort (map abs (Mapping.ordered_keys rs)))) = {1..int (length ss)}"
    using ok by (simp add: Mapping.ordered_keys_def)
  then show ?thesis
    using ok distinct_card [OF assms] by (auto simp: numbered_def symbol_mapping_new_def n sym_lit_def mapping_size_def Mapping.size_def)
qed

end
