(* ===== verification/PatmatSolve.thy ===== *)
theory PatmatSolve
  imports PatmatForms
begin

text \<open>
  The solver as a whole: the clauses of a proposition are equisatisfiable with it, \<open>has_model\<close> decides it,
  and \<open>find_all_models\<close> enumerates its models.
\<close>

section \<open>Conversion of one proposition\<close>

abbreviation meaning :: "(nat \<Rightarrow> nat \<Rightarrow> bool) \<Rightarrow> symbol_mapping \<Rightarrow> (int \<Rightarrow> bool) \<Rightarrow> prp \<Rightarrow> bool" where
  "meaning e m V p \<equiv> holds e (sym_value m V) p"

lemma agree_here: "Q V \<Longrightarrow> \<exists>W. agree n V W \<and> Q W"
  using agree_refl by blast

definition known :: "symbol_mapping \<Rightarrow> prp \<Rightarrow> bool" where
  "known m p \<longleftrightarrow> (\<forall>s \<in> syms p. sym_lit m s \<noteq> None)"

lemma known_simps [simp]:
  "known m (Prop_And ops) \<longleftrightarrow> (\<forall>p \<in> set ops. known m p)" "known m (Prop_Or ops) \<longleftrightarrow> (\<forall>p \<in> set ops. known m p)"
  "known m (Prop_Not p) \<longleftrightarrow> known m p" "known m (Prop_Sym s) \<longleftrightarrow> (\<exists>l. sym_lit m s = Some l)"
  "known m Prop_True" "known m Prop_False" "known m (Prop_Eq x c)"
  by (auto simp: known_def)

lemma known_those: "known m (Prop_AtMostOne ops) \<Longrightarrow> \<exists>ls. those (map (sym_lit m) ops) = Some ls"
  by (induction ops) (auto simp: known_def)

lemma meaning_agree:
  "\<lbrakk>transformer_ok D t; agree (literal_count t) V W\<rbrakk> \<Longrightarrow> meaning e (tmapping t) V p = meaning e (tmapping t) W p"
  using sym_value_agree by metis

lemma gate_after:
  assumes ext: "extends D t t1"
    and P: "\<And>V. cnf_true V (D @ buff t) \<Longrightarrow> \<exists>W. agree (literal_count t) V W \<and> cnf_true W (D @ buff t1) \<and> P W = Q V"
    and Q: "\<And>V. \<lbrakk>cnf_true V (D @ buff t1); P V\<rbrakk> \<Longrightarrow> Q V"
    and g: "gate D t1 l t2 P"
  shows "gate D t l t2 Q"
proof -
  from g have g1: "extends D t1 t2" "l \<noteq> 0" "abs l \<le> literal_count t2"
    "\<And>V. \<lbrakk>cnf_true V (D @ buff t2); lit_true V l\<rbrakk> \<Longrightarrow> P V"
    "\<And>V. cnf_true V (D @ buff t1) \<Longrightarrow> \<exists>W. agree (literal_count t1) V W \<and> cnf_true W (D @ buff t2) \<and> lit_true W l = P V"
    by (auto simp only: gate_def)
  have "\<exists>W. agree (literal_count t) V W \<and> cnf_true W (D @ buff t2) \<and> lit_true W l = Q V" if V: "cnf_true V (D @ buff t)" for V
  proof -
    obtain U where U: "agree (literal_count t) V U" "cnf_true U (D @ buff t1)" "P U = Q V" using P [OF V] by blast
    obtain W where "agree (literal_count t1) U W" "cnf_true W (D @ buff t2)" "lit_true W l = P U" using g1(5) [OF U(2)] by blast
    then show ?thesis using agree_trans [OF U(1) _ extendsD(3) [OF ext]] U(3) by blast
  qed
  then show ?thesis
    unfolding gate_def using extends_trans [OF ext g1(1)] g1(2-4) Q extendsD(4) [OF g1(1)] by blast
qed

text \<open>The literals of a list of operands, and what each stands for.\<close>

definition operand_gates where
  "operand_gates e D t fv ls t' \<longleftrightarrow> extends D t t' \<and> lits_ok t' ls \<and>
     (\<forall>V. cnf_true V (D @ buff t') \<longrightarrow> list_all2 (\<lambda>l p. lit_true V l \<longrightarrow> meaning e (tmapping t) V p) ls fv) \<and>
     (\<forall>V. cnf_true V (D @ buff t) \<longrightarrow> (\<exists>W. agree (literal_count t) V W \<and> cnf_true W (D @ buff t') \<and>
        list_all2 (\<lambda>l p. lit_true W l = meaning e (tmapping t) V p) ls fv))"

lemma convert_all_gates:
  assumes "\<And>p t. \<lbrakk>p \<in> set fv; transformer_ok D t; known (tmapping t) p\<rbrakk> \<Longrightarrow>
      \<exists>l t'. convert p t = Some (Some l, t') \<and> gate D t l t' (\<lambda>V. meaning e (tmapping t) V p)"
    and "transformer_ok D t" "\<forall>p \<in> set fv. known (tmapping t) p"
  shows "\<exists>ls t'. operand_gates e D t fv ls t' \<and>
    (\<forall>out. \<exists>out'. convert_all fv out t = Some (out', t') \<and> set out' = set out \<union> set ls)"
  using assms
proof (induction fv arbitrary: t)
  case Nil
  have "operand_gates e D t [] [] t"
    using extends_refl [OF Nil.prems(2)] by (simp add: operand_gates_def lits_ok_def agree_here del: cnf_true_simps)
  then show ?case by (intro exI [of _ "[]"] exI [of _ t]) simp
next
  case (Cons f fv)
  obtain l t1 where f: "convert f t = Some (Some l, t1)" "gate D t l t1 (\<lambda>V. meaning e (tmapping t) V f)"
    using Cons.prems by fastforce
  then have e1: "extends D t t1" by (simp only: gate_def)
  have ok1: "transformer_ok D t1" and m1: "tmapping t1 = tmapping t" using extendsD [OF e1] by auto
  obtain ls t2 where r: "operand_gates e D t1 fv ls t2"
    "\<And>out. \<exists>out'. convert_all fv out t1 = Some (out', t2) \<and> set out' = set out \<union> set ls"
    using Cons.IH [OF _ ok1] Cons.prems m1 by force
  then have e2: "extends D t1 t2" by (simp only: operand_gates_def)
  have "operand_gates e D t (f # fv) (l # ls) t2"
    unfolding operand_gates_def
  proof (intro conjI allI impI)
    show "extends D t t2" using extends_trans [OF e1 e2] .
    show "lits_ok t2 (l # ls)" using f(2) r(1) extendsD(3) [OF e2] by (auto simp: gate_def operand_gates_def lits_ok_def)
    fix V
    show "list_all2 (\<lambda>l p. lit_true V l \<longrightarrow> meaning e (tmapping t) V p) (l # ls) (f # fv)" if V: "cnf_true V (D @ buff t2)"
      using f(2) r(1) V extendsD(4) [OF e2 V] m1 unfolding gate_def operand_gates_def by (simp del: cnf_true_simps)
    show "\<exists>W. agree (literal_count t) V W \<and> cnf_true W (D @ buff t2) \<and>
        list_all2 (\<lambda>l p. lit_true W l = meaning e (tmapping t) V p) (l # ls) (f # fv)" if V: "cnf_true V (D @ buff t)"
    proof -
      obtain U where U: "agree (literal_count t) V U" "cnf_true U (D @ buff t1)" "lit_true U l = meaning e (tmapping t) V f"
        using f(2) V unfolding gate_def by blast
      obtain W where W: "agree (literal_count t1) U W" "cnf_true W (D @ buff t2)"
        "list_all2 (\<lambda>l p. lit_true W l = meaning e (tmapping t1) U p) ls fv"
        using r(1) U(2) unfolding operand_gates_def by blast
      have "lit_true W l = lit_true U l" using agree_lit [OF W(1)] f(2) unfolding gate_def by simp
      moreover have "meaning e (tmapping t1) U p = meaning e (tmapping t) V p" for p
        using meaning_agree [OF Cons.prems(2) U(1)] m1 by simp
      ultimately show ?thesis using agree_trans [OF U(1) W(1) extendsD(3) [OF e1]] W(2,3) U(3) by auto
    qed
  qed
  moreover have "\<exists>out'. convert_all (f # fv) out t = Some (out', t2) \<and> set out' = set out \<union> set (l # ls)" for out
    using r(2) [of "if l \<in> set out then out else out @ [l]"] f(1) by (auto split: if_splits)
  ultimately show ?case by blast
qed

lemma operand_gatesD:
  assumes "operand_gates e D t fv ls t'"
  shows "extends D t t'" "lits_ok t' ls"
    "\<And>V. cnf_true V (D @ buff t') \<Longrightarrow> list_all2 (\<lambda>l p. lit_true V l \<longrightarrow> meaning e (tmapping t) V p) ls fv"
    "\<And>V. cnf_true V (D @ buff t) \<Longrightarrow> \<exists>W. agree (literal_count t) V W \<and> cnf_true W (D @ buff t') \<and>
        list_all2 (\<lambda>l p. lit_true W l = meaning e (tmapping t) V p) ls fv"
  using assms by (auto simp only: operand_gates_def)

lemma list_all2_quantified:
  "list_all2 (\<lambda>l p. P l \<longrightarrow> Q p) ls ps \<Longrightarrow> (\<forall>l \<in> set ls. P l) \<longrightarrow> (\<forall>p \<in> set ps. Q p)"
  "list_all2 (\<lambda>l p. P l \<longrightarrow> Q p) ls ps \<Longrightarrow> (\<exists>l \<in> set ls. P l) \<longrightarrow> (\<exists>p \<in> set ps. Q p)"
  "list_all2 (\<lambda>l p. P l = Q p) ls ps \<Longrightarrow> (\<forall>l \<in> set ls. P l) = (\<forall>p \<in> set ps. Q p)"
  "list_all2 (\<lambda>l p. P l = Q p) ls ps \<Longrightarrow> (\<exists>l \<in> set ls. P l) = (\<exists>p \<in> set ps. Q p)"
  by (induction ls ps rule: list_all2_induct; simp; blast)+

lemma lits_ok_cong: "set out = set ls \<Longrightarrow> lits_ok t out = lits_ok t ls"
  by (simp add: lits_ok_def)

lemma convert_gate:
  "\<lbrakk>nnf_pure p; transformer_ok D t; known (tmapping t) p\<rbrakk> \<Longrightarrow>
    \<exists>l t'. convert p t = Some (Some l, t') \<and> gate D t l t' (\<lambda>V. meaning e (tmapping t) V p)"
proof (induction p arbitrary: t)
  case (Prop_And fv)
  obtain ls t1 out where g: "operand_gates e D t fv ls t1" "convert_all fv [] t = Some (out, t1)" "set out = set ls"
    using convert_all_gates [of fv D e t] Prop_And by fastforce
  note gD = operand_gatesD [OF g(1)]
  obtain l t2 where c: "conv_and out t1 = (l, t2)" by fastforce
  note a = conv_and_gate [OF extendsD(1) [OF gD(1)] _ c, unfolded lits_ok_cong [OF g(3)] g(3), OF gD(2)]
  have "gate D t l t2 (\<lambda>V. meaning e (tmapping t) V (Prop_And fv))"
    unfolding holds.simps
  proof (rule gate_after [OF gD(1) _ _ a])
    show "\<exists>W. agree (literal_count t) V W \<and> cnf_true W (D @ buff t1) \<and>
        (\<forall>b \<in> set ls. lit_true W b) = (\<forall>p \<in> set fv. meaning e (tmapping t) V p)" if "cnf_true V (D @ buff t)" for V
      using gD(4) [OF that] list_all2_quantified(3) by blast
    show "\<forall>p \<in> set fv. meaning e (tmapping t) V p" if "cnf_true V (D @ buff t1)" "\<forall>b \<in> set ls. lit_true V b" for V
      using list_all2_quantified(1) [OF gD(3) [OF that(1)]] that(2) by blast
  qed
  then show ?case using g(2) c by simp
next
  case (Prop_Or fv)
  obtain ls t1 out where g: "operand_gates e D t fv ls t1" "convert_all fv [] t = Some (out, t1)" "set out = set ls"
    using convert_all_gates [of fv D e t] Prop_Or by fastforce
  note gD = operand_gatesD [OF g(1)]
  obtain l t2 where c: "conv_or out t1 = (l, t2)" by fastforce
  note a = conv_or_gate [OF extendsD(1) [OF gD(1)] _ c, unfolded lits_ok_cong [OF g(3)] g(3), OF gD(2)]
  have "gate D t l t2 (\<lambda>V. meaning e (tmapping t) V (Prop_Or fv))"
    unfolding holds.simps
  proof (rule gate_after [OF gD(1) _ _ a])
    show "\<exists>W. agree (literal_count t) V W \<and> cnf_true W (D @ buff t1) \<and>
        (\<exists>b \<in> set ls. lit_true W b) = (\<exists>p \<in> set fv. meaning e (tmapping t) V p)" if "cnf_true V (D @ buff t)" for V
      using gD(4) [OF that] list_all2_quantified(4) by blast
    show "\<exists>p \<in> set fv. meaning e (tmapping t) V p" if "cnf_true V (D @ buff t1)" "\<exists>b \<in> set ls. lit_true V b" for V
      using list_all2_quantified(2) [OF gD(3) [OF that(1)]] that(2) by blast
  qed
  then show ?case using g(2) c by simp
next
  case (Prop_Not q)
  then obtain s l where s: "q = Prop_Sym s" "sym_lit (tmapping t) s = Some l" by auto
  note l = sym_litD [OF Prop_Not.prems(2) s(2)]
  have "gate D t (- l) t (\<lambda>V. meaning e (tmapping t) V (Prop_Not q))"
    using l s by (intro single_gate [OF Prop_Not.prems(2)]) (auto simp: sym_value_def)
  then show ?case using s by (simp add: lit_neg_def)
next
  case (Prop_Sym s)
  then obtain l where s: "sym_lit (tmapping t) s = Some l" by auto
  note l = sym_litD [OF Prop_Sym.prems(2) s]
  have "gate D t l t (\<lambda>V. meaning e (tmapping t) V (Prop_Sym s))"
    using l s by (intro single_gate [OF Prop_Sym.prems(2)]) (auto simp: sym_value_def)
  then show ?case using s by simp
next
  case Prop_True
  obtain l t' where "const_true t = (l, t')" by fastforce
  then show ?case using const_gates(1) [OF Prop_True(2)] by simp
next
  case Prop_False
  obtain l t' where "const_false t = (l, t')" by fastforce
  then show ?case using const_gates(2) [OF Prop_False(2)] by simp
qed auto

section \<open>Handing clauses over\<close>

definition hands_over ::
  "clause list \<Rightarrow> transformer \<Rightarrow> clause list \<Rightarrow> transformer \<Rightarrow> ((int \<Rightarrow> bool) \<Rightarrow> bool) \<Rightarrow> bool" where
  "hands_over D t cs t' P \<longleftrightarrow> buff t' = [] \<and> transformer_ok (D @ cs) t' \<and> tmapping t' = tmapping t \<and>
     literal_count t \<le> literal_count t' \<and> (\<forall>V. cnf_true V (D @ cs) \<longrightarrow> P V) \<and>
     (\<forall>V. cnf_true V D \<and> P V \<longrightarrow> (\<exists>W. agree (literal_count t) V W \<and> cnf_true W (D @ cs)))"

lemma take_buff_ok: "transformer_ok D t \<Longrightarrow> transformer_ok (D @ buff t) (t\<lparr>buff := []\<rparr>)"
  by (simp add: transformer_ok_def)

lemma gate_hands_over:
  assumes "gate D t l t1 P" "buff t = []"
  defines "t2 \<equiv> add_clause (clause1 l) t1"
  shows "hands_over D t (buff t2) (t2\<lparr>buff := []\<rparr>) P"
proof -
  from assms(1) have g: "extends D t t1" "l \<noteq> 0" "abs l \<le> literal_count t1"
    "\<And>V. \<lbrakk>cnf_true V (D @ buff t1); lit_true V l\<rbrakk> \<Longrightarrow> P V"
    "\<And>V. cnf_true V (D @ buff t) \<Longrightarrow> \<exists>W. agree (literal_count t) V W \<and> cnf_true W (D @ buff t1) \<and> lit_true W l = P V"
    by (auto simp only: gate_def)
  have "clause_in (literal_count t1) (clause1 l)" using g(2,3) by (simp add: clause_in_def clause_ok_def)
  note a = clause_in_extends [OF extendsD(1) [OF g(1)] this, folded t2_def]
  have c: "cnf_true V (D @ buff t2) \<longleftrightarrow> cnf_true V (D @ buff t1) \<and> lit_true V l" for V
    by (simp add: a(2) clause_true_def)
  have "\<exists>W. agree (literal_count t) V W \<and> cnf_true W (D @ buff t2)" if "cnf_true V D" "P V" for V
    using g(5) [of V] that assms(2) unfolding c by (simp del: cnf_true_simps)
  then show ?thesis
    using take_buff_ok [OF extendsD(1) [OF a(1)]] g(4) a(3,4) extendsD [OF g(1)] c
    by (simp add: hands_over_def del: cnf_true_simps)
qed

lemma enforces_hands_over:
  assumes "enforces D t t1 P" "buff t = []"
  shows "hands_over D t (buff t1) (t1\<lparr>buff := []\<rparr>) P"
  using assms take_buff_ok [of D t1] extendsD [of D t t1] by (auto simp: hands_over_def enforces_def)

lemma transform_hands_over:
  assumes "conjunct p" "transformer_ok D t" "known (tmapping t) p" "buff t = []"
  shows "\<exists>cs t'. transform p t = Some (cs, t') \<and> hands_over D t cs t' (\<lambda>V. meaning e (tmapping t) V p)"
proof (cases "\<exists>ops. p = Prop_AtMostOne ops")
  case True
  then obtain ops ls where p: "p = Prop_AtMostOne ops" "those (map (sym_lit (tmapping t)) ops) = Some ls"
    using known_those assms(3) by blast
  obtain t1 where t1: "at_most_one ops t = Some t1"
    "enforces D t t1 (\<lambda>V. length (filter (sym_value (tmapping t) V) ops) \<le> 1)"
    using at_most_one_correct [OF assms(2) p(2)] by blast
  have "add_clause sempty t1 = t1" by (simp add: add_clause_def sis_empty_def sempty_def)
  then show ?thesis using t1(1) enforces_hands_over [OF t1(2) assms(4)] by (simp add: p(1) transform_def)
next
  case False
  then have "nnf_pure p" using assms(1) by (cases p) auto
  then obtain l t1 where "convert p t = Some (Some l, t1)" "gate D t l t1 (\<lambda>V. meaning e (tmapping t) V p)"
    using convert_gate assms(2,3) by blast
  then show ?thesis using gate_hands_over [of D t l t1] assms(4) by (simp add: transform_def Let_def)
qed

section \<open>Already clauses\<close>

definition mapping_below :: "int \<Rightarrow> symbol_mapping \<Rightarrow> bool" where
  "mapping_below n m \<longleftrightarrow> (\<forall>s l. sym_lit m s = Some l \<longrightarrow> 0 < l \<and> l \<le> n)"

lemma to_literal_correct:
  assumes "mapping_below n m" "known m f"
  shows "\<exists>r. to_literal m f = Some r \<and>
    (\<forall>l V. r = Some l \<longrightarrow> l \<noteq> 0 \<and> abs l \<le> n \<and> lit_true V l = meaning e m V f)"
  using assms
proof (induction f)
  case (Prop_Not f)
  then obtain r where r: "to_literal m f = Some r"
    "\<And>l V. r = Some l \<Longrightarrow> l \<noteq> 0 \<and> abs l \<le> n \<and> lit_true V l = meaning e m V f" by auto
  then show ?case by (cases r) (auto simp: lit_neg_def lit_true_neg)
next
  case (Prop_Sym s)
  then obtain l where "sym_lit m s = Some l" "0 < l" "l \<le> n" by (auto simp: mapping_below_def)
  then show ?case by (simp add: sym_value_def)
qed auto

lemma incl_literals_correct:
  assumes "mapping_below n m" "\<forall>f \<in> set fv. known m f" "sset_ok c" "\<forall>l \<in> sset c. l \<noteq> 0 \<and> abs l \<le> n"
  shows "\<exists>r. incl_literals m fv c = Some r \<and>
    (\<forall>d V. r = Some d \<longrightarrow> sset_ok d \<and> (\<forall>l \<in> sset d. l \<noteq> 0 \<and> abs l \<le> n) \<and>
       clause_true V d = (clause_true V c \<or> (\<exists>f \<in> set fv. meaning e m V f)))"
  using assms
proof (induction fv arbitrary: c)
  case (Cons f fv)
  obtain r where r: "to_literal m f = Some r"
    "\<And>l V. r = Some l \<Longrightarrow> l \<noteq> 0 \<and> abs l \<le> n \<and> lit_true V l = meaning e m V f"
    using to_literal_correct [OF Cons.prems(1), of f e] Cons.prems(2) by auto
  show ?case
  proof (cases r)
    case None
    then show ?thesis using r(1) by simp
  next
    case (Some l)
    note l = r(2) [OF Some]
    have c: "sset_ok (sincl c l)" "sset (sincl c l) = insert l (sset c)" using scala.incl_set [OF Cons.prems(3)] by auto
    then have "clause_true V (sincl c l) \<longleftrightarrow> meaning e m V f \<or> clause_true V c" for V using l by (auto simp: clause_true_def)
    then show ?thesis using Cons.IH [of "sincl c l"] Cons.prems c l r(1) Some by auto
  qed
qed simp

definition clauses_for :: "(nat \<Rightarrow> nat \<Rightarrow> bool) \<Rightarrow> int \<Rightarrow> symbol_mapping \<Rightarrow> clause list \<Rightarrow> (prp \<Rightarrow> bool) \<Rightarrow> bool" where
  "clauses_for e n m cs S \<longleftrightarrow> below n cs \<and> (\<forall>V. cnf_true V cs = (\<forall>f. S f \<longrightarrow> meaning e m V f))"

lemma clause1_for: "\<lbrakk>l \<noteq> 0; abs l \<le> n; \<And>V. lit_true V l = meaning e m V f\<rbrakk> \<Longrightarrow> clauses_for e n m [clause1 l] ((=) f)"
  by (simp add: clauses_for_def clause_ok_def clause_true_def)

lemma to_disjunction_correct:
  assumes "mapping_below n m" "known m f"
  shows "\<exists>r. to_disjunction m f = Some r \<and> (\<forall>cs. r = Some cs \<longrightarrow> clauses_for e n m cs ((=) f))"
proof -
  obtain r where r: "to_literal m f = Some r"
    "\<And>l V. r = Some l \<Longrightarrow> l \<noteq> 0 \<and> abs l \<le> n \<and> lit_true V l = meaning e m V f"
    using to_literal_correct [OF assms] by blast
  have other: "\<exists>r. map_option (\<lambda>l. [clause1 l]) r = r' \<and> (\<forall>cs. r' = Some cs \<longrightarrow> clauses_for e n m cs ((=) f))"
    if "r' = map_option (\<lambda>l. [clause1 l]) r" for r'
    using r(2) that clause1_for by (cases r) auto
  show ?thesis
  proof (cases f)
    case (Prop_Or fv)
    obtain d where d: "incl_literals m fv sempty = Some d"
      "\<And>c V. d = Some c \<Longrightarrow> sset_ok c \<and> (\<forall>l \<in> sset c. l \<noteq> 0 \<and> abs l \<le> n) \<and>
         clause_true V c = (clause_true V sempty \<or> (\<exists>f \<in> set fv. meaning e m V f))"
      using incl_literals_correct [OF assms(1), of fv sempty e] assms(2) Prop_Or by auto
    have "clauses_for e n m [c] ((=) f)" if "d = Some c" for c
      using d(2) [OF that] by (auto simp: clauses_for_def Prop_Or clause_ok_def) (auto simp: clause_true_def)
    then show ?thesis using d(1) Prop_Or by auto
  next
    case Prop_False
    then show ?thesis by (simp add: clauses_for_def clause_ok_def clause_true_def)
  next
    case Prop_True
    then show ?thesis by (simp add: clauses_for_def)
  qed (use r other in auto)
qed

lemma to_disjunctions_correct:
  assumes "mapping_below n m" "\<forall>f \<in> set fv. known m f" "clauses_for e n m out S"
  shows "\<exists>r. to_disjunctions m fv out = Some r \<and> (\<forall>cs. r = Some cs \<longrightarrow> clauses_for e n m cs (\<lambda>f. S f \<or> f \<in> set fv))"
  using assms
proof (induction fv arbitrary: out S)
  case (Cons f fv)
  obtain r where r: "to_disjunction m f = Some r" "\<And>cs. r = Some cs \<Longrightarrow> clauses_for e n m cs ((=) f)"
    using to_disjunction_correct [OF Cons.prems(1), of f e] Cons.prems(2) by auto
  show ?case
  proof (cases r)
    case None
    then show ?thesis using r(1) by simp
  next
    case (Some cs)
    have "clauses_for e n m (out @ cs) (\<lambda>g. S g \<or> g = f)"
      using Cons.prems(3) r(2) [OF Some] by (auto simp: clauses_for_def)
    from Cons.IH [OF Cons.prems(1) _ this] Cons.prems(2) r(1) Some show ?thesis by (simp add: disj_assoc)
  qed
qed simp

lemma to_cnf_correct:
  assumes "mapping_below n m" "known m f"
  shows "\<exists>r. to_cnf m f = Some r \<and> (\<forall>cs V. r = Some cs \<longrightarrow> below n cs \<and> cnf_true V cs = meaning e m V f)"
proof -
  obtain r where r: "to_disjunction m f = Some r" "\<And>cs. r = Some cs \<Longrightarrow> clauses_for e n m cs ((=) f)"
    using to_disjunction_correct [OF assms] by blast
  show ?thesis
  proof (cases r)
    case (Some cs)
    then show ?thesis using r by (simp add: to_cnf_def clauses_for_def)
  next
    case None
    show ?thesis
    proof (cases "\<exists>fv. f = Prop_And fv")
      case True
      then obtain fv where f: "f = Prop_And fv" by blast
      have "clauses_for e n m [] (\<lambda>_. False)" by (simp add: clauses_for_def)
      from to_disjunctions_correct [OF assms(1) _ this, of fv] obtain q where
        "to_disjunctions m fv [] = Some q" "\<And>cs. q = Some cs \<Longrightarrow> clauses_for e n m cs (\<lambda>g. g \<in> set fv)"
        using assms(2) f by auto
      then show ?thesis using r(1) None by (simp add: f to_cnf_def clauses_for_def Ball_def)
    next
      case False
      then show ?thesis using r(1) None by (cases f) (simp_all add: to_cnf_def)
    qed
  qed
qed

lemma cnf_for_hands_over:
  assumes "conjunct p \<or> to_cnf (tmapping t) p \<noteq> Some None" "transformer_ok D t" "known (tmapping t) p" "buff t = []"
  shows "\<exists>cs t'. cnf_for p t = Some (cs, t') \<and> hands_over D t cs t' (\<lambda>V. meaning e (tmapping t) V p)"
proof -
  have b: "mapping_below (literal_count t) (tmapping t)" using assms(2) by (auto simp: mapping_below_def transformer_ok_def)
  obtain r where r: "to_cnf (tmapping t) p = Some r"
    "\<And>cs V. r = Some cs \<Longrightarrow> below (literal_count t) cs \<and> cnf_true V cs = meaning e (tmapping t) V p"
    using to_cnf_correct [OF b assms(3)] by blast
  show ?thesis
  proof (cases r)
    case None
    then show ?thesis using r(1) transform_hands_over [of p D t e] assms by (auto simp: cnf_for_def)
  next
    case (Some cs)
    have "transformer_ok (D @ cs) t" using r(2) [OF Some] assms(2,4) by (auto simp: transformer_ok_def) blast
    then have "hands_over D t cs t (\<lambda>V. meaning e (tmapping t) V p)"
      using r(2) [OF Some] assms(4) by (auto simp: hands_over_def intro: agree_here)
    then show ?thesis using r(1) Some by (simp add: cnf_for_def)
  qed
qed

lemma cnf_for_all_hands_over:
  assumes "\<forall>p \<in> set props. conjunct p" "transformer_ok D t" "\<forall>p \<in> set props. known (tmapping t) p" "buff t = []"
  shows "\<exists>cs t'. (\<forall>out. cnf_for_all props out t = Some (out @ cs, t')) \<and>
    hands_over D t cs t' (\<lambda>V. \<forall>p \<in> set props. meaning e (tmapping t) V p)"
  using assms
proof (induction props arbitrary: D t)
  case Nil
  have "hands_over D t [] t (\<lambda>V. True)" using Nil.prems by (auto simp: hands_over_def intro: agree_here)
  then show ?case by auto
next
  case (Cons p props)
  obtain cs t1 where p: "cnf_for p t = Some (cs, t1)" "hands_over D t cs t1 (\<lambda>V. meaning e (tmapping t) V p)"
    using cnf_for_hands_over [of p t D e] Cons.prems by auto
  have h1: "buff t1 = []" "transformer_ok (D @ cs) t1" "tmapping t1 = tmapping t" "literal_count t \<le> literal_count t1"
    "\<And>V. cnf_true V (D @ cs) \<Longrightarrow> meaning e (tmapping t) V p"
    "\<And>V. \<lbrakk>cnf_true V D; meaning e (tmapping t) V p\<rbrakk> \<Longrightarrow> \<exists>W. agree (literal_count t) V W \<and> cnf_true W (D @ cs)"
    using p(2) by (auto simp only: hands_over_def)
  obtain ds t2 where q: "\<And>out. cnf_for_all props out t1 = Some (out @ ds, t2)"
    "hands_over (D @ cs) t1 ds t2 (\<lambda>V. \<forall>p \<in> set props. meaning e (tmapping t) V p)"
    using Cons.IH [OF _ h1(2) _ h1(1)] Cons.prems h1(3) by auto
  have h2: "buff t2 = []" "transformer_ok ((D @ cs) @ ds) t2" "tmapping t2 = tmapping t1" "literal_count t1 \<le> literal_count t2"
    "\<And>V. cnf_true V ((D @ cs) @ ds) \<Longrightarrow> \<forall>p \<in> set props. meaning e (tmapping t) V p"
    "\<And>V. \<lbrakk>cnf_true V (D @ cs); \<forall>p \<in> set props. meaning e (tmapping t) V p\<rbrakk> \<Longrightarrow>
       \<exists>W. agree (literal_count t1) V W \<and> cnf_true W ((D @ cs) @ ds)"
    using q(2) by (auto simp only: hands_over_def)
  have "hands_over D t (cs @ ds) t2 (\<lambda>V. \<forall>p \<in> set (p # props). meaning e (tmapping t) V p)"
    unfolding hands_over_def
  proof (intro conjI allI impI)
    fix V
    show "\<forall>p \<in> set (p # props). meaning e (tmapping t) V p" if "cnf_true V (D @ cs @ ds)"
      using h1(5) [of V] h2(5) [of V] that by simp
    show "\<exists>W. agree (literal_count t) V W \<and> cnf_true W (D @ cs @ ds)"
      if V: "cnf_true V D \<and> (\<forall>p \<in> set (p # props). meaning e (tmapping t) V p)"
    proof -
      obtain U where U: "agree (literal_count t) V U" "cnf_true U (D @ cs)" using h1(6) V by auto
      moreover have "\<forall>p \<in> set props. meaning e (tmapping t) U p" using V meaning_agree [OF Cons.prems(2) U(1)] by auto
      ultimately obtain W where "agree (literal_count t1) U W" "cnf_true W ((D @ cs) @ ds)" using h2(6) by blast
      then show ?thesis using agree_trans [OF U(1) _ h1(4)] by auto
    qed
  qed (use h1 h2 in auto)
  moreover have "cnf_for_all (p # props) out t = Some (out @ cs @ ds, t2)" for out using p(1) q(1) by simp
  ultimately show ?case by blast
qed

end
