(* ===== verification/PatmatModels.thy ===== *)
theory PatmatModels
  imports PatmatSolve
begin

text \<open>
  What the clauses of a proposition are worth, and the theorems on \<open>has_model\<close> and \<open>find_all_models\<close>.
\<close>

section \<open>Equisatisfiability\<close>

lemma holds_syms: "\<forall>s \<in> syms p. v s = w s \<Longrightarrow> holds e v p = holds e w p"
proof (induction p)
  case (Prop_AtMostOne ops)
  then have "filter v ops = filter w ops" by (intro filter_cong) auto
  then show ?case by simp
qed auto

lemma clausal_other: "clausal p \<Longrightarrow> (\<And>ops. p \<noteq> Prop_And ops) \<Longrightarrow> conjunct p"
  by (cases p) auto

lemma numbered_below: "numbered ss m \<Longrightarrow> sym_lit m s = Some l \<Longrightarrow> 0 < l \<and> l \<le> mapping_size m"
  by (auto simp: numbered_def)

lemma numbered_known: "numbered ss m \<Longrightarrow> syms p \<subseteq> set ss \<Longrightarrow> known m p"
  unfolding known_def numbered_def by (metis in_set_conv_nth option.discI subsetD)

text \<open>What \<open>eq_free_prop_to_solvable\<close> promises of its result.\<close>

definition solves :: "(nat \<Rightarrow> nat \<Rightarrow> bool) \<Rightarrow> prp \<Rightarrow> solvable \<Rightarrow> bool" where
  "solves e p s \<longleftrightarrow> numbered (gather_symbols p) (solvable_mapping s) \<and> (\<forall>c \<in> set (cnf s). clause_ok c) \<and>
     (\<forall>V. cnf_true V (cnf s) \<longrightarrow> meaning e (solvable_mapping s) V p) \<and>
     (\<forall>V. meaning e (solvable_mapping s) V p \<longrightarrow>
        (\<exists>W. agree (mapping_size (solvable_mapping s)) V W \<and> cnf_true W (cnf s)))"

lemma handed_over_solves:
  assumes "hands_over [] t cs t' (\<lambda>V. meaning e m V q)" "\<And>v. holds e v q = holds e v p"
    "numbered (gather_symbols p) m" "literal_count t = mapping_size m"
  shows "solves e p \<lparr>cnf = cs, solvable_mapping = m\<rparr>"
proof -
  have "below (literal_count t') cs" using assms(1) by (simp add: hands_over_def transformer_ok_def)
  then show ?thesis using assms by (auto simp: solves_def hands_over_def below_def)
qed

lemma solvable_cases:
  assumes "operand_sets p" "solvable_form p"
  shows "if exceeds_size (simplify fx p) then eq_free_prop_to_solvable fx p = Err BudgetExceeded
    else \<exists>s. eq_free_prop_to_solvable fx p = Ok s \<and> (\<forall>e. solves e p s)"
proof (cases "exceeds_size (simplify fx p)")
  case True
  then show ?thesis by (simp add: eq_free_prop_to_solvable_def Let_def)
next
  case False
  let ?q = "simplify fx p"
  define m where "m = symbol_mapping_new (gather_symbols p)"
  define t where "t = \<lparr>tmapping = m, literal_count = mapping_size m, buff = [], true_lit = None\<rparr>"
  have nb: "numbered (gather_symbols p) m" unfolding m_def by (rule symbol_mapping_numbered [OF gather_symbols_ok(1)])
  have eq: "holds e v ?q = holds e v p" for e v using simplify_equivalent [OF assms(1)] by blast
  have ok: "transformer_ok [] t" using nb numbered_below [OF nb] by (auto simp: t_def transformer_ok_def numbered_def)
  have kn: "known m ?q" using numbered_known [OF nb] simplify_syms [of fx p] gather_symbols_ok(2) by blast
  have t: "tmapping t = m" "buff t = []" "literal_count t = mapping_size m" by (simp_all add: t_def)
  have e: "eq_free_prop_to_solvable fx p =
      rbind (unwrap (case ?q of Prop_And props \<Rightarrow> cnf_for_all props [] t | other \<Rightarrow> cnf_for other t))
         (\<lambda>(cs, t). Ok \<lparr>cnf = cs, solvable_mapping = m\<rparr>)"
    unfolding eq_free_prop_to_solvable_def Let_def m_def [symmetric] t_def [symmetric] using False by (simp only: if_False)
  have "\<exists>cs. eq_free_prop_to_solvable fx p = Ok \<lparr>cnf = cs, solvable_mapping = m\<rparr> \<and>
      solves e p \<lparr>cnf = cs, solvable_mapping = m\<rparr>" for e
  proof (cases "\<exists>props. ?q = Prop_And props")
    case True
    then obtain props where q: "?q = Prop_And props" by blast
    have "\<forall>p \<in> set props. conjunct p" using simplify_clausal [OF assms(2), of fx] q by simp
    then obtain cs t' where c: "\<And>out. cnf_for_all props out t = Some (out @ cs, t')"
      "hands_over [] t cs t' (\<lambda>V. \<forall>p \<in> set props. meaning e (tmapping t) V p)"
      using cnf_for_all_hands_over [OF _ ok, of props e] kn q t by auto
    have "solves e p \<lparr>cnf = cs, solvable_mapping = m\<rparr>"
      by (rule handed_over_solves [OF _ eq nb t(3)]) (use c(2) q t(1) in simp)
    then show ?thesis using c(1) [of "[]"] by (simp add: e q)
  next
    case False
    then have "conjunct ?q" using clausal_other simplify_clausal [OF assms(2)] by blast
    then obtain cs t' where c: "cnf_for ?q t = Some (cs, t')" "hands_over [] t cs t' (\<lambda>V. meaning e (tmapping t) V ?q)"
      using cnf_for_hands_over [OF _ ok] kn t by blast
    have "solves e p \<lparr>cnf = cs, solvable_mapping = m\<rparr>"
      by (rule handed_over_solves [OF _ eq nb t(3)]) (use c(2) t(1) in simp)
    moreover have "eq_free_prop_to_solvable fx p = rbind (unwrap (cnf_for ?q t)) (\<lambda>(cs, t). Ok \<lparr>cnf = cs, solvable_mapping = m\<rparr>)"
      using False unfolding e by (cases ?q) auto
    ultimately show ?thesis using c(1) by simp
  qed
  then show ?thesis using False by (metis result.inject(1) solvable.ext_inject)
qed

section \<open>Search on well-formed clauses\<close>

definition assignment_for :: "clause list \<Rightarrow> literal list \<Rightarrow> bool" where
  "assignment_for cs ls \<longleftrightarrow> 0 \<notin> set ls \<and> distinct (map abs ls) \<and> abs ` set ls \<subseteq> clause_vars cs \<and>
     (\<forall>V. (\<forall>l \<in> set ls. lit_true V l) \<longrightarrow> cnf_true V cs)"

lemma find_tseitin_model_correct:
  assumes "\<forall>c \<in> set cs. clause_ok c"
  shows "\<exists>r. find_tseitin_model cs = Some (Ok r) \<and>
    (case r of None \<Rightarrow> \<not> satisfiable cs | Some ls \<Rightarrow> assignment_for cs ls)"
proof -
  have "state_ok (map Some cs, [], None)" using state_okI [of cs None 0 "[]"] assms by simp
  then obtain r where "dpll_loop [(map Some cs, [], None)] = Some (Ok r)" "answers [(map Some cs, [], None)] r"
    using dpll_loop_correct [of "[(map Some cs, [], None)]"] by auto
  then show ?thesis
    by (auto simp: find_tseitin_model_def answers_def completes_def assignment_for_def split: option.splits)
qed

definition valuation_of :: "literal list \<Rightarrow> (int \<Rightarrow> bool) \<Rightarrow> int \<Rightarrow> bool" where
  "valuation_of ls V x = (if x \<in> abs ` set ls then x \<in> set ls else V x)"

lemma valuation_of_true:
  assumes "0 \<notin> set ls" "distinct (map abs ls)" "l \<in> set ls"
  shows "lit_true (valuation_of ls V) l"
proof (cases "0 < l")
  case True
  then have "l \<in> abs ` set ls" using assms(3) by force
  then show ?thesis using True assms(3) by (simp add: lit_true_def valuation_of_def)
next
  case False
  have "- l \<notin> set ls"
  proof
    assume "- l \<in> set ls"
    moreover have "inj_on abs (set ls)" using assms(2) by (simp add: distinct_map)
    ultimately have "- l = l" using assms(3) by (metis abs_minus_cancel inj_onD)
    then show False using assms(1,3) by simp
  qed
  moreover have "- l \<in> abs ` set ls" using False assms(1,3) by force
  ultimately show ?thesis using False by (simp add: lit_true_def valuation_of_def)
qed

lemma assignment_satisfies: "assignment_for cs ls \<Longrightarrow> cnf_true (valuation_of ls V) cs"
  using valuation_of_true by (auto simp: assignment_for_def)

section \<open>Solutions\<close>

definition agrees :: "(nat \<Rightarrow> bool) \<Rightarrow> solution \<Rightarrow> bool" where
  "agrees v sol \<longleftrightarrow> (\<forall>(s, b) \<in> set (model sol). v s = b)"

lemma bind_distinct: "distinct (map fst (bs @ xs)) \<Longrightarrow> foldl bind_symbol bs xs = bs @ xs"
proof (induction xs arbitrary: bs)
  case (Cons x xs)
  have "position (\<lambda>(k, _). k = fst x) bs = None" using Cons.prems by (auto simp: position_None image_iff)
  then have "bind_symbol bs x = bs @ [x]" by (cases x) (simp add: bind_symbol_def)
  then show ?case using Cons.IH [of "bs @ [x]"] Cons.prems by simp
qed simp

lemma sym_for_var_inverse:
  assumes nb: "numbered ss m"
  shows "Mapping.lookup (sym_for_var m) v = Some s \<longleftrightarrow> sym_lit m s = Some v"
  using nb by (simp add: numbered_def)

lemma sym_for_var_relevant:
  assumes nb: "numbered ss m"
  shows "v \<in> set (relevant m) \<longleftrightarrow> (\<exists>s. sym_lit m s = Some v)"
proof -
  have "v \<in> {1..int (length ss)} \<longleftrightarrow> (\<exists>i < length ss. v = int (i + 1))"
    by (auto intro!: exI [of _ "nat (v - 1)"])
  then show ?thesis using nb by (auto simp: numbered_def)
qed

lemma sym_lit_set:
  assumes nb: "numbered ss m"
  shows "(\<exists>v. sym_lit m s = Some v) \<longleftrightarrow> s \<in> set ss"
  using nb by (auto simp: numbered_def in_set_conv_nth)

lemma symbols_distinct:
  assumes nb: "numbered ss m" and d: "distinct (map abs ls)"
  shows "distinct (map fst (List.map_filter (\<lambda>l. map_option (\<lambda>s. (s, lit_positive l)) (Mapping.lookup (sym_for_var m) (lit_variable l))) ls))"
  using d
proof (induction ls)
  case (Cons l ls)
  show ?case
  proof (cases "Mapping.lookup (sym_for_var m) (lit_variable l)")
    case (Some s)
    have "s \<notin> fst ` set (List.map_filter (\<lambda>l. map_option (\<lambda>s. (s, lit_positive l)) (Mapping.lookup (sym_for_var m) (lit_variable l))) ls)"
    proof
      assume "s \<in> fst ` set (List.map_filter (\<lambda>l. map_option (\<lambda>s. (s, lit_positive l)) (Mapping.lookup (sym_for_var m) (lit_variable l))) ls)"
      then obtain k where k: "k \<in> set ls" "Mapping.lookup (sym_for_var m) (lit_variable k) = Some s"
        by (auto simp: List.map_filter_def)
      then have "lit_variable k = lit_variable l" using Some sym_for_var_inverse [OF nb] by (metis option.inject)
      then show False using k(1) Cons.prems by (auto simp: lit_variable_def image_iff)
    qed
    then show ?thesis using Cons Some by (simp add: List.map_filter_simps)
  next
    case None
    then show ?thesis using Cons by (simp add: List.map_filter_simps)
  qed
qed (simp add: List.map_filter_simps)

lemma solution_of_total:
  assumes nb: "numbered ss m" and d: "distinct (map abs ls)"
  shows "\<exists>sol. solution_of m ls = Some sol \<and>
    set (model sol) = {(s, lit_positive l) | s l. l \<in> set ls \<and> sym_lit m s = Some (lit_variable l)} \<and>
    distinct (map fst (model sol)) \<and>
    set (unassigned sol) = {s. \<exists>v. sym_lit m s = Some v \<and> (\<forall>l \<in> set ls. lit_variable l \<noteq> v)}"
proof -
  let ?u = "filter (\<lambda>x. \<not> list_ex (\<lambda>l. lit_variable l = x) ls) (relevant m)"
  let ?f = "\<lambda>l. map_option (\<lambda>s. (s, lit_positive l)) (Mapping.lookup (sym_for_var m) (lit_variable l))"
  have "\<forall>x \<in> set (relevant m). \<exists>s. Mapping.lookup (sym_for_var m) x = Some s"
    using sym_for_var_relevant [OF nb] sym_for_var_inverse [OF nb] by blast
  then have u: "map (Mapping.lookup (sym_for_var m)) ?u = map Some (map (\<lambda>x. the (Mapping.lookup (sym_for_var m) x)) ?u)" by auto
  have us: "set (map (\<lambda>x. the (Mapping.lookup (sym_for_var m) x)) ?u) = {s. \<exists>v. sym_lit m s = Some v \<and> (\<forall>l \<in> set ls. lit_variable l \<noteq> v)}"
    (is "?l = ?r")
  proof
    show "?l \<subseteq> ?r"
    proof
      fix s assume "s \<in> ?l"
      then obtain x where "x \<in> set (relevant m)" "\<forall>l \<in> set ls. lit_variable l \<noteq> x" "s = the (Mapping.lookup (sym_for_var m) x)"
        by (auto simp: list_ex_iff)
      moreover obtain s' where "sym_lit m s' = Some x" using calculation(1) sym_for_var_relevant [OF nb] by blast
      ultimately show "s \<in> ?r" using sym_for_var_inverse [OF nb, of x s'] by auto
    qed
    show "?r \<subseteq> ?l"
    proof
      fix s assume "s \<in> ?r"
      then obtain v where v: "sym_lit m s = Some v" "\<forall>l \<in> set ls. lit_variable l \<noteq> v" by blast
      then have "v \<in> set ?u" "s = the (Mapping.lookup (sym_for_var m) v)"
        using sym_for_var_relevant [OF nb] sym_for_var_inverse [OF nb, of v s] by (auto simp: list_ex_iff)
      then show "s \<in> ?l" by (simp only: set_map image_iff) blast
    qed
  qed
  have m: "set (List.map_filter ?f ls) = {(s, lit_positive l) | s l. l \<in> set ls \<and> sym_lit m s = Some (lit_variable l)}"
    using sym_for_var_inverse [OF nb] by (force simp: List.map_filter_def)
  have "solution_of m ls = Some \<lparr>model = List.map_filter ?f ls, unassigned = map (\<lambda>x. the (Mapping.lookup (sym_for_var m) x)) ?u\<rparr>"
    using bind_distinct [of "[]"] symbols_distinct [OF nb d] u by (simp add: solution_of_def Let_def those_Some [THEN iffD2, OF u])
  then show ?thesis using m us symbols_distinct [OF nb d] by simp
qed

lemma blocking_clause_ok:
  assumes nz: "0 \<notin> set ls"
  shows "clause_ok (blocking_clause m ls)"
  "clause_true V (blocking_clause m ls) \<longleftrightarrow> (\<exists>l \<in> set ls. abs l \<in> set (relevant m) \<and> \<not> lit_true V l)"
  using nz by (auto simp: blocking_clause_def clause_ok_def slist_from_ok lit_neg_def lit_variable_def clause_true_def)
    (metis lit_true_neg)+

lemma agrees_blocking:
  assumes nb: "numbered ss m" and nz: "0 \<notin> set ls" and d: "distinct (map abs ls)" and "solution_of m ls = Some sol"
  shows "agrees (sym_value m V) sol \<longleftrightarrow> \<not> clause_true V (blocking_clause m ls)"
proof -
  have "agrees (sym_value m V) sol \<longleftrightarrow> (\<forall>l \<in> set ls. \<forall>s. sym_lit m s = Some (abs l) \<longrightarrow> sym_value m V s = lit_positive l)"
  proof -
    have m: "set (model sol) = {(s, lit_positive l) | s l. l \<in> set ls \<and> sym_lit m s = Some (abs l)}"
      using solution_of_total [OF nb d] assms(4) by (simp add: lit_variable_def)
    show ?thesis unfolding agrees_def m by blast
  qed
  also have "\<dots> \<longleftrightarrow> (\<forall>l \<in> set ls. abs l \<in> set (relevant m) \<longrightarrow> lit_true V l)"
  proof -
    have "(sym_value m V s = lit_positive l) = lit_true V l" if "l \<in> set ls" "sym_lit m s = Some (abs l)" for l s
      using that nz by (auto simp: sym_value_def lit_positive_def lit_true_def)
    then show ?thesis using sym_for_var_relevant [OF nb] by blast
  qed
  finally show ?thesis using blocking_clause_ok(2) [OF nz, of V m] by blast
qed

section \<open>Enumeration\<close>

definition good_solution :: "clause list \<Rightarrow> nat list \<Rightarrow> symbol_mapping \<Rightarrow> solution \<Rightarrow> bool" where
  "good_solution cs ss m sol \<longleftrightarrow>
     (\<forall>V. agrees (sym_value m V) sol \<longrightarrow> (\<exists>W. (\<forall>x \<in> {1..int (length ss)}. W x = V x) \<and> cnf_true W cs)) \<and>
     distinct (map fst (model sol)) \<and> fst ` set (model sol) \<inter> set (unassigned sol) = {} \<and>
     fst ` set (model sol) \<union> set (unassigned sol) = set ss"

lemma found_good:
  assumes nb: "numbered ss m" and ls: "assignment_for ds ls" "\<And>V. cnf_true V ds \<Longrightarrow> cnf_true V cs"
    and sol: "solution_of m ls = Some sol"
  shows "good_solution cs ss m sol"
proof -
  have nz: "0 \<notin> set ls" and d: "distinct (map abs ls)" using ls(1) by (auto simp: assignment_for_def)
  have "\<exists>W. (\<forall>x \<in> {1..int (length ss)}. W x = V x) \<and> cnf_true W cs" if a: "agrees (sym_value m V) sol" for V
  proof (intro exI conjI ballI)
    show "cnf_true (valuation_of ls V) cs" using assignment_satisfies [OF ls(1)] ls(2) by blast
    fix x assume x: "x \<in> {1..int (length ss)}"
    then have rel: "x \<in> set (relevant m)" using nb by (simp add: numbered_def)
    show "valuation_of ls V x = V x"
    proof (cases "x \<in> abs ` set ls")
      case True
      then obtain l where l: "l \<in> set ls" "x = abs l" by blast
      then have "lit_true V l"
        using a agrees_blocking [OF nb nz d sol] blocking_clause_ok(2) [OF nz, of V m] rel by blast
      moreover have "l = abs l \<longleftrightarrow> abs l \<in> set ls"
      proof
        assume "abs l \<in> set ls"
        then show "l = abs l" using l(1) d inj_onD [of abs "set ls" "abs l" l] by (simp add: distinct_map)
      qed (use l(1) in simp)
      ultimately show ?thesis using l True nz by (auto simp: valuation_of_def lit_true_def split: if_splits)
    qed (simp add: valuation_of_def)
  qed
  moreover have m: "set (model sol) = {(s, lit_positive l) | s l. l \<in> set ls \<and> sym_lit m s = Some (lit_variable l)}"
    "distinct (map fst (model sol))" "set (unassigned sol) = {s. \<exists>v. sym_lit m s = Some v \<and> (\<forall>l \<in> set ls. lit_variable l \<noteq> v)}"
    using solution_of_total [OF nb d] sol by auto
  moreover have "fst ` set (model sol) = {s. \<exists>v. sym_lit m s = Some v \<and> (\<exists>l \<in> set ls. lit_variable l = v)}"
    unfolding m(1) by force
  moreover have "set ss = {s. \<exists>v. sym_lit m s = Some v}" using sym_lit_set [OF nb] by auto
  ultimately show ?thesis unfolding good_solution_def by auto
qed

lemma enumerate_correct:
  assumes nb: "numbered ss m" and "\<forall>c \<in> set clauses. clause_ok c"
    and "\<And>V. cnf_true V clauses \<Longrightarrow> cnf_true V cs"
    and "\<And>V. \<lbrakk>cnf_true V cs; \<forall>sol \<in> set models. \<not> agrees (sym_value m V) sol\<rbrakk> \<Longrightarrow> cnf_true V clauses"
    and "\<forall>sol \<in> set models. good_solution cs ss m sol"
  shows "\<exists>ms cut. enumerate_models depth m clauses models = Some (Ok (ms, cut)) \<and>
    (\<forall>sol \<in> set ms. good_solution cs ss m sol) \<and> length ms \<le> length models + depth \<and>
    (cut \<longrightarrow> length ms = length models + depth) \<and>
    (\<not> cut \<longrightarrow> (\<forall>V. cnf_true V cs \<longrightarrow> (\<exists>sol \<in> set ms. agrees (sym_value m V) sol)))"
  using assms(2-)
proof (induction depth arbitrary: clauses models)
  case 0
  then show ?case by auto
next
  case (Suc depth)
  obtain r where r: "find_tseitin_model clauses = Some (Ok r)"
    "case r of None \<Rightarrow> \<not> satisfiable clauses | Some ls \<Rightarrow> assignment_for clauses ls"
    using find_tseitin_model_correct [OF Suc.prems(1)] by blast
  show ?case
  proof (cases r)
    case None
    then have "\<exists>sol \<in> set models. agrees (sym_value m V) sol" if "cnf_true V cs" for V
      using Suc.prems(3) [OF that] r(2) by (auto simp: satisfiable_def)
    then show ?thesis using r(1) None Suc.prems(4) by (intro exI [of _ models] exI [of _ False]) simp
  next
    case (Some ls)
    then have ls: "assignment_for clauses ls" using r(2) by simp
    then have nz: "0 \<notin> set ls" and d: "distinct (map abs ls)" by (auto simp: assignment_for_def)
    obtain sol where sol: "solution_of m ls = Some sol" using solution_of_total [OF nb d] by blast
    have "\<exists>ms cut. enumerate_models depth m (clauses @ [blocking_clause m ls]) (sol # models) = Some (Ok (ms, cut)) \<and>
      (\<forall>sol \<in> set ms. good_solution cs ss m sol) \<and> length ms \<le> length (sol # models) + depth \<and>
      (cut \<longrightarrow> length ms = length (sol # models) + depth) \<and>
      (\<not> cut \<longrightarrow> (\<forall>V. cnf_true V cs \<longrightarrow> (\<exists>sol \<in> set ms. agrees (sym_value m V) sol)))"
    proof (rule Suc.IH)
      show "\<forall>c \<in> set (clauses @ [blocking_clause m ls]). clause_ok c" using Suc.prems(1) blocking_clause_ok(1) [OF nz] by simp
      show "cnf_true V (clauses @ [blocking_clause m ls]) \<Longrightarrow> cnf_true V cs" for V using Suc.prems(2) by simp
      show "cnf_true V (clauses @ [blocking_clause m ls])"
        if "cnf_true V cs" "\<forall>sol \<in> set (sol # models). \<not> agrees (sym_value m V) sol" for V
        using Suc.prems(3) [of V] that agrees_blocking [OF nb nz d sol] by simp
      show "\<forall>sol \<in> set (sol # models). good_solution cs ss m sol"
        using Suc.prems(4) found_good [OF nb ls _ sol] Suc.prems(2) by simp
    qed
    then show ?thesis using r(1) Some sol by simp
  qed
qed

section \<open>The solver decides and enumerates\<close>

lemma solved_valuation:
  assumes "numbered ss m" "set ss = syms p"
  shows "\<exists>V. \<forall>s \<in> syms p. sym_value m V s = v s"
proof (intro exI ballI)
  let ?V = "\<lambda>x. case Mapping.lookup (sym_for_var m) x of Some s \<Rightarrow> v s | None \<Rightarrow> False"
  fix s assume "s \<in> syms p"
  then obtain x where x: "sym_lit m s = Some x" using sym_lit_set [OF assms(1)] assms(2) by blast
  then have "0 < x" using numbered_below [OF assms(1)] by simp
  then show "sym_value m ?V s = v s"
    using x sym_for_var_inverse [OF assms(1), of x s] by (simp add: sym_value_def lit_true_def)
qed

lemma example_size: "\<not> exceeds_size (simplify sum_hasher (Prop_And [Prop_Or [Prop_Sym 1, Prop_Sym 2], Prop_Not (Prop_Sym 1)]))"
  by code_simp

text \<open>
  C28: the conversion never panics; it gives up exactly when the simplified proposition has an operand list
  longer than the budget, and the clauses it returns otherwise are satisfiable exactly when the proposition is.
\<close>
theorem clauses_equisatisfiable:
  assumes "operand_sets p" "solvable_form p"
  shows "case eq_free_prop_to_solvable fx p of
     Ok s \<Rightarrow> \<not> exceeds_size (simplify fx p) \<and> (satisfiable (cnf s) \<longleftrightarrow> (\<exists>v. holds e v p))
   | Err _ \<Rightarrow> exceeds_size (simplify fx p)
   | Panic \<Rightarrow> False"
proof (cases "exceeds_size (simplify fx p)")
  case True
  then show ?thesis using solvable_cases [OF assms, of fx] by simp
next
  case False
  then obtain s where s: "eq_free_prop_to_solvable fx p = Ok s" "solves e p s" using solvable_cases [OF assms, of fx] by auto
  have nb: "numbered (gather_symbols p) (solvable_mapping s)" using s(2) by (simp add: solves_def)
  have "satisfiable (cnf s)" if "holds e v p" for v
  proof -
    obtain V where "\<forall>x \<in> syms p. sym_value (solvable_mapping s) V x = v x"
      using solved_valuation [OF nb gather_symbols_ok(2)] by blast
    then have "meaning e (solvable_mapping s) V p" using that holds_syms by blast
    then show ?thesis using s(2) by (auto simp: solves_def satisfiable_def)
  qed
  moreover have "\<exists>v. holds e v p" if "satisfiable (cnf s)" using that s(2) by (auto simp: solves_def satisfiable_def)
  ultimately show ?thesis using s(1) False by auto
qed

lemma clauses_equisatisfiable_witness:
  "\<exists>s. eq_free_prop_to_solvable sum_hasher (Prop_And [Prop_Or [Prop_Sym 1, Prop_Sym 2], Prop_Not (Prop_Sym 1)]) = Ok s \<and> satisfiable (cnf s)"
proof -
  let ?p = "Prop_And [Prop_Or [Prop_Sym 1, Prop_Sym 2], Prop_Not (Prop_Sym 1)]"
  have "\<exists>v. holds (\<lambda>_ _. False) v ?p" by (rule exI [of _ "\<lambda>s. s = 2"]) simp
  then show ?thesis
    using clauses_equisatisfiable [of ?p sum_hasher "\<lambda>_ _. False"] example_size by (auto split: result.splits)
qed

text \<open>
  C4: \<open>has_model\<close> returns, and its answer is whether some assignment of the symbols satisfies the proposition:
  the search over the explicit stack ends, finds a model when there is one and none otherwise.
\<close>
theorem has_model_decides:
  assumes "operand_sets p" "solvable_form p" "eq_free_prop_to_solvable fx p = Ok s"
  shows "has_model s = Some (Ok (\<exists>v. holds e v p))"
proof -
  have sat: "satisfiable (cnf s) \<longleftrightarrow> (\<exists>v. holds e v p)"
    using clauses_equisatisfiable [OF assms(1,2), of fx e] assms(3) by simp
  have "solves e p s" using solvable_cases [OF assms(1,2), of fx] assms(3) by (auto split: if_splits)
  then obtain r where "find_tseitin_model (cnf s) = Some (Ok r)"
    "case r of None \<Rightarrow> \<not> satisfiable (cnf s) | Some ls \<Rightarrow> assignment_for (cnf s) ls"
    using find_tseitin_model_correct [of "cnf s"] by (auto simp: solves_def)
  moreover have "satisfiable (cnf s)" if "assignment_for (cnf s) ls" for ls
    using assignment_satisfies [OF that] by (auto simp: satisfiable_def)
  ultimately show ?thesis using sat by (auto simp: has_model_def split: option.splits)
qed

lemma has_model_decides_witness:
  "\<exists>s. eq_free_prop_to_solvable sum_hasher (Prop_And [Prop_Or [Prop_Sym 1, Prop_Sym 2], Prop_Not (Prop_Sym 1)]) = Ok s \<and>
     has_model s = Some (Ok True)"
proof -
  let ?p = "Prop_And [Prop_Or [Prop_Sym 1, Prop_Sym 2], Prop_Not (Prop_Sym 1)]"
  have "\<exists>v. holds (\<lambda>_ _. False) v ?p" by (rule exI [of _ "\<lambda>s. s = 2"]) simp
  moreover obtain s where "eq_free_prop_to_solvable sum_hasher ?p = Ok s" using solvable_cases [of ?p sum_hasher] example_size by auto
  ultimately show ?thesis using has_model_decides [of ?p sum_hasher s "\<lambda>_ _. False"] by auto
qed

text \<open>
  C5: \<open>find_all_models\<close> returns at most twenty solutions; whatever agrees with a solution satisfies the
  proposition, and unless the depth ran out every satisfying assignment agrees with one of them.  A solution
  names every symbol of the proposition exactly once, in its model or among the unassigned.
\<close>
theorem find_all_models_exact:
  assumes "operand_sets p" "solvable_form p" "eq_free_prop_to_solvable fx p = Ok s"
  shows "\<exists>ms cut. find_all_models s = Some (Ok (ms, cut)) \<and> length ms \<le> 20 \<and> (cut \<longrightarrow> length ms = 20) \<and>
    (\<forall>sol \<in> set ms. \<forall>v. agrees v sol \<longrightarrow> holds e v p) \<and>
    (\<not> cut \<longrightarrow> (\<forall>v. holds e v p \<longrightarrow> (\<exists>sol \<in> set ms. agrees v sol))) \<and>
    (\<forall>sol \<in> set ms. distinct (map fst (model sol)) \<and> fst ` set (model sol) \<inter> set (unassigned sol) = {} \<and>
       fst ` set (model sol) \<union> set (unassigned sol) = syms p)"
proof -
  let ?m = "solvable_mapping s" and ?ss = "gather_symbols p"
  have "solves e p s" using solvable_cases [OF assms(1,2), of fx] assms(3) by (auto split: if_splits)
  then have nb: "numbered ?ss ?m" and ok: "\<forall>c \<in> set (cnf s). clause_ok c"
    and sound: "\<And>V. cnf_true V (cnf s) \<Longrightarrow> meaning e ?m V p"
    and full: "\<And>V. meaning e ?m V p \<Longrightarrow> \<exists>W. agree (mapping_size ?m) V W \<and> cnf_true W (cnf s)"
    by (auto simp: solves_def)
  have sz: "mapping_size ?m = int (length ?ss)" using nb by (simp add: numbered_def)
  obtain ms cut where ms: "find_all_models s = Some (Ok (ms, cut))" "\<forall>sol \<in> set ms. good_solution (cnf s) ?ss ?m sol"
    "length ms \<le> 20" "cut \<longrightarrow> length ms = 20"
    "\<not> cut \<longrightarrow> (\<forall>V. cnf_true V (cnf s) \<longrightarrow> (\<exists>sol \<in> set ms. agrees (sym_value ?m V) sol))"
    using enumerate_correct [OF nb ok, of "cnf s" "[]" MAX_DPLL_DEPTH]
    by (auto simp: find_all_models_def MAX_DPLL_DEPTH_def)
  have vals: "sym_value ?m V x = sym_value ?m W x" if "\<forall>x \<in> {1..int (length ?ss)}. W x = V x" for V W x
    using that numbered_below [OF nb, of x] sz by (auto simp: sym_value_def lit_true_def split: option.split)
  have names: "fst ` set (model sol) \<subseteq> syms p" if "sol \<in> set ms" for sol
    using ms(2) that gather_symbols_ok(2) [of p] by (auto simp: good_solution_def)
  have ag: "agrees v sol = agrees w sol" if "sol \<in> set ms" "\<forall>x \<in> syms p. v x = w x" for sol v w
    using names [OF that(1)] that(2) by (force simp: agrees_def)
  have sound': "holds e v p" if sol: "sol \<in> set ms" and "agrees v sol" for sol v
  proof -
    obtain V where V: "\<forall>x \<in> syms p. sym_value ?m V x = v x" using solved_valuation [OF nb gather_symbols_ok(2)] by blast
    then have "agrees (sym_value ?m V) sol" using ag [OF sol V] that(2) by simp
    moreover have "good_solution (cnf s) ?ss ?m sol" using ms(2) sol by blast
    ultimately obtain W where W: "\<forall>x \<in> {1..int (length ?ss)}. W x = V x" "cnf_true W (cnf s)"
      unfolding good_solution_def by (elim conjE allE [of _ V] impE exE) assumption+
    have "sym_value ?m V x = sym_value ?m W x" for x by (rule vals [OF W(1)])
    then have "meaning e ?m V p = meaning e ?m W p" by (intro holds_syms) simp
    then have "meaning e ?m V p" using sound [OF W(2)] by blast
    then show ?thesis using holds_syms [OF V, of e] by simp
  qed
  have full': "\<exists>sol \<in> set ms. agrees v sol" if nc: "\<not> cut" and h: "holds e v p" for v
  proof -
    obtain V where V: "\<forall>x \<in> syms p. sym_value ?m V x = v x" using solved_valuation [OF nb gather_symbols_ok(2)] by blast
    then have "meaning e ?m V p" using h holds_syms [OF V, of e] by simp
    then obtain W where W: "agree (mapping_size ?m) V W" "cnf_true W (cnf s)" using full by blast
    then obtain sol where "sol \<in> set ms" "agrees (sym_value ?m W) sol" using ms(5) nc by blast
    moreover have "\<forall>x \<in> syms p. sym_value ?m W x = v x"
      using V vals [of W V] W(1) sz by (simp add: agree_def)
    ultimately show ?thesis using ag by blast
  qed
  show ?thesis
    using ms sound' full' gather_symbols_ok(2) [of p] by (intro exI [of _ ms] exI [of _ cut]) (auto simp: good_solution_def)
qed

lemma find_all_models_exact_witness:
  "\<exists>s ms cut. eq_free_prop_to_solvable sum_hasher (Prop_And [Prop_Or [Prop_Sym 1, Prop_Sym 2], Prop_Not (Prop_Sym 1)]) = Ok s \<and>
     find_all_models s = Some (Ok (ms, cut)) \<and> length ms \<le> 20"
proof -
  let ?p = "Prop_And [Prop_Or [Prop_Sym 1, Prop_Sym 2], Prop_Not (Prop_Sym 1)]"
  obtain s where "eq_free_prop_to_solvable sum_hasher ?p = Ok s" using solvable_cases [of ?p sum_hasher] example_size by auto
  then show ?thesis using find_all_models_exact [of ?p sum_hasher s "\<lambda>_ _. False"] by auto
qed

end
