(* ===== verification/SpanLoc.thy ===== *)
theory SpanLoc
  imports Prelude
begin

text \<open>
  \<open>crates/span/src/lib.rs\<close>: source positions.  A position is a byte offset kept in a \<open>u32\<close>; a source file
  keeps the offsets its lines start at, and \<open>loc\<close> finds the line of an offset by bisection.  \<open>None\<close> is a panic:
  an index out of range, a slice inside a character, or an overflow with overflow checks on.
\<close>

section \<open>Spans\<close>

record span =
  sp_lo :: u32
  sp_hi :: u32

definition DUMMY :: span where
  "DUMMY = \<lparr>sp_lo = 0, sp_hi = 0\<rparr>"

definition span_new :: "u32 \<Rightarrow> u32 \<Rightarrow> span" where
  "span_new l h = \<lparr>sp_lo = l, sp_hi = h\<rparr>"

definition is_dummy :: "span \<Rightarrow> bool" where
  "is_dummy s \<longleftrightarrow> sp_lo s = 0 \<and> sp_hi s = 0"

definition span_merge :: "span \<Rightarrow> span \<Rightarrow> span" where
  "span_merge s t =
     (if is_dummy s then t
      else if is_dummy t then s
      else \<lparr>sp_lo = min (sp_lo s) (sp_lo t), sp_hi = max (sp_hi s) (sp_hi t)\<rparr>)"

definition saturating_sub :: "u32 \<Rightarrow> u32 \<Rightarrow> u32" where
  "saturating_sub a b = (if a < b then 0 else a - b)"

definition span_len :: "span \<Rightarrow> u32" where
  "span_len s = saturating_sub (sp_hi s) (sp_lo s)"

section \<open>Source files\<close>

record source_file =
  sf_name :: str
  sf_path :: str
  sf_src :: str
  sf_lines :: "u32 list"

text \<open>The loop of \<open>from_path\<close> over the bytes from index \<open>i\<close> on.\<close>

fun line_starts :: "nat \<Rightarrow> bytes \<Rightarrow> u32 list" where
  "line_starts i [] = []"
| "line_starts i (b # bs) = (if b = 10 then of_nat (i + 1) # line_starts (i + 1) bs else line_starts (i + 1) bs)"

definition from_path :: "str \<Rightarrow> str \<Rightarrow> str \<Rightarrow> source_file" where
  "from_path path name src = \<lparr>sf_name = name, sf_path = path, sf_src = src, sf_lines = 0 # line_starts 0 (as_bytes src)\<rparr>"

definition source_new :: "str \<Rightarrow> str \<Rightarrow> source_file" where
  "source_new name src = from_path name name src"

definition span_text :: "source_file \<Rightarrow> span \<Rightarrow> str option" where
  "span_text sf s =
     (let l = min (unat (sp_lo s)) (str_len (sf_src sf)); h = min (unat (sp_hi s)) (str_len (sf_src sf)) in
      if h < l then Some [] else slice_str (sf_src sf) l h)"

text \<open>\<open>a + b\<close> of \<open>u32\<close>s, with overflow checks.\<close>

definition checked_add32 :: "u32 \<Rightarrow> u32 \<Rightarrow> u32 option" where
  "checked_add32 a b = (if 0xFFFFFFFF < unat a + unat b then None else Some (a + b))"

function loc_loop :: "u32 list \<Rightarrow> u32 \<Rightarrow> nat \<Rightarrow> nat \<Rightarrow> nat option" where
  "loc_loop ls off l h =
     (if l + 1 < h then do {
        let mid = (l + h) div 2;
        s \<leftarrow> idx ls mid;
        (if s \<le> off then loc_loop ls off mid h else loc_loop ls off l mid)
      } else Some l)"
  by pat_completeness auto
termination
  by (relation "measure (\<lambda>(ls, off, l, h). h - l)") auto

declare loc_loop.simps [simp del]

definition loc :: "source_file \<Rightarrow> u32 \<Rightarrow> (u32 \<times> u32) option" where
  "loc sf off = do {
     l \<leftarrow> loc_loop (sf_lines sf) off 0 (length (sf_lines sf));
     line_start \<leftarrow> idx (sf_lines sf) l;
     col \<leftarrow> checked_add32 (saturating_sub off line_start) 1;
     line \<leftarrow> checked_add32 (of_nat l) 1;
     Some (line, col)
   }"

text \<open>\<open>s.strip_suffix(c)\<close>, or \<open>s\<close> itself.\<close>

definition without_suffix :: "rchar \<Rightarrow> str \<Rightarrow> str" where
  "without_suffix c s = (if s \<noteq> [] \<and> last s = c then butlast s else s)"

definition line_text :: "source_file \<Rightarrow> u32 \<Rightarrow> str option" where
  "line_text sf line = do {
     let i = unat (saturating_sub line 1);
     (if length (sf_lines sf) \<le> i then Some []
      else do {
        start \<leftarrow> idx (sf_lines sf) i;
        let stop = (if i + 1 < length (sf_lines sf) then unat (sf_lines sf ! (i + 1)) else str_len (sf_src sf));
        slice \<leftarrow> slice_str (sf_src sf) (min (unat start) (str_len (sf_src sf))) (min stop (str_len (sf_src sf)));
        Some (without_suffix 13 (without_suffix 10 slice))
      })
   }"

definition num_lines :: "source_file \<Rightarrow> nat" where
  "num_lines sf = length (sf_lines sf)"

section \<open>The bisection\<close>

text \<open>Where the lines of a text start, as numbers.\<close>

fun starts :: "nat \<Rightarrow> bytes \<Rightarrow> nat list" where
  "starts i [] = []"
| "starts i (b # bs) = (if b = 10 then (i + 1) # starts (i + 1) bs else starts (i + 1) bs)"

lemma line_starts_map: "line_starts i bs = map of_nat (starts i bs)"
  by (induction bs arbitrary: i) auto

lemma starts_bounds: "x \<in> set (starts i bs) \<Longrightarrow> i < x \<and> x \<le> i + length bs"
  by (induction bs arbitrary: i) (force split: if_splits)+

lemma starts_sorted: "sorted_wrt (<) (starts i bs)"
  by (induction bs arbitrary: i) (auto dest: starts_bounds)

lemma starts_append: "starts i (xs @ ys) = starts i xs @ starts (i + length xs) ys"
  by (induction xs arbitrary: i) auto

lemma starts_length: "length (starts i bs) = count_list bs 10"
  by (induction bs arbitrary: i) auto

text \<open>The line of an offset: as many lines start before it as there are line feeds before it.\<close>

lemma starts_split:
  assumes "n \<le> length bs" "c = count_list (take n bs) 10"
  shows "(i # starts i bs) ! c \<le> i + n" "c + 1 < length (i # starts i bs) \<longrightarrow> i + n < (i # starts i bs) ! (c + 1)" "c < length (i # starts i bs)"
proof -
  have s: "starts i bs = starts i (take n bs) @ starts (i + n) (drop n bs)" and l: "length (starts i (take n bs)) = c"
    using starts_append [of i "take n bs" "drop n bs"] assms by (simp_all add: starts_length)
  show "c < length (i # starts i bs)" by (simp add: s l)
  show "(i # starts i bs) ! c \<le> i + n"
  proof (cases c)
    case (Suc k)
    then have "starts i bs ! k \<in> set (starts i (take n bs))" using l by (simp add: s nth_append)
    then show ?thesis using starts_bounds [of "starts i bs ! k" i "take n bs"] Suc assms(1) by simp
  qed simp
  show "c + 1 < length (i # starts i bs) \<longrightarrow> i + n < (i # starts i bs) ! (c + 1)"
    using l starts_bounds [OF nth_mem, of 0 "i + n" "drop n bs"] by (auto simp: s nth_append)
qed

text \<open>Where that line starts.\<close>

lemma start_of_line:
  "n \<le> length bs \<Longrightarrow>
     (i # starts i bs) ! count_list (take n bs) 10 + length (takeWhile (\<lambda>b. b \<noteq> 10) (rev (take n bs))) = i + n"
proof (induction n)
  case 0
  then show ?case by simp
next
  case (Suc n)
  have t: "take (Suc n) bs = take n bs @ [bs ! n]" using Suc.prems by (simp add: take_Suc_conv_app_nth)
  show ?case
  proof (cases "bs ! n = 10")
    case True
    have "bs = take (Suc n) bs @ drop (Suc n) bs" by simp
    then have "starts i bs = starts i (take n bs) @ [i + n + 1] @ starts (i + n + 1) (drop (Suc n) bs)"
      using starts_append [of i "take (Suc n) bs" "drop (Suc n) bs"] starts_append [of i "take n bs" "[bs ! n]"] Suc.prems True
      by (simp add: t)
    moreover have "length (starts i (take n bs)) = count_list (take n bs) 10" by (rule starts_length)
    ultimately show ?thesis using True by (simp add: t nth_append)
  next
    case False
    then show ?thesis using Suc by (simp add: t)
  qed
qed

lemma loc_loop_finds:
  assumes "sorted_wrt (<) ls" "l < h" "h \<le> length ls" "ls ! l \<le> off" "h < length ls \<longrightarrow> off < ls ! h"
  shows "\<exists>k. loc_loop ls off l h = Some k \<and> k < length ls \<and> ls ! k \<le> off \<and> (k + 1 < length ls \<longrightarrow> off < ls ! (k + 1))"
  using assms
proof (induction ls off l h rule: loc_loop.induct)
  case (1 ls off l h)
  show ?case
  proof (cases "l + 1 < h")
    case True
    let ?m = "(l + h) div 2"
    have m: "l < ?m" "?m < h" using True by simp_all
    show ?thesis
    proof (cases "ls ! ?m \<le> off")
      case le: True
      show ?thesis using 1(1) [OF True refl _ le, of] 1(3-) m le True by (subst loc_loop.simps) (auto simp: idx_def Let_def)
    next
      case False
      show ?thesis using 1(2) [OF True refl _ False] 1(3-) m False True by (subst loc_loop.simps) (auto simp: idx_def Let_def not_le)
    qed
  next
    case False
    then have h: "h = l + 1" using 1(4) by simp
    show ?thesis using 1(3-) False unfolding h by (subst loc_loop.simps) auto
  qed
qed

lemma unique_line:
  assumes "sorted_wrt (<) (ls :: 'a :: linorder list)" "k < length ls" "ls ! k \<le> off" "k + 1 < length ls \<longrightarrow> off < ls ! (k + 1)"
    and "c < length ls" "ls ! c \<le> off" "c + 1 < length ls \<longrightarrow> off < ls ! (c + 1)"
  shows "k = c"
proof (rule ccontr)
  assume "k \<noteq> c"
  then consider "k + 1 \<le> c" | "c + 1 \<le> k" by linarith
  then show False
  proof cases
    case 1
    then have "ls ! (k + 1) \<le> ls ! c" using assms(1,5) by (cases "k + 1 = c") (auto simp: sorted_wrt_iff_nth_less less_imp_le)
    then show False using assms 1 by (meson leD le_trans less_le_trans not_le le_less_trans)
  next
    case 2
    then have "ls ! (c + 1) \<le> ls ! k" using assms(1,2) by (cases "c + 1 = k") (auto simp: sorted_wrt_iff_nth_less less_imp_le)
    then show False using assms 2 by (meson leD le_trans less_le_trans not_le le_less_trans)
  qed
qed

lemma word_of_unat: "unat x = n \<Longrightarrow> (x :: u32) = of_nat n"
  by auto

lemma fits_nth: "list_all (\<lambda>x. x < 2 ^ 32) ns \<Longrightarrow> k < length ns \<Longrightarrow> unat ((map of_nat ns :: u32 list) ! k) = ns ! k"
  by (auto simp: list_all_iff unat_of_nat take_bit_nat_eq_self)

lemma fits_sorted: "list_all (\<lambda>x. x < 2 ^ 32) ns \<Longrightarrow> sorted_wrt (<) ns \<Longrightarrow> sorted_wrt (<) (map of_nat ns :: u32 list)"
  by (induction ns) (auto simp: list_all_iff word_less_nat_alt unat_of_nat take_bit_nat_eq_self)

section \<open>Properties\<close>

text \<open>
  C29: \<open>loc\<close> counts: the line of an offset is one more than the line feeds before it, and its column one more
  than the bytes since the last of them.  Every index of the bisection is in range and nothing overflows, for a
  file whose offsets fit their \<open>u32\<close>.
\<close>

theorem loc_counts_lines:
  assumes "str_len src < 0xFFFFFFFF" "unat off \<le> str_len src"
  shows "loc (source_new name src) off =
    Some (of_nat (count_list (take (unat off) (as_bytes src)) 10 + 1),
          of_nat (length (takeWhile (\<lambda>b. b \<noteq> 10) (rev (take (unat off) (as_bytes src)))) + 1))"
proof -
  let ?bs = "as_bytes src" and ?n = "unat off"
  let ?ls = "0 # starts 0 ?bs" and ?c = "count_list (take ?n ?bs) 10"
  have len: "length ?bs = str_len src" by (simp add: as_bytes_simps)
  have fits: "list_all (\<lambda>x. x < 2 ^ 32) ?ls"
    using assms(1) len by (auto simp: list_all_iff dest!: starts_bounds)
  let ?w = "map of_nat ?ls :: u32 list"
  have lines: "sf_lines (source_new name src) = ?w" by (simp add: source_new_def from_path_def line_starts_map)
  note nth = fits_nth [OF fits]
  have sorted: "sorted_wrt (<) ?ls" using starts_sorted by (auto dest: starts_bounds)
  note sw = fits_sorted [OF fits sorted]
  obtain k where k: "loc_loop ?w off 0 (length ?w) = Some k" "k < length ?w" "?w ! k \<le> off" "k + 1 < length ?w \<longrightarrow> off < ?w ! (k + 1)"
    using loc_loop_finds [OF sw, of 0 "length ?w" off] by auto
  note split = starts_split [of ?n ?bs ?c 0, OF _ refl]
  have "k = ?c"
    using unique_line [OF sorted, of k ?n ?c] k split nth [of k] nth [of "k + 1"] assms(2) len
    by (auto simp: word_le_nat_alt word_less_nat_alt simp del: list.map)
  let ?t = "length (takeWhile (\<lambda>b. b \<noteq> 10) (rev (take ?n ?bs)))"
  have start: "?ls ! ?c + ?t = ?n" using start_of_line [of ?n ?bs 0] assms(2) len by simp
  have c: "?c < length ?ls" "?c \<le> ?n" using split(3) assms(2) len count_le_length [of "take ?n ?bs" 10] by (auto simp: min_absorb2)
  have "saturating_sub off (?w ! ?c) = of_nat ?t"
  proof -
    have "unat (?w ! ?c) \<le> ?n" using nth [OF c(1)] start by simp
    then have "saturating_sub off (?w ! ?c) = off - ?w ! ?c" by (simp add: saturating_sub_def word_less_nat_alt)
    also have "unat \<dots> = ?t" using \<open>unat (?w ! ?c) \<le> ?n\<close> nth [OF c(1)] start by (simp add: unat_sub_if')
    finally show ?thesis by (rule word_of_unat)
  qed
  moreover have "?t < 0xFFFFFFFF" "?c < 0xFFFFFFFF" using start c(2) assms by linarith+
  ultimately show ?thesis
    using k(1) c(1) unfolding loc_def lines \<open>k = ?c\<close>
    by (simp add: idx_def checked_add32_def unat_of_nat take_bit_nat_eq_self del: list.map)
qed

lemma loc_counts_lines_witness:
  "loc (source_new (lit ''t.scala'') [97, 98, 10, 99, 100, 10]) 4 = Some (2, 2)"
  using loc_counts_lines [of "[97, 98, 10, 99, 100, 10]" 4 "lit ''t.scala''"]
  by (simp add: as_bytes_def utf8_char_def len_utf8_def)

end
