(* ===== verification/Report.thy ===== *)
theory Report
  imports SpanLoc "HOL-Library.Product_Lexorder" "HOL-Library.List_Lexorder" "HOL-Library.Sublist"
begin

text \<open>
  \<open>crates/span/src/lib.rs\<close> and \<open>report.rs\<close>: diagnostics, the order they are reported in, which are
  summarised or dropped, and their rendering.  The reporting loop threads a \<open>report\<close>, its local variables.
\<close>

section \<open>Diagnostics\<close>

datatype Level = Error | Warning | Note

datatype Phase =
    Phase_Parser | Phase_Typer | Phase_Refchecks | Phase_Patmat | Phase_Uncurry | Phase_Specialize
  | Phase_ExplicitOuter | Phase_Erasure | Phase_Constructors | Phase_Summary

text \<open>\<open>derive(PartialOrd, Ord)\<close>: the order of declaration.\<close>

fun phase_rank :: "Phase \<Rightarrow> nat" where
  "phase_rank Phase_Parser = 0"
| "phase_rank Phase_Typer = 1"
| "phase_rank Phase_Refchecks = 2"
| "phase_rank Phase_Patmat = 3"
| "phase_rank Phase_Uncurry = 4"
| "phase_rank Phase_Specialize = 5"
| "phase_rank Phase_ExplicitOuter = 6"
| "phase_rank Phase_Erasure = 7"
| "phase_rank Phase_Constructors = 8"
| "phase_rank Phase_Summary = 9"

lemma phase_rank_inject: "phase_rank p = phase_rank q \<longleftrightarrow> p = q"
  by (cases p; cases q) simp_all

instantiation Phase :: linorder
begin

definition less_eq_Phase :: "Phase \<Rightarrow> Phase \<Rightarrow> bool" where
  "less_eq_Phase p q \<longleftrightarrow> phase_rank p \<le> phase_rank q"

definition less_Phase :: "Phase \<Rightarrow> Phase \<Rightarrow> bool" where
  "less_Phase p q \<longleftrightarrow> phase_rank p < phase_rank q"

instance
  by standard (auto simp: less_eq_Phase_def less_Phase_def phase_rank_inject [symmetric])

end

datatype WarnCategory = Cat_Other | Cat_Deprecation str | Cat_Feature

record WarnSettings =
  deprecation :: bool
  feature :: bool
  nowarn :: bool
  fatal_warnings :: bool

record diagnostic =
  d_level :: Level
  d_message :: str
  d_span :: span
  d_file :: nat
  d_notes :: "str list"
  d_phase :: Phase
  d_category :: WarnCategory

definition USIZE_MAX :: nat where
  "USIZE_MAX = 2 ^ 64 - 1"

definition diag_error :: "nat \<Rightarrow> span \<Rightarrow> str \<Rightarrow> diagnostic" where
  "diag_error file s msg =
     \<lparr>d_level = Error, d_message = msg, d_span = s, d_file = file, d_notes = [], d_phase = Phase_Typer, d_category = Cat_Other\<rparr>"

definition diag_warning :: "nat \<Rightarrow> span \<Rightarrow> str \<Rightarrow> diagnostic" where
  "diag_warning file s msg =
     \<lparr>d_level = Warning, d_message = msg, d_span = s, d_file = file, d_notes = [], d_phase = Phase_Typer, d_category = Cat_Other\<rparr>"

definition unpositioned :: "Level \<Rightarrow> str \<Rightarrow> diagnostic" where
  "unpositioned level msg =
     \<lparr>d_level = level, d_message = msg, d_span = DUMMY, d_file = USIZE_MAX, d_notes = [], d_phase = Phase_Summary,
      d_category = Cat_Other\<rparr>"

definition diag_note :: "str \<Rightarrow> diagnostic \<Rightarrow> diagnostic" where
  "diag_note n d = d\<lparr>d_notes := d_notes d @ [n]\<rparr>"

definition in_phase :: "Phase \<Rightarrow> diagnostic \<Rightarrow> diagnostic" where
  "in_phase p d = d\<lparr>d_phase := p\<rparr>"

definition with_category :: "WarnCategory \<Rightarrow> diagnostic \<Rightarrow> diagnostic" where
  "with_category c d = d\<lparr>d_category := c\<rparr>"

section \<open>Numbers and lines as text\<close>

text \<open>\<open>{n}\<close> and \<open>{n:04x}\<close>\<close>

function dec_str :: "nat \<Rightarrow> str" where
  "dec_str n = (if n < 10 then [0x30 + n] else dec_str (n div 10) @ [0x30 + n mod 10])"
  by pat_completeness auto
termination
  by (relation "measure id") auto

declare dec_str.simps [simp del]

definition hex_lower :: "nat \<Rightarrow> rchar" where
  "hex_lower d = (if d < 10 then 0x30 + d else 0x61 + (d - 10))"

definition fmt_04x :: "nat \<Rightarrow> str" where
  "fmt_04x n = [hex_lower (n div 4096 mod 16), hex_lower (n div 256 mod 16), hex_lower (n div 16 mod 16), hex_lower (n mod 16)]"

definition count_elements :: "nat \<Rightarrow> str \<Rightarrow> str" where
  "count_elements n element =
     (if n = 0 then lit ''no '' @ element @ lit ''s''
      else if n = 1 then lit ''1 '' @ element
      else dec_str n @ lit '' '' @ element @ lit ''s'')"

text \<open>\<open>char::is_whitespace\<close>: the Unicode property White_Space.\<close>

definition is_whitespace :: "rchar \<Rightarrow> bool" where
  "is_whitespace c \<longleftrightarrow>
     (9 \<le> c \<and> c \<le> 13) \<or> c \<in> {0x20, 0x85, 0xA0, 0x1680, 0x2028, 0x2029, 0x202F, 0x205F, 0x3000} \<or> (0x2000 \<le> c \<and> c \<le> 0x200A)"

text \<open>\<open>s.split(c)\<close> and \<open>join\<close>\<close>

fun split_char :: "rchar \<Rightarrow> str \<Rightarrow> str list" where
  "split_char ch [] = [[]]"
| "split_char ch (c # s) =
     (if c = ch then [] # split_char ch s
      else case split_char ch s of l # ls \<Rightarrow> (c # l) # ls | [] \<Rightarrow> [[c]])"

fun join_char :: "rchar \<Rightarrow> str list \<Rightarrow> str" where
  "join_char ch [] = []"
| "join_char ch [l] = l"
| "join_char ch (l # ls) = l @ ch # join_char ch ls"

definition trim_end :: "(rchar \<Rightarrow> bool) \<Rightarrow> str \<Rightarrow> str" where
  "trim_end P s = rev (dropWhile P (rev s))"

definition trim_all_trailing_space :: "str \<Rightarrow> str" where
  "trim_all_trailing_space s =
     (let is_ws = (\<lambda>c. is_whitespace c \<and> c \<notin> {0xA0, 0x2007, 0x202F}) in
      join_char 10 (map (trim_end is_ws) (split_char 10 s)))"

definition uable :: "rchar \<Rightarrow> bool" where
  "uable c \<longleftrightarrow> (c < 0x20 \<and> c \<noteq> 9) \<or> c = 0x7F"

definition escape_line :: "str \<Rightarrow> str" where
  "escape_line s =
     (if \<not> list_ex uable s then s
      else concat (map (\<lambda>c. if uable c then chr CHR 0x5C # chr CHR ''u'' # fmt_04x c else [c]) s))"

section \<open>The reporting loop\<close>

definition report_key :: "diagnostic \<Rightarrow> Phase \<times> nat \<times> Phase" where
  "report_key d =
     (case d_phase d of
        Phase_Summary \<Rightarrow> (d_phase d, USIZE_MAX, d_phase d)
      | Phase_Parser \<Rightarrow> (Phase_Typer, d_file d, d_phase d)
      | Phase_Typer \<Rightarrow> (Phase_Typer, d_file d, d_phase d)
      | _ \<Rightarrow> (d_phase d, d_file d, d_phase d))"

definition is_error :: "diagnostic \<Rightarrow> bool" where
  "is_error d \<longleftrightarrow> d_level d = Error"

definition is_warning :: "diagnostic \<Rightarrow> bool" where
  "is_warning d \<longleftrightarrow> d_level d = Warning"

record report =
  r_out :: "diagnostic list"
  r_deprecations :: "(str \<times> nat \<times> span) list"
  r_features :: "(nat \<times> span) list"
  r_shown :: "nat \<times> u32 \<rightharpoonup> Level \<times> str list"

definition report_new :: report where
  "report_new = \<lparr>r_out = [], r_deprecations = [], r_features = [], r_shown = Map.empty\<rparr>"

text \<open>\<open>shown.entry(key).or_insert((level, [])); e.0 = level; e.1.push(message); out.push(d)\<close>\<close>

definition show_at :: "nat \<times> u32 \<Rightarrow> diagnostic \<Rightarrow> report \<Rightarrow> report" where
  "show_at key d r =
     (let msgs = (case r_shown r key of None \<Rightarrow> [] | Some (_, msgs) \<Rightarrow> msgs) in
      r\<lparr>r_shown := (r_shown r)(key \<mapsto> (d_level d, msgs @ [d_message d])), r_out := r_out r @ [d]\<rparr>)"

definition push_out :: "diagnostic \<Rightarrow> report \<Rightarrow> report" where
  "push_out d r = r\<lparr>r_out := r_out r @ [d]\<rparr>"

text \<open>The part of the loop after the warnings that are summarised.\<close>

definition report_positioned :: "diagnostic \<Rightarrow> report \<Rightarrow> report" where
  "report_positioned d r =
     (if is_dummy (d_span d) \<or> d_file d = USIZE_MAX then push_out d r
      else
        let key = (d_file d, sp_lo (d_span d)) in
        case d_level d of
          Error \<Rightarrow> show_at key d r
        | Warning \<Rightarrow>
            if (case r_shown r key of
                  None \<Rightarrow> True
                | Some (Error, _) \<Rightarrow> False
                | Some (Warning, msgs) \<Rightarrow> \<not> list_ex (\<lambda>m. starts_with (d_message d) m) msgs
                | Some (Note, _) \<Rightarrow> True)
            then show_at key d r else r
        | Note \<Rightarrow> push_out d r)"

definition report_step :: "WarnSettings \<Rightarrow> diagnostic \<Rightarrow> report \<Rightarrow> report" where
  "report_step st d r =
     (let key = (d_file d, d_span d) in
      if is_warning d \<and> nowarn st then r
      else case d_category d of
        Cat_Deprecation since \<Rightarrow>
          if is_warning d \<and> \<not> deprecation st then
            (if key \<in> snd ` set (r_deprecations r) then r
             else r\<lparr>r_deprecations := r_deprecations r @ [(since, key)]\<rparr>)
          else report_positioned d r
      | Cat_Feature \<Rightarrow>
          if is_warning d \<and> \<not> feature st then
            (if key \<in> set (r_features r) then r else r\<lparr>r_features := r_features r @ [key]\<rparr>)
          else report_positioned d r
      | Cat_Other \<Rightarrow> report_positioned d r)"

section \<open>The summaries\<close>

text \<open>\<open>*by_since.entry(since).or_default() += 1\<close> of a \<open>BTreeMap\<close>, whose keys are in order.\<close>

fun bump_since :: "str \<Rightarrow> (str \<times> nat) list \<Rightarrow> (str \<times> nat) list" where
  "bump_since k [] = [(k, 1)]"
| "bump_since k ((j, n) # m) =
     (if k < j then (k, 1) # (j, n) # m
      else if k = j then (j, n + 1) # m
      else (j, n) # bump_since k m)"

definition deprecation_summary :: "(str \<times> nat \<times> span) list \<Rightarrow> diagnostic list" where
  "deprecation_summary deprecations =
     (if deprecations = [] then []
      else
        let by_since = foldl (\<lambda>m (since, _). bump_since since m) [] deprecations;
            several = 1 < length by_since;
            rerun = lit ''; re-run with -deprecation for details''
        in
          map (\<lambda>(since, n). unpositioned Warning
                 (count_elements n (lit ''deprecation'') @
                  (if since = [] then [] else lit '' (since '' @ since @ lit '')'') @
                  (if several then [] else rerun))) by_since @
          (if several
           then [unpositioned Warning (count_elements (length deprecations) (lit ''deprecation'') @ lit '' in total'' @ rerun)]
           else []))"

definition feature_summary :: "(nat \<times> span) list \<Rightarrow> diagnostic list" where
  "feature_summary features =
     (if features = [] then []
      else [unpositioned Warning
              (count_elements (length features) (lit ''feature warning'') @ lit ''; re-run with -feature for details'')])"

definition werror :: diagnostic where
  "werror = unpositioned Error (lit ''No warnings can be incurred under -Werror.'')"

definition finish_diagnostics :: "diagnostic list \<Rightarrow> WarnSettings \<Rightarrow> diagnostic list" where
  "finish_diagnostics diags st =
     (let diags = (if list_ex is_error diags then diags else sort_key report_key diags);
          r = fold (report_step st) diags report_new;
          out = r_out r
      in
        if \<not> list_ex is_error out \<and> \<not> nowarn st then
          let out = out @ deprecation_summary (r_deprecations r) @ feature_summary (r_features r) in
          (if fatal_warnings st \<and> list_ex is_warning out then out @ [werror] else out)
        else out)"

section \<open>Rendering\<close>

fun level_str :: "Level \<Rightarrow> str" where
  "level_str Error = lit ''error''"
| "level_str Warning = lit ''warning''"
| "level_str Note = lit ''note''"

text \<open>\<open>Diagnostic::render\<close>\<close>

definition render_diag :: "diagnostic \<Rightarrow> source_file list \<Rightarrow> str option" where
  "render_diag d sources = do {
     let head = level_str (d_level d) @ lit '': '' @ d_message d @ [10];
     body \<leftarrow>
       (if length sources \<le> d_file d then Some []
        else if is_dummy (d_span d) then Some (lit ''  --> '' @ sf_name (sources ! d_file d) @ [10])
        else do {
          let file = sources ! d_file d;
          (line, col) \<leftarrow> loc file (sp_lo (d_span d));
          txt \<leftarrow> line_text file line;
          let line_no = dec_str (unat line);
          let pad = replicate (length line_no) 0x20;
          let caret_col = unat (saturating_sub col 1);
          let width = min (max (unat (span_len (d_span d))) 1) (max (str_len txt - caret_col) 1);
          Some (lit ''  --> '' @ sf_name file @ lit '':'' @ line_no @ lit '':'' @ dec_str (unat col) @ [10] @
                lit ''   '' @ pad @ lit '' |'' @ [10] @
                lit '' '' @ line_no @ lit '' | '' @ txt @ [10] @
                lit ''   '' @ pad @ lit '' | '' @ replicate caret_col 0x20 @ replicate width 0x5E @ [10])
        });
     Some (head @ body @ concat (map (\<lambda>n. lit ''   = note: '' @ n @ [10]) (d_notes d)))
   }"

definition caret_columns :: "str \<Rightarrow> str" where
  "caret_columns before = concat (map (\<lambda>c. if c = 9 then [9] else if c < 0x10000 then [0x20] else [0x20, 0x20]) before)"

fun level_label :: "Level \<Rightarrow> str" where
  "level_label Error = lit ''error: ''"
| "level_label Warning = lit ''warning: ''"
| "level_label Note = []"

definition render_one :: "diagnostic \<Rightarrow> source_file list \<Rightarrow> str option" where
  "render_one d sources = do {
     let msg = level_label (d_level d) @ d_message d @ concat (map (\<lambda>n. 10 # n) (d_notes d));
     text \<leftarrow>
       (if d_file d < length sources \<and> \<not> is_dummy (d_span d) then do {
          let file = sources ! d_file d;
          let l = unat (sp_lo (d_span d));
          (line, col) \<leftarrow> loc file (sp_lo (d_span d));
          content \<leftarrow> line_text file line;
          line_start \<leftarrow> (if l < unat col - 1 \<or> unat col = 0 then None else Some (l - (unat col - 1)));
          let point = min l (str_len (sf_src file));
          let before = (case slice_str (sf_src file) (min line_start point) point of None \<Rightarrow> [] | Some b \<Rightarrow> b);
          Some (sf_name file @ lit '':'' @ dec_str (unat line) @ lit '': '' @ msg @ [10] @ escape_line content @ [10] @
                caret_columns before @ lit ''^'')
        } else Some msg);
     Some (trim_all_trailing_space text)
   }"

fun render_each :: "diagnostic list \<Rightarrow> source_file list \<Rightarrow> str option" where
  "render_each [] sources = Some []"
| "render_each (d # ds) sources = do {
     s \<leftarrow> render_one d sources;
     rest \<leftarrow> render_each ds sources;
     Some (s @ 10 # rest)
   }"

definition render_scalac :: "diagnostic list \<Rightarrow> source_file list \<Rightarrow> str option" where
  "render_scalac diags sources = do {
     s \<leftarrow> render_each diags sources;
     let errors = length (filter is_error diags);
     let warnings = length (filter is_warning diags);
     Some (s @ (if 0 < warnings then count_elements warnings (lit ''warning'') @ [10] else []) @
               (if 0 < errors then count_elements errors (lit ''error'') @ [10] else []))
   }"

fun render_all_each :: "str \<Rightarrow> diagnostic list \<Rightarrow> source_file list \<Rightarrow> str option" where
  "render_all_each s [] sources = Some s"
| "render_all_each s (d # ds) sources = do {
     r \<leftarrow> render_diag d sources;
     let s = s @ r;
     let s = (if s \<noteq> [] \<and> last s = 10 then s else s @ [10]);
     render_all_each (s @ [10]) ds sources
   }"

definition render_all :: "diagnostic list \<Rightarrow> source_file list \<Rightarrow> str option" where
  "render_all diags sources = do {
     s \<leftarrow> render_all_each [] diags sources;
     let errors = length (filter is_error diags);
     let warnings = length (filter is_warning diags);
     Some (if 0 < errors \<or> 0 < warnings
           then s @ dec_str errors @ lit '' error(s), '' @ dec_str warnings @ lit '' warning(s)'' @ [10]
           else s)
   }"

section \<open>What the loop keeps of its state\<close>

lemma warning_not_error: "is_warning d \<Longrightarrow> \<not> is_error d"
  by (simp add: is_error_def is_warning_def)

text \<open>What one diagnostic adds to the output: itself or nothing, and itself when it is an error or a note.\<close>

lemma report_step_out:
  "r_out (report_step st d r) = r_out r \<or> r_out (report_step st d r) = r_out r @ [d]"
  by (auto simp: report_step_def report_positioned_def push_out_def show_at_def Let_def split: WarnCategory.split Level.split)

lemma report_step_keeps: "\<not> is_warning d \<Longrightarrow> r_out (report_step st d r) = r_out r @ [d]"
  by (cases "d_level d")
     (auto simp: report_step_def report_positioned_def push_out_def show_at_def is_warning_def Let_def split: WarnCategory.split)

lemma report_out:
  "\<exists>out. r_out (fold (report_step st) ds r) = r_out r @ out \<and> subseq out ds \<and> filter is_error out = filter is_error ds"
proof (induction ds arbitrary: r)
  case (Cons d ds)
  obtain out where out: "r_out (fold (report_step st) ds (report_step st d r)) = r_out (report_step st d r) @ out"
      "subseq out ds" "filter is_error out = filter is_error ds"
    using Cons.IH by blast
  show ?case
  proof (cases "r_out (report_step st d r) = r_out r @ [d]")
    case True
    then show ?thesis using out by (intro exI [of _ "d # out"]) simp
  next
    case False
    then have "is_warning d" "r_out (report_step st d r) = r_out r"
      using report_step_keeps report_step_out by blast+
    then show ?thesis using out by (intro exI [of _ out]) (auto dest: warning_not_error)
  qed
qed simp

lemma report_run_out:
  obtains out where "r_out (fold (report_step st) ds report_new) = out" "subseq out ds" "filter is_error out = filter is_error ds"
  using report_out [of st ds report_new] by (auto simp: report_new_def)

lemma summaries_are_warnings:
  "d \<in> set (deprecation_summary ps) \<Longrightarrow> is_warning d \<and> d_phase d = Phase_Summary \<and> is_dummy (d_span d)"
  "d \<in> set (feature_summary fs) \<Longrightarrow> is_warning d \<and> d_phase d = Phase_Summary \<and> is_dummy (d_span d)"
  by (auto simp: deprecation_summary_def feature_summary_def unpositioned_def is_warning_def is_dummy_def DUMMY_def Let_def
           split: if_splits)

lemma werror_error: "is_error werror" "\<not> is_warning werror" "is_dummy (d_span werror)" "report_key werror = (Phase_Summary, USIZE_MAX, Phase_Summary)"
  by (simp_all add: werror_def unpositioned_def is_error_def is_warning_def is_dummy_def DUMMY_def report_key_def)

lemma summaries_no_errors:
  "filter is_error (deprecation_summary ps) = []" "filter is_error (feature_summary fs) = []"
  using summaries_are_warnings warning_not_error by (fastforce simp: filter_empty_conv)+

text \<open>The whole run: what the loop leaves, then the summaries, then the error that stops it.\<close>

lemma finish_cases:
  obtains out where
    "subseq out (if list_ex is_error ds then ds else sort_key report_key ds)" "filter is_error out = filter is_error ds"
    "finish_diagnostics ds st =
       (if list_ex is_error ds \<or> nowarn st then out
        else let out = out @ deprecation_summary (r_deprecations (fold (report_step st) (sort_key report_key ds) report_new)) @
                       feature_summary (r_features (fold (report_step st) (sort_key report_key ds) report_new)) in
          (if fatal_warnings st \<and> list_ex is_warning out then out @ [werror] else out))"
proof -
  let ?ds = "if list_ex is_error ds then ds else sort_key report_key ds"
  obtain out where out: "r_out (fold (report_step st) ?ds report_new) = out" "subseq out ?ds" "filter is_error out = filter is_error ?ds"
    by (rule report_run_out)
  have "filter is_error ?ds = filter is_error ds"
    by (auto simp: list_ex_iff filter_empty_conv)
  then have f: "filter is_error out = filter is_error ds" using out(3) by simp
  then have "list_ex is_error out \<longleftrightarrow> list_ex is_error ds"
    by (metis filter_empty_conv list_ex_iff)
  note that = that [OF out(2) f]
  show ?thesis
  proof (cases "list_ex is_error ds")
    case True
    show ?thesis by (rule that) (use True out(1) \<open>list_ex is_error out \<longleftrightarrow> _\<close> in \<open>simp add: finish_diagnostics_def\<close>)
  next
    case False
    show ?thesis by (rule that) (use False out(1) \<open>list_ex is_error out \<longleftrightarrow> _\<close> in \<open>simp add: finish_diagnostics_def Let_def\<close>)
  qed
qed

section \<open>The duplicate filter without its table\<close>

text \<open>
  What the loop does, said over the diagnostics already reported: one is dropped when it is summarised, or when it
  is a warning at a point that carries an error, or a warning it extends.
\<close>

definition positioned :: "diagnostic \<Rightarrow> bool" where
  "positioned d \<longleftrightarrow> \<not> is_dummy (d_span d) \<and> d_file d \<noteq> USIZE_MAX"

definition d_point :: "diagnostic \<Rightarrow> nat \<times> u32" where
  "d_point d = (d_file d, sp_lo (d_span d))"

definition repeats :: "diagnostic \<Rightarrow> diagnostic \<Rightarrow> bool" where
  "repeats a d \<longleftrightarrow>
     positioned a \<and> positioned d \<and> d_point a = d_point d \<and> is_warning d \<and>
     (is_error a \<or> is_warning a \<and> starts_with (d_message d) (d_message a))"

definition summarised :: "WarnSettings \<Rightarrow> diagnostic \<Rightarrow> bool" where
  "summarised st d \<longleftrightarrow>
     is_warning d \<and>
     (nowarn st \<or> (case d_category d of Cat_Deprecation _ \<Rightarrow> \<not> deprecation st | Cat_Feature \<Rightarrow> \<not> feature st | Cat_Other \<Rightarrow> False))"

definition filter_step :: "WarnSettings \<Rightarrow> diagnostic \<Rightarrow> diagnostic list \<Rightarrow> diagnostic list" where
  "filter_step st d out = (if summarised st d \<or> list_ex (\<lambda>a. repeats a d) out then out else out @ [d])"

text \<open>The table: per point, what stands there, and whether an error does.\<close>

definition at_point :: "nat \<times> u32 \<Rightarrow> diagnostic list \<Rightarrow> diagnostic list" where
  "at_point k out = filter (\<lambda>a. positioned a \<and> d_level a \<noteq> Note \<and> d_point a = k) out"

definition shown_of :: "diagnostic list \<Rightarrow> nat \<times> u32 \<rightharpoonup> Level \<times> str list" where
  "shown_of out k =
     (let as = at_point k out in
      if as = [] then None else Some (if list_ex is_error as then Error else Warning, map d_message as))"

lemma shown_push: "\<not> positioned d \<or> d_level d = Note \<Longrightarrow> shown_of (out @ [d]) = shown_of out"
  by (auto simp: fun_eq_iff shown_of_def at_point_def)

lemma level_cases: "d_level d = Error \<longleftrightarrow> is_error d" "d_level d = Warning \<longleftrightarrow> is_warning d"
  "d_level d = Note \<longleftrightarrow> \<not> is_error d \<and> \<not> is_warning d"
  by (cases "d_level d"; simp add: is_error_def is_warning_def)+

lemma repeats_at_point:
  assumes "positioned d" "is_warning d"
  shows "list_ex (\<lambda>a. repeats a d) out \<longleftrightarrow>
    list_ex (\<lambda>a. is_error a \<or> starts_with (d_message d) (d_message a)) (at_point (d_point d) out)"
  using assms by (auto simp: list_ex_iff at_point_def repeats_def level_cases)

text \<open>A warning is shown exactly when nothing at its point has it.\<close>

lemma shown_decides:
  assumes "positioned d" "is_warning d"
  shows "(case shown_of out (d_point d) of
            None \<Rightarrow> True
          | Some (Error, _) \<Rightarrow> False
          | Some (Warning, msgs) \<Rightarrow> \<not> list_ex (\<lambda>m. starts_with (d_message d) m) msgs
          | Some (Note, _) \<Rightarrow> True) \<longleftrightarrow> \<not> list_ex (\<lambda>a. repeats a d) out"
proof -
  let ?as = "at_point (d_point d) out"
  consider "?as = []" | "?as \<noteq> []" "list_ex is_error ?as" | "?as \<noteq> []" "\<not> list_ex is_error ?as" by blast
  then show ?thesis
    unfolding repeats_at_point [OF assms]
    by cases (auto simp: shown_of_def Let_def list_ex_iff)
qed

lemma shown_show:
  assumes "positioned d" "is_error d \<or> is_warning d \<and> \<not> list_ex is_error (at_point (d_point d) out)"
  shows "shown_of (out @ [d]) =
    (shown_of out)(d_point d \<mapsto> (d_level d, (case shown_of out (d_point d) of None \<Rightarrow> [] | Some (_, msgs) \<Rightarrow> msgs) @ [d_message d]))"
proof
  fix k
  have split: "at_point k (out @ [d]) = at_point k out @ (if k = d_point d then [d] else [])"
    using assms by (auto simp: at_point_def level_cases dest: warning_not_error)
  show "shown_of (out @ [d]) k =
    ((shown_of out)(d_point d \<mapsto> (d_level d, (case shown_of out (d_point d) of None \<Rightarrow> [] | Some (_, msgs) \<Rightarrow> msgs) @ [d_message d]))) k"
    using assms(2) by (auto simp: shown_of_def split Let_def level_cases [symmetric] is_error_def is_warning_def)
qed

text \<open>One step of the loop is one of the filter, and keeps the table.\<close>

lemma positioned_step:
  assumes "r_shown r = shown_of (r_out r)"
  shows "r_shown (report_positioned d r) = shown_of (r_out (report_positioned d r)) \<and>
    r_out (report_positioned d r) = (if list_ex (\<lambda>a. repeats a d) (r_out r) then r_out r else r_out r @ [d])"
proof -
  have free: "\<not> positioned d \<or> \<not> is_warning d \<Longrightarrow> \<not> list_ex (\<lambda>a. repeats a d) (r_out r)"
    by (auto simp: list_ex_iff repeats_def)
  consider (none) "\<not> positioned d" | (error) "positioned d" "d_level d = Error" | (plain) "positioned d" "d_level d = Note"
    | (dup) "positioned d" "d_level d = Warning" "list_ex (\<lambda>a. repeats a d) (r_out r)"
    | (new) "positioned d" "d_level d = Warning" "\<not> list_ex (\<lambda>a. repeats a d) (r_out r)"
    by (cases "d_level d") blast+
  then show ?thesis
  proof cases
    case none
    then show ?thesis using assms free shown_push [of d] by (auto simp: report_positioned_def positioned_def push_out_def)
  next
    case error
    then show ?thesis
      using assms free shown_show [OF error(1)]
      by (auto simp: report_positioned_def positioned_def show_at_def Let_def d_point_def is_error_def is_warning_def)
  next
    case plain
    then show ?thesis
      using assms free shown_push [of d] by (auto simp: report_positioned_def positioned_def push_out_def Let_def is_warning_def)
  next
    case dup
    then show ?thesis
      using assms shown_decides [OF dup(1), of "r_out r"]
      by (auto simp: report_positioned_def positioned_def Let_def is_warning_def d_point_def)
  next
    case new
    have w: "is_warning d" using new(2) by (simp add: is_warning_def)
    then have "\<not> list_ex is_error (at_point (d_point d) (r_out r))"
      using repeats_at_point [OF new(1) w] new(3) by (auto simp: list_ex_iff)
    then show ?thesis
      using new assms shown_decides [OF new(1) w, of "r_out r"] shown_show [OF new(1), of "r_out r"] w
      by (auto simp: report_positioned_def positioned_def show_at_def Let_def d_point_def)
  qed
qed

lemma step_filters:
  assumes "r_shown r = shown_of (r_out r)"
  shows "r_shown (report_step st d r) = shown_of (r_out (report_step st d r)) \<and> r_out (report_step st d r) = filter_step st d (r_out r)"
proof (cases "summarised st d")
  case True
  then show ?thesis
    using assms by (auto simp: report_step_def filter_step_def summarised_def Let_def split: WarnCategory.splits)
next
  case False
  then have "report_step st d r = report_positioned d r"
    by (auto simp: report_step_def summarised_def Let_def split: WarnCategory.splits)
  then show ?thesis using positioned_step [OF assms, of d] False by (simp add: filter_step_def)
qed

lemma run_filters:
  "r_shown r = shown_of (r_out r) \<Longrightarrow> r_out (fold (report_step st) ds r) = fold (filter_step st) ds (r_out r)"
proof (induction ds arbitrary: r)
  case (Cons d ds)
  then show ?case using step_filters [OF Cons.prems, of st d] by simp
qed simp

text \<open>The position-less diagnostics come last.\<close>

lemma summary_key: "d_phase d = Phase_Summary \<Longrightarrow> report_key d = (Phase_Summary, USIZE_MAX, Phase_Summary)"
  by (simp add: report_key_def)

lemma key_below: "report_key d \<le> (Phase_Summary, USIZE_MAX, Phase_Summary)"
  by (cases "d_phase d") (simp_all add: report_key_def less_eq_Phase_def less_Phase_def)

lemma sorted_same: "(\<And>x. x \<in> set xs \<Longrightarrow> f x = c) \<Longrightarrow> sorted (map f xs)"
  by (induction xs) auto

lemma sorted_summaries: "sorted (map report_key (deprecation_summary ps))" "sorted (map report_key (feature_summary fs))"
  by (rule sorted_same, drule summaries_are_warnings, simp add: summary_key)+

lemma subseq_sorted: "subseq xs ys \<Longrightarrow> sorted ys \<Longrightarrow> sorted (xs :: 'a :: linorder list)"
  by (induction rule: list_emb.induct) (auto dest: list_emb_set)

text \<open>
  The order the module documentation of \<open>report.rs\<close> promises, said without the sort key: the stages are numbered
  by hand, the parser's diagnostics are released with the typer's, a stage goes file by file, the parser before the typer
  inside a file, and the position-less diagnostics at the end are in no order.
\<close>

fun stage :: "Phase \<Rightarrow> nat" where
  "stage Phase_Parser = 1"
| "stage Phase_Typer = 1"
| "stage Phase_Refchecks = 2"
| "stage Phase_Patmat = 3"
| "stage Phase_Uncurry = 4"
| "stage Phase_Specialize = 5"
| "stage Phase_ExplicitOuter = 6"
| "stage Phase_Erasure = 7"
| "stage Phase_Constructors = 8"
| "stage Phase_Summary = 9"

definition may_precede :: "diagnostic \<Rightarrow> diagnostic \<Rightarrow> bool" where
  "may_precede a b \<longleftrightarrow>
     stage (d_phase a) < stage (d_phase b) \<or>
     stage (d_phase a) = stage (d_phase b) \<and>
       (stage (d_phase a) = 9 \<or> d_file a < d_file b \<or>
        d_file a = d_file b \<and> \<not> (d_phase a = Phase_Typer \<and> d_phase b = Phase_Parser))"

lemma key_precedes: "report_key a \<le> report_key b \<Longrightarrow> may_precede a b"
  by (cases "d_phase a"; cases "d_phase b"; auto simp: report_key_def may_precede_def less_eq_Phase_def less_Phase_def)

lemma same_key:
  "ph \<noteq> Phase_Summary \<Longrightarrow>
     d_phase d = ph \<and> d_file d = f \<longleftrightarrow> report_key d = (if ph = Phase_Parser then Phase_Typer else ph, f, ph)"
  by (cases "d_phase d") (auto simp: report_key_def)

section \<open>Properties\<close>

text \<open>
  C30: no error is lost and none invented: a run with errors reports exactly them, in the order they were issued;
  a run without reports one only when warnings are fatal and something is left to warn about, and that one is the
  position-less error of \<open>-Werror\<close>.
\<close>

theorem reported_errors:
  "filter is_error (finish_diagnostics ds st) =
     (if list_ex is_error ds then filter is_error ds
      else if fatal_warnings st \<and> \<not> nowarn st \<and> list_ex is_warning (finish_diagnostics ds st) then [werror] else [])"
proof -
  obtain out where out: "filter is_error out = filter is_error ds"
    "finish_diagnostics ds st =
       (if list_ex is_error ds \<or> nowarn st then out
        else let out = out @ deprecation_summary (r_deprecations (fold (report_step st) (sort_key report_key ds) report_new)) @
                       feature_summary (r_features (fold (report_step st) (sort_key report_key ds) report_new)) in
          (if fatal_warnings st \<and> list_ex is_warning out then out @ [werror] else out))"
    by (rule finish_cases)
  have "\<not> list_ex is_error ds \<Longrightarrow> filter is_error ds = []" by (auto simp: list_ex_iff filter_empty_conv)
  then show ?thesis
    using out(1) by (auto simp: out(2) Let_def werror_error summaries_no_errors)
qed

text \<open>
  C31: a run with errors reports in the order of issue.  Without errors the report goes stage by stage, inside a stage
  file by file and inside a file the parser's diagnostics before the typer's, the position-less ones last; and the
  diagnostics of one phase and file keep the order they were issued in, none of them twice.
\<close>

theorem report_in_order:
  "if list_ex is_error ds then subseq (finish_diagnostics ds st) ds
   else sorted_wrt may_precede (finish_diagnostics ds st) \<and>
     (\<forall>ph f. ph = Phase_Summary \<or>
       subseq (filter (\<lambda>d. d_phase d = ph \<and> d_file d = f) (finish_diagnostics ds st)) (filter (\<lambda>d. d_phase d = ph \<and> d_file d = f) ds))"
proof -
  obtain out where out: "subseq out (if list_ex is_error ds then ds else sort_key report_key ds)"
    "finish_diagnostics ds st =
       (if list_ex is_error ds \<or> nowarn st then out
        else let out = out @ deprecation_summary (r_deprecations (fold (report_step st) (sort_key report_key ds) report_new)) @
                       feature_summary (r_features (fold (report_step st) (sort_key report_key ds) report_new)) in
          (if fatal_warnings st \<and> list_ex is_warning out then out @ [werror] else out))"
    by (rule finish_cases)
  show ?thesis
  proof (cases "list_ex is_error ds")
    case False
    have s: "sorted (map report_key out)"
      using subseq_map [OF out(1), of report_key] False subseq_sorted by (force intro: subseq_sorted)
    note last = summary_key [OF summaries_are_warnings(1) [THEN conjunct2, THEN conjunct1]]
      summary_key [OF summaries_are_warnings(2) [THEN conjunct2, THEN conjunct1]]
    have "sorted (map report_key (finish_diagnostics ds st))"
      by (auto simp: out(2) Let_def sorted_append s last werror_error key_below sorted_summaries False)
    then have order: "sorted_wrt may_precede (finish_diagnostics ds st)"
      unfolding sorted_map by (rule sorted_wrt_mono_rel [rotated]) (rule key_precedes)
    have "subseq (filter (\<lambda>d. d_phase d = ph \<and> d_file d = f) (finish_diagnostics ds st)) (filter (\<lambda>d. d_phase d = ph \<and> d_file d = f) ds)"
      if ph: "ph \<noteq> Phase_Summary" for ph f
    proof -
      have "filter (\<lambda>d. d_phase d = ph \<and> d_file d = f) (sort_key report_key ds) = filter (\<lambda>d. d_phase d = ph \<and> d_file d = f) ds"
        unfolding same_key [OF ph] by (rule sort_key_stable)
      moreover have "filter (\<lambda>d. d_phase d = ph \<and> d_file d = f) (finish_diagnostics ds st) = filter (\<lambda>d. d_phase d = ph \<and> d_file d = f) out"
        using ph summaries_are_warnings by (auto simp: out(2) Let_def filter_empty_conv werror_def unpositioned_def)
      ultimately show ?thesis using subseq_filter [OF out(1), of "\<lambda>d. d_phase d = ph \<and> d_file d = f"] False by simp
    qed
    then show ?thesis using order False by auto
  qed (use out in simp)
qed

text \<open>
  C32: the reporting loop, with its table of what it has shown at each point, refines the filter said over the
  diagnostics already reported: a warning is dropped when it is silenced or summarised, when its point carries an
  error, or when it extends a warning there, and nothing else is dropped.
\<close>

theorem loop_filters_repeats:
  "r_out (fold (report_step st) ds report_new) = fold (filter_step st) ds []"
  using run_filters [of report_new st ds] by (simp add: report_new_def shown_of_def at_point_def fun_eq_iff)

end
