(* ===== verification/LexToken.thy ===== *)
theory LexToken
  imports Report
begin

text \<open>
  \<open>crates/lexer/src/token.rs\<close>: the tokens.  A float is its bits.
\<close>

datatype (plugins only: code extraction) TokenKind =
    TK_Eof | TK_Newline | TK_Semi | TK_Comma | TK_Dot | TK_Colon | TK_Equals | TK_Arrow | TK_LeftArrow
  | TK_Subtype | TK_Supertype | TK_ViewBound | TK_Hash | TK_At | TK_LParen | TK_RParen | TK_LBracket
  | TK_RBracket | TK_LBrace | TK_RBrace | TK_Underscore | TK_Ident str | TK_IntLit i32 | TK_LongLit i64
  | TK_DoubleLit u64 | TK_FloatLit u32 | TK_CharLit rchar | TK_StringLit str | TK_SymbolLit str | TK_True
  | TK_False | TK_Null | TK_Abstract | TK_Case | TK_Catch | TK_Class | TK_Def | TK_Do | TK_Else | TK_Extends
  | TK_Final | TK_Finally | TK_For | TK_ForSome | TK_If | TK_Implicit | TK_Import | TK_Lazy | TK_Macro
  | TK_Match | TK_New | TK_Object | TK_Override | TK_Package | TK_Private | TK_Protected | TK_Return
  | TK_Sealed | TK_Super | TK_This | TK_Throw | TK_Trait | TK_Try | TK_TypeKw | TK_Val | TK_Var | TK_While
  | TK_With | TK_Yield | TK_InterpStart str bool | TK_StringPart str | TK_InterpId str | TK_InterpEnd str

record token =
  t_kind :: TokenKind
  t_span :: span
  nl_before :: bool
  blank_line :: bool

section \<open>Kinds of tokens\<close>

definition is_eof :: "TokenKind \<Rightarrow> bool" where
  "is_eof k = (case k of TK_Eof \<Rightarrow> True | _ \<Rightarrow> False)"

definition can_end_stat :: "TokenKind \<Rightarrow> bool" where
  "can_end_stat k =
     (case k of
        TK_Ident _ \<Rightarrow> True | TK_IntLit _ \<Rightarrow> True | TK_LongLit _ \<Rightarrow> True
      | TK_DoubleLit _ \<Rightarrow> True | TK_FloatLit _ \<Rightarrow> True | TK_CharLit _ \<Rightarrow> True
      | TK_StringLit _ \<Rightarrow> True | TK_SymbolLit _ \<Rightarrow> True | TK_True \<Rightarrow> True
      | TK_False \<Rightarrow> True | TK_Null \<Rightarrow> True | TK_This \<Rightarrow> True
      | TK_Super \<Rightarrow> True | TK_RParen \<Rightarrow> True | TK_RBrace \<Rightarrow> True
      | TK_RBracket \<Rightarrow> True | TK_Underscore \<Rightarrow> True | TK_Return \<Rightarrow> True
      | TK_InterpEnd _ \<Rightarrow> True | TK_TypeKw \<Rightarrow> True | _ \<Rightarrow> False)"

definition can_start_stat :: "TokenKind \<Rightarrow> bool" where
  "can_start_stat k =
     (case k of
        TK_Catch \<Rightarrow> False | TK_Else \<Rightarrow> False | TK_Extends \<Rightarrow> False
      | TK_Finally \<Rightarrow> False | TK_Match \<Rightarrow> False | TK_With \<Rightarrow> False
      | TK_Yield \<Rightarrow> False | TK_Comma \<Rightarrow> False | TK_Dot \<Rightarrow> False
      | TK_Colon \<Rightarrow> False | TK_Equals \<Rightarrow> False | TK_Arrow \<Rightarrow> False
      | TK_LeftArrow \<Rightarrow> False | TK_Subtype \<Rightarrow> False | TK_Supertype \<Rightarrow> False
      | TK_ViewBound \<Rightarrow> False | TK_Hash \<Rightarrow> False | TK_RParen \<Rightarrow> False
      | TK_RBracket \<Rightarrow> False | TK_RBrace \<Rightarrow> False | TK_Semi \<Rightarrow> False
      | TK_Eof \<Rightarrow> False | TK_Case \<Rightarrow> False | _ \<Rightarrow> True)"

definition as_ident :: "TokenKind \<Rightarrow> str option" where
  "as_ident k = (case k of TK_Ident s \<Rightarrow> Some s | _ \<Rightarrow> None)"

text \<open>\<open>can_end_statement\<close> and \<open>can_begin_statement\<close> of \<open>lib.rs\<close>\<close>

definition can_end_statement :: "TokenKind \<Rightarrow> bool" where
  "can_end_statement k =
     (case k of
        TK_Ident _ \<Rightarrow> True | TK_IntLit _ \<Rightarrow> True | TK_LongLit _ \<Rightarrow> True
      | TK_FloatLit _ \<Rightarrow> True | TK_DoubleLit _ \<Rightarrow> True | TK_CharLit _ \<Rightarrow> True
      | TK_StringLit _ \<Rightarrow> True | TK_InterpEnd _ \<Rightarrow> True | TK_SymbolLit _ \<Rightarrow> True
      | TK_This \<Rightarrow> True | TK_Null \<Rightarrow> True | TK_True \<Rightarrow> True
      | TK_False \<Rightarrow> True | TK_Return \<Rightarrow> True | TK_Underscore \<Rightarrow> True
      | TK_TypeKw \<Rightarrow> True | TK_RParen \<Rightarrow> True | TK_RBracket \<Rightarrow> True
      | TK_RBrace \<Rightarrow> True | _ \<Rightarrow> False)"

definition can_begin_statement :: "TokenKind \<Rightarrow> bool" where
  "can_begin_statement k =
     (case k of
        TK_Eof \<Rightarrow> False | TK_Catch \<Rightarrow> False | TK_Else \<Rightarrow> False
      | TK_Extends \<Rightarrow> False | TK_Finally \<Rightarrow> False | TK_ForSome \<Rightarrow> False
      | TK_Match \<Rightarrow> False | TK_With \<Rightarrow> False | TK_Yield \<Rightarrow> False
      | TK_Comma \<Rightarrow> False | TK_Semi \<Rightarrow> False | TK_Newline \<Rightarrow> False
      | TK_Dot \<Rightarrow> False | TK_Colon \<Rightarrow> False | TK_Equals \<Rightarrow> False
      | TK_Arrow \<Rightarrow> False | TK_LeftArrow \<Rightarrow> False | TK_Subtype \<Rightarrow> False
      | TK_Supertype \<Rightarrow> False | TK_ViewBound \<Rightarrow> False | TK_Hash \<Rightarrow> False
      | TK_RParen \<Rightarrow> False | TK_RBracket \<Rightarrow> False | TK_RBrace \<Rightarrow> False
      | TK_LBracket \<Rightarrow> False | _ \<Rightarrow> True)"

definition is_newline :: "TokenKind \<Rightarrow> bool" where
  "is_newline k = (case k of TK_Newline \<Rightarrow> True | _ \<Rightarrow> False)"

definition is_semi :: "TokenKind \<Rightarrow> bool" where
  "is_semi k = (case k of TK_Semi \<Rightarrow> True | _ \<Rightarrow> False)"

definition is_nl_or_semi :: "token \<Rightarrow> bool" where
  "is_nl_or_semi t \<longleftrightarrow> is_newline (t_kind t) \<or> is_semi (t_kind t)"

definition ident_text :: "token \<Rightarrow> str option" where
  "ident_text t = (case t_kind t of TK_Ident s \<Rightarrow> Some s | TK_InterpId s \<Rightarrow> Some s | _ \<Rightarrow> None)"

definition is_ident :: "token \<Rightarrow> bool" where
  "is_ident t = (case t_kind t of TK_Ident _ \<Rightarrow> True | _ \<Rightarrow> False)"

section \<open>Keywords\<close>

definition KEYWORDS :: "(str \<times> TokenKind) list" where
  "KEYWORDS =
     [(lit ''abstract'', TK_Abstract), (lit ''case'', TK_Case), (lit ''catch'', TK_Catch),
      (lit ''class'', TK_Class), (lit ''def'', TK_Def), (lit ''do'', TK_Do), (lit ''else'', TK_Else),
      (lit ''extends'', TK_Extends), (lit ''false'', TK_False), (lit ''final'', TK_Final),
      (lit ''finally'', TK_Finally), (lit ''for'', TK_For), (lit ''forSome'', TK_ForSome), (lit ''if'', TK_If),
      (lit ''implicit'', TK_Implicit), (lit ''import'', TK_Import), (lit ''lazy'', TK_Lazy),
      (lit ''macro'', TK_Macro), (lit ''match'', TK_Match), (lit ''new'', TK_New), (lit ''null'', TK_Null),
      (lit ''object'', TK_Object), (lit ''override'', TK_Override), (lit ''package'', TK_Package),
      (lit ''private'', TK_Private), (lit ''protected'', TK_Protected), (lit ''return'', TK_Return),
      (lit ''sealed'', TK_Sealed), (lit ''super'', TK_Super), (lit ''this'', TK_This), (lit ''throw'', TK_Throw),
      (lit ''trait'', TK_Trait), (lit ''true'', TK_True), (lit ''try'', TK_Try), (lit ''type'', TK_TypeKw),
      (lit ''val'', TK_Val), (lit ''var'', TK_Var), (lit ''while'', TK_While), (lit ''with'', TK_With),
      (lit ''yield'', TK_Yield)]"

definition keyword_kind :: "str \<Rightarrow> TokenKind option" where
  "keyword_kind s = map_of KEYWORDS s"

end
