(* ===== verification/Search.thy ===== *)
theory Search
  imports Prelude
begin

text \<open>
  The binary search of Rust's slices, which the lexer's table of symbols and the assembler's frames are read with, and
  the maps of its \<open>BTreeMap\<close>, association lists in the order of their keys.
\<close>

section \<open>Binary search\<close>

datatype Ordering = Less | Equal | Greater

text \<open>\<open>slice::binary_search_by\<close>, the index of \<open>Ok\<close>: the range that may hold the element starts at \<open>base\<close> and is halved.\<close>

function search_loop :: "('a \<Rightarrow> Ordering) \<Rightarrow> 'a list \<Rightarrow> nat \<Rightarrow> nat \<Rightarrow> nat" where
  "search_loop f xs base n =
     (if 1 < n then
        let half = n div 2;
            mid = base + half
        in search_loop f xs (if f (xs ! mid) = Greater then base else mid) (n - half)
      else base)"
  by pat_completeness auto
termination
  by (relation "measure (\<lambda>(f, xs, base, size). size)") auto

declare search_loop.simps [simp del]

definition binary_search_by :: "('a \<Rightarrow> Ordering) \<Rightarrow> 'a list \<Rightarrow> nat option" where
  "binary_search_by f xs =
     (if xs = [] then None
      else let base = search_loop f xs 0 (length xs) in if f (xs ! base) = Equal then Some base else None)"

lemma search_loop_bound: "0 < n \<Longrightarrow> base + n \<le> m \<Longrightarrow> search_loop f xs base n < m"
proof (induction f xs base n rule: search_loop.induct)
  case (1 f xs base n)
  then show ?case by (cases "1 < n") (auto simp: search_loop.simps [of f xs base n] Let_def)
qed

text \<open>The element looked for stays in the range.\<close>

lemma search_loop_finds:
  "\<lbrakk>\<And>j. j < k \<Longrightarrow> f (xs ! j) = Less; \<And>j. k < j \<Longrightarrow> j < length xs \<Longrightarrow> f (xs ! j) = Greater; f (xs ! k) = Equal;
    base + n \<le> length xs; base \<le> k; k < base + n\<rbrakk> \<Longrightarrow> search_loop f xs base n = k"
proof (induction f xs base n rule: search_loop.induct)
  case (1 f xs base n)
  show ?case
  proof (cases "1 < n")
    case True
    let ?mid = "base + n div 2"
    consider "?mid < k" | "?mid = k" | "k < ?mid" by linarith
    then have cmp: "f (xs ! ?mid) = Greater \<longleftrightarrow> k < ?mid"
      using 1(2) [of ?mid] 1(3) [of ?mid] 1(4,5) True by cases auto
    have "search_loop f xs (if f (xs ! ?mid) = Greater then base else ?mid) (n - n div 2) = k"
      by (rule 1(1) [OF True refl refl 1(2) 1(3) 1(4)]) (use 1(5-7) True cmp in \<open>auto simp: not_less\<close>)
    then show ?thesis using True by (simp add: search_loop.simps [of f xs base n] Let_def)
  next
    case False
    then show ?thesis using 1(6,7) by (simp add: search_loop.simps [of f xs base n])
  qed
qed

text \<open>A key that stands in a list whose keys ascend is found, and nothing else is.\<close>

definition key_cmp :: "nat \<Rightarrow> nat \<Rightarrow> Ordering" where
  "key_cmp k k' = (if k' < k then Less else if k' = k then Equal else Greater)"

lemma binary_search_key:
  assumes "sorted_wrt (\<lambda>x y. key x < key y) xs" "i < length xs" "key (xs ! i) = k"
  shows "binary_search_by (\<lambda>x. key_cmp k (key x)) xs = Some i"
proof -
  have "search_loop (\<lambda>x. key_cmp k (key x)) xs 0 (length xs) = i"
  proof (rule search_loop_finds)
    fix j
    show "j < i \<Longrightarrow> key_cmp k (key (xs ! j)) = Less"
      using sorted_wrt_nth_less [OF assms(1), of j i] assms by (auto simp: key_cmp_def)
    show "i < j \<Longrightarrow> j < length xs \<Longrightarrow> key_cmp k (key (xs ! j)) = Greater"
      using sorted_wrt_nth_less [OF assms(1), of i j] assms by (auto simp: key_cmp_def)
  qed (use assms in \<open>simp_all add: key_cmp_def\<close>)
  then show ?thesis using assms by (auto simp: binary_search_by_def key_cmp_def)
qed

section \<open>Ordered maps\<close>

text \<open>\<open>BTreeMap::insert\<close>\<close>

fun bt_insert :: "'k :: linorder \<Rightarrow> 'v \<Rightarrow> ('k \<times> 'v) list \<Rightarrow> ('k \<times> 'v) list" where
  "bt_insert k v [] = [(k, v)]"
| "bt_insert k v ((k', v') # m) =
     (if k < k' then (k, v) # (k', v') # m else if k = k' then (k, v) # m else (k', v') # bt_insert k v m)"

text \<open>\<open>entry(k).or_insert(v)\<close>\<close>

definition bt_or_insert :: "'k :: linorder \<Rightarrow> 'v \<Rightarrow> ('k \<times> 'v) list \<Rightarrow> ('k \<times> 'v) list" where
  "bt_or_insert k v m = (if map_of m k = None then bt_insert k v m else m)"

definition bt_sorted :: "('k :: linorder \<times> 'v) list \<Rightarrow> bool" where
  "bt_sorted m \<longleftrightarrow> sorted_wrt (\<lambda>x y. fst x < fst y) m"

lemma bt_insert_set: "set (bt_insert k v m) \<subseteq> insert (k, v) (set m)"
  by (induction k v m rule: bt_insert.induct) auto

lemma bt_insert_keys: "fst ` set (bt_insert k v m) = insert k (fst ` set m)"
  by (induction k v m rule: bt_insert.induct) auto

lemma bt_insert_sorted: "bt_sorted m \<Longrightarrow> bt_sorted (bt_insert k v m)"
proof (induction k v m rule: bt_insert.induct)
  case (2 k v k' v' m)
  have "x \<in> set (bt_insert k v m) \<Longrightarrow> fst x = k \<or> fst x \<in> fst ` set m" for x
    using bt_insert_keys [of k v m] by (metis imageI insertE)
  then show ?case using 2 by (fastforce simp: bt_sorted_def)
qed (simp add: bt_sorted_def)

lemma bt_insert_lookup: "bt_sorted m \<Longrightarrow> map_of (bt_insert k v m) = (map_of m)(k \<mapsto> v)"
proof (induction k v m rule: bt_insert.induct)
  case (2 k v k' v' m)
  have "k < k' \<Longrightarrow> map_of m k = None"
    using 2(2) by (auto simp: bt_sorted_def map_of_eq_None_iff)
  then show ?case using 2 by (auto simp: bt_sorted_def fun_eq_iff)
qed simp

lemma bt_filter_sorted: "bt_sorted m \<Longrightarrow> bt_sorted (filter P m)"
  by (auto simp: bt_sorted_def intro: sorted_wrt_filter)

lemma bt_lookup: "bt_sorted m \<Longrightarrow> (k, v) \<in> set m \<Longrightarrow> map_of m k = Some v"
  by (induction m) (auto simp: bt_sorted_def)

end
