(* ===== verification/LexChars.thy ===== *)
theory LexChars
  imports LexToken Search
begin

text \<open>
  The character classes of \<open>crates/lexer/src/lib.rs\<close> and the table of \<open>unicode_symbols.rs\<close>.  \<open>std_lib\<close> is what the lexer
  takes from Rust's library and this model leaves open: \<open>char::is_alphabetic\<close> beyond ASCII and the \<open>Debug\<close> form of a
  character, which are Unicode tables of the toolchain, and the parsing of floats, which gives bits.
\<close>

record std_lib =
  alphabetic :: "rchar \<Rightarrow> bool"
  debug_char :: "rchar \<Rightarrow> str"
  parse_f32 :: "str \<Rightarrow> u32 option"
  parse_f64 :: "str \<Rightarrow> u64 option"

section \<open>The table of symbols\<close>

definition SYMBOL_RANGES :: "(nat \<times> nat) list" where
  "SYMBOL_RANGES =
     [(0x002B, 0x002B), (0x003C, 0x003E), (0x007C, 0x007C), (0x007E, 0x007E), (0x00A6, 0x00A6), (0x00A9, 0x00A9),
      (0x00AC, 0x00AC), (0x00AE, 0x00AE), (0x00B0, 0x00B1), (0x00D7, 0x00D7), (0x00F7, 0x00F7), (0x03F6, 0x03F6),
      (0x0482, 0x0482), (0x058D, 0x058E), (0x0606, 0x0608), (0x060E, 0x060F), (0x06DE, 0x06DE), (0x06E9, 0x06E9),
      (0x06FD, 0x06FE), (0x07F6, 0x07F6), (0x09FA, 0x09FA), (0x0B70, 0x0B70), (0x0BF3, 0x0BF8), (0x0BFA, 0x0BFA),
      (0x0C7F, 0x0C7F), (0x0D4F, 0x0D4F), (0x0D79, 0x0D79), (0x0F01, 0x0F03), (0x0F13, 0x0F13), (0x0F15, 0x0F17),
      (0x0F1A, 0x0F1F), (0x0F34, 0x0F34), (0x0F36, 0x0F36), (0x0F38, 0x0F38), (0x0FBE, 0x0FC5), (0x0FC7, 0x0FCC),
      (0x0FCE, 0x0FCF), (0x0FD5, 0x0FD8), (0x109E, 0x109F), (0x1390, 0x1399), (0x166D, 0x166D), (0x1940, 0x1940),
      (0x19DE, 0x19FF), (0x1B61, 0x1B6A), (0x1B74, 0x1B7C), (0x2044, 0x2044), (0x2052, 0x2052), (0x207A, 0x207C),
      (0x208A, 0x208C), (0x2100, 0x2101), (0x2103, 0x2106), (0x2108, 0x2109), (0x2114, 0x2114), (0x2116, 0x2118),
      (0x211E, 0x2123), (0x2125, 0x2125), (0x2127, 0x2127), (0x2129, 0x2129), (0x212E, 0x212E), (0x213A, 0x213B),
      (0x2140, 0x2144), (0x214A, 0x214D), (0x214F, 0x214F), (0x218A, 0x218B), (0x2190, 0x2307), (0x230C, 0x2328),
      (0x232B, 0x2426), (0x2440, 0x244A), (0x249C, 0x24E9), (0x2500, 0x2767), (0x2794, 0x27C4), (0x27C7, 0x27E5),
      (0x27F0, 0x2982), (0x2999, 0x29D7), (0x29DC, 0x29FB), (0x29FE, 0x2B73), (0x2B76, 0x2B95), (0x2B97, 0x2BFF),
      (0x2CE5, 0x2CEA), (0x2E50, 0x2E51), (0x2E80, 0x2E99), (0x2E9B, 0x2EF3), (0x2F00, 0x2FD5), (0x2FF0, 0x2FFB),
      (0x3004, 0x3004), (0x3012, 0x3013), (0x3020, 0x3020), (0x3036, 0x3037), (0x303E, 0x303F), (0x3190, 0x3191),
      (0x3196, 0x319F), (0x31C0, 0x31E3), (0x3200, 0x321E), (0x322A, 0x3247), (0x3250, 0x3250), (0x3260, 0x327F),
      (0x328A, 0x32B0), (0x32C0, 0x33FF), (0x4DC0, 0x4DFF), (0xA490, 0xA4C6), (0xA828, 0xA82B), (0xA836, 0xA837),
      (0xA839, 0xA839), (0xAA77, 0xAA79), (0xFB29, 0xFB29), (0xFDFD, 0xFDFD), (0xFE62, 0xFE62), (0xFE64, 0xFE66),
      (0xFF0B, 0xFF0B), (0xFF1C, 0xFF1E), (0xFF5C, 0xFF5C), (0xFF5E, 0xFF5E), (0xFFE2, 0xFFE2), (0xFFE4, 0xFFE4),
      (0xFFE8, 0xFFEE), (0xFFFC, 0xFFFD), (0x10137, 0x1013F), (0x10179, 0x10189), (0x1018C, 0x1018E),
      (0x10190, 0x1019C), (0x101A0, 0x101A0), (0x101D0, 0x101FC), (0x10877, 0x10878), (0x10AC8, 0x10AC8),
      (0x1173F, 0x1173F), (0x11FD5, 0x11FDC), (0x11FE1, 0x11FF1), (0x16B3C, 0x16B3F), (0x16B45, 0x16B45),
      (0x1BC9C, 0x1BC9C), (0x1D000, 0x1D0F5), (0x1D100, 0x1D126), (0x1D129, 0x1D164), (0x1D16A, 0x1D16C),
      (0x1D183, 0x1D184), (0x1D18C, 0x1D1A9), (0x1D1AE, 0x1D1E8), (0x1D200, 0x1D241), (0x1D245, 0x1D245),
      (0x1D300, 0x1D356), (0x1D6C1, 0x1D6C1), (0x1D6DB, 0x1D6DB), (0x1D6FB, 0x1D6FB), (0x1D715, 0x1D715),
      (0x1D735, 0x1D735), (0x1D74F, 0x1D74F), (0x1D76F, 0x1D76F), (0x1D789, 0x1D789), (0x1D7A9, 0x1D7A9),
      (0x1D7C3, 0x1D7C3), (0x1D800, 0x1D9FF), (0x1DA37, 0x1DA3A), (0x1DA6D, 0x1DA74), (0x1DA76, 0x1DA83),
      (0x1DA85, 0x1DA86), (0x1E14F, 0x1E14F), (0x1ECAC, 0x1ECAC), (0x1ED2E, 0x1ED2E), (0x1EEF0, 0x1EEF1),
      (0x1F000, 0x1F02B), (0x1F030, 0x1F093), (0x1F0A0, 0x1F0AE), (0x1F0B1, 0x1F0BF), (0x1F0C1, 0x1F0CF),
      (0x1F0D1, 0x1F0F5), (0x1F10D, 0x1F1AD), (0x1F1E6, 0x1F202), (0x1F210, 0x1F23B), (0x1F240, 0x1F248),
      (0x1F250, 0x1F251), (0x1F260, 0x1F265), (0x1F300, 0x1F3FA), (0x1F400, 0x1F6D7), (0x1F6E0, 0x1F6EC),
      (0x1F6F0, 0x1F6FC), (0x1F700, 0x1F773), (0x1F780, 0x1F7D8), (0x1F7E0, 0x1F7EB), (0x1F800, 0x1F80B),
      (0x1F810, 0x1F847), (0x1F850, 0x1F859), (0x1F860, 0x1F887), (0x1F890, 0x1F8AD), (0x1F8B0, 0x1F8B1),
      (0x1F900, 0x1F978), (0x1F97A, 0x1F9CB), (0x1F9CD, 0x1FA53), (0x1FA60, 0x1FA6D), (0x1FA70, 0x1FA74),
      (0x1FA78, 0x1FA7A), (0x1FA80, 0x1FA86), (0x1FA90, 0x1FAA8), (0x1FAB0, 0x1FAB6), (0x1FAC0, 0x1FAC2),
      (0x1FAD0, 0x1FAD6), (0x1FB00, 0x1FB92), (0x1FB94, 0x1FBCA)]"

definition range_cmp :: "nat \<Rightarrow> nat \<times> nat \<Rightarrow> Ordering" where
  "range_cmp u r = (case r of (l, h) \<Rightarrow> if h < u then Less else if u < l then Greater else Equal)"

definition is_unicode_symbol :: "rchar \<Rightarrow> bool" where
  "is_unicode_symbol c \<longleftrightarrow> binary_search_by (range_cmp c) SYMBOL_RANGES \<noteq> None"

section \<open>Character classes\<close>

definition is_id_start :: "std_lib \<Rightarrow> rchar \<Rightarrow> bool" where
  "is_id_start sl c \<longleftrightarrow>
     is_ascii_alphabetic c \<or> c = chr CHR ''_'' \<or> c = chr CHR ''$'' \<or>
     (0x80 \<le> c \<and> alphabetic sl c \<and> \<not> is_unicode_symbol c)"

definition is_id_part :: "std_lib \<Rightarrow> rchar \<Rightarrow> bool" where
  "is_id_part sl c \<longleftrightarrow> is_id_start sl c \<or> is_ascii_digit c"

definition is_interp_id_start :: "std_lib \<Rightarrow> rchar \<Rightarrow> bool" where
  "is_interp_id_start sl c \<longleftrightarrow> c \<noteq> chr CHR ''$'' \<and> is_id_start sl c"

definition is_interp_id_part :: "std_lib \<Rightarrow> rchar \<Rightarrow> bool" where
  "is_interp_id_part sl c \<longleftrightarrow> c \<noteq> chr CHR ''$'' \<and> is_id_part sl c"

definition is_unicode_op :: "rchar \<Rightarrow> bool" where
  "is_unicode_op c = is_unicode_symbol c"

definition is_op_char :: "rchar \<Rightarrow> bool" where
  "is_op_char c \<longleftrightarrow> c \<in> set (lit (''!#%&*+-/:<=>?@'' @ [CHR 0x5C] @ ''^|~'')) \<or> (0x80 \<le> c \<and> is_unicode_op c)"

definition is_operator_name :: "str \<Rightarrow> bool" where
  "is_operator_name s = (case s of [] \<Rightarrow> False | c # _ \<Rightarrow> is_op_char c)"

definition is_operator_ident :: "token \<Rightarrow> bool" where
  "is_operator_ident t = (case t_kind t of TK_Ident s \<Rightarrow> is_operator_name s | _ \<Rightarrow> False)"

definition is_ascii_hexdigit :: "rchar \<Rightarrow> bool" where
  "is_ascii_hexdigit c \<longleftrightarrow> hex_digit c \<noteq> None"

section \<open>The search finds what is there\<close>

text \<open>Ranges in order, none touching the next.\<close>

fun ranges_apart :: "(nat \<times> nat) list \<Rightarrow> bool" where
  "ranges_apart [] \<longleftrightarrow> True"
| "ranges_apart [(l, h)] \<longleftrightarrow> l \<le> h"
| "ranges_apart ((l, h) # (l', h') # rs) \<longleftrightarrow> l \<le> h \<and> h < l' \<and> ranges_apart ((l', h') # rs)"

lemma symbols_apart: "ranges_apart SYMBOL_RANGES"
  by (simp add: SYMBOL_RANGES_def)

lemma ranges_apart_sorted: "ranges_apart rs \<Longrightarrow> sorted_wrt (\<lambda>r s. snd r < fst s) rs \<and> list_all (\<lambda>r. fst r \<le> snd r) rs"
proof (induction rs rule: ranges_apart.induct)
  case (3 l h l' h' rs)
  then have "h < l'" "l' \<le> h'" "\<And>r. r \<in> set rs \<Longrightarrow> h' < fst r" by auto
  then have "\<And>r. r \<in> set rs \<Longrightarrow> h < fst r" by fastforce
  then show ?case using 3 by auto
qed auto

lemma range_cmp_Equal: "range_cmp u r = Equal \<longleftrightarrow> fst r \<le> u \<and> u \<le> snd r"
  by (auto simp: range_cmp_def split: prod.splits)

lemma binary_search_finds:
  assumes "sorted_wrt (\<lambda>r s. snd r < fst s) rs \<and> list_all (\<lambda>r. fst r \<le> snd r) rs"
  shows "binary_search_by (range_cmp u) rs \<noteq> None \<longleftrightarrow> list_ex (\<lambda>(l, h). l \<le> u \<and> u \<le> h) rs"
proof
  assume "binary_search_by (range_cmp u) rs \<noteq> None"
  then obtain i where "rs \<noteq> []" "i = search_loop (range_cmp u) rs 0 (length rs)" "range_cmp u (rs ! i) = Equal"
    by (auto simp: binary_search_by_def Let_def split: if_splits)
  then have "rs ! i \<in> set rs" "range_cmp u (rs ! i) = Equal"
    using search_loop_bound [of "length rs" 0 "length rs" "range_cmp u" rs] by simp_all
  then show "list_ex (\<lambda>(l, h). l \<le> u \<and> u \<le> h) rs" by (auto simp: list_ex_iff range_cmp_Equal)
next
  assume "list_ex (\<lambda>(l, h). l \<le> u \<and> u \<le> h) rs"
  then obtain k where k: "k < length rs" "fst (rs ! k) \<le> u" "u \<le> snd (rs ! k)"
    by (force simp: list_ex_iff in_set_conv_nth)
  have "search_loop (range_cmp u) rs 0 (length rs) = k"
  proof (rule search_loop_finds)
    fix j
    show "j < k \<Longrightarrow> range_cmp u (rs ! j) = Less"
      using sorted_wrt_nth_less [OF assms [THEN conjunct1], of j k] k by (auto simp: range_cmp_def split: prod.splits)
    show "k < j \<Longrightarrow> j < length rs \<Longrightarrow> range_cmp u (rs ! j) = Greater"
      using sorted_wrt_nth_less [OF assms [THEN conjunct1], of k j] assms k
      by (fastforce simp: range_cmp_def list_all_length split: prod.splits)
  qed (use k in \<open>simp_all add: range_cmp_Equal\<close>)
  then show "binary_search_by (range_cmp u) rs \<noteq> None"
    using k by (auto simp: binary_search_by_def Let_def range_cmp_Equal)
qed

text \<open>
  C36: the table of symbols is searched by halving and the search is exact: a character is a symbol when a range of
  the table holds it, for every character.
\<close>

theorem symbol_search_exact:
  "is_unicode_symbol c = list_ex (\<lambda>(l, h). l \<le> c \<and> c \<le> h) SYMBOL_RANGES"
  unfolding is_unicode_symbol_def by (rule binary_search_finds [OF ranges_apart_sorted [OF symbols_apart]])

end
