(* ===== verification/LexPost.thy ===== *)
theory LexPost
  imports LexToken
begin

text \<open>
  The three passes of \<open>crates/lexer/src/lib.rs\<close> over the tokens it has read: semicolons before \<open>else\<close>, line breaks
  that separate nothing, and trailing commas.  A pass that walks a vector by index is a recursion
  on the tokens from that index on.
\<close>

section \<open>The passes\<close>

definition is_else :: "TokenKind \<Rightarrow> bool" where
  "is_else k = (case k of TK_Else \<Rightarrow> True | _ \<Rightarrow> False)"

definition is_comma :: "TokenKind \<Rightarrow> bool" where
  "is_comma k = (case k of TK_Comma \<Rightarrow> True | _ \<Rightarrow> False)"

definition closes_group :: "TokenKind \<Rightarrow> bool" where
  "closes_group k = (case k of TK_RParen \<Rightarrow> True | TK_RBracket \<Rightarrow> True | _ \<Rightarrow> False)"

fun drop_semi_before_else :: "token list \<Rightarrow> token list" where
  "drop_semi_before_else [] = []"
| "drop_semi_before_else (t # ts) =
     (if is_semi (t_kind t) \<and>
         (case List.find (\<lambda>n. \<not> is_newline (t_kind n)) ts of Some n \<Rightarrow> is_else (t_kind n) | None \<Rightarrow> False)
      then drop_semi_before_else ts
      else t # drop_semi_before_else ts)"

fun drop_trailing_commas :: "token list \<Rightarrow> token list" where
  "drop_trailing_commas [] = []"
| "drop_trailing_commas (t # ts) =
     (if is_comma (t_kind t) \<and> (case ts of [] \<Rightarrow> False | n # _ \<Rightarrow> nl_before n \<and> closes_group (t_kind n))
      then drop_trailing_commas ts
      else t # drop_trailing_commas ts)"

text \<open>The stack of open brackets, its top first.\<close>

definition region_step :: "TokenKind \<Rightarrow> rchar list \<Rightarrow> rchar list" where
  "region_step k regions =
     (case k of
        TK_LParen \<Rightarrow> chr CHR ''('' # regions
      | TK_LBracket \<Rightarrow> chr CHR ''['' # regions
      | TK_LBrace \<Rightarrow> chr CHR ''{'' # regions
      | TK_RParen \<Rightarrow> tl regions
      | TK_RBracket \<Rightarrow> tl regions
      | TK_RBrace \<Rightarrow> tl regions
      | _ \<Rightarrow> regions)"

definition in_group :: "rchar list \<Rightarrow> bool" where
  "in_group regions = (case regions of [] \<Rightarrow> False | c # _ \<Rightarrow> c = chr CHR ''('' \<or> c = chr CHR ''['')"

abbreviation newline_token :: "token \<Rightarrow> bool" where
  "newline_token t \<equiv> is_newline (t_kind t)"

lemma length_rest: "length (dropWhile P xs) < Suc (length xs)"
  by (simp add: le_imp_less_Suc length_dropWhile_le)

lemma length_tail: "dropWhile P xs = u # us \<Longrightarrow> length us < length xs"
  using length_dropWhile_le [of P xs] by simp

function newline_loop :: "token list \<Rightarrow> rchar list \<Rightarrow> token list \<Rightarrow> token list" where
  "newline_loop [] regions out = out"
| "newline_loop (t # ts) regions out =
     (let regions = region_step (t_kind t) regions in
      if \<not> newline_token t then newline_loop ts regions (out @ [t])
      else
        let rest = dropWhile newline_token ts in
        if in_group regions then
          (case rest of
             [] \<Rightarrow> out
           | u # us \<Rightarrow> newline_loop us (region_step (t_kind u) regions) (out @ [u\<lparr>nl_before := True\<rparr>]))
        else
          let before = List.find (\<lambda>t. \<not> newline_token t) (rev out);
              keep =
                (case before of None \<Rightarrow> False | Some b \<Rightarrow> can_end_statement (t_kind b)) \<and>
                (case rest of [] \<Rightarrow> False | u # _ \<Rightarrow> can_begin_statement (t_kind u))
          in
            if keep then
              newline_loop rest regions
                (out @ [t\<lparr>blank_line := list_ex blank_line (t # takeWhile newline_token ts)\<rparr>])
            else
              (case rest of
                 u # us \<Rightarrow> newline_loop us (region_step (t_kind u) regions) (out @ [u\<lparr>nl_before := True\<rparr>])
               | [] \<Rightarrow> out))"
  by pat_completeness auto

termination
  by (relation "measure (\<lambda>(ts, regions, out). length ts)") (auto simp: length_rest dest!: sym [THEN length_tail] length_tail)

declare newline_loop.simps(2) [simp del]

definition drop_non_separating_newlines :: "token list \<Rightarrow> token list" where
  "drop_non_separating_newlines tokens = newline_loop tokens [] []"

definition post_process :: "token list \<Rightarrow> token list" where
  "post_process tokens = drop_trailing_commas (drop_non_separating_newlines (drop_semi_before_else tokens))"

section \<open>The rule for line breaks\<close>

text \<open>The tokens with the line breaks after each of them.\<close>

fun line_groups :: "token list \<Rightarrow> (token \<times> token list) list" where
  "line_groups [] = []"
| "line_groups (t # ts) = (if newline_token t then line_groups ts else (t, takeWhile newline_token ts) # line_groups ts)"

text \<open>
  Nsc's rule, gap by gap: the breaks after a token become one separator exactly when the innermost open bracket
  is a brace, the token can end a statement and the next can begin one; otherwise the next token
  is marked.
\<close>

definition separates :: "rchar list \<Rightarrow> token \<Rightarrow> token list \<Rightarrow> (token \<times> token list) list \<Rightarrow> bool" where
  "separates regions t breaks g \<longleftrightarrow>
     breaks \<noteq> [] \<and> g \<noteq> [] \<and> \<not> in_group regions \<and>
     can_end_statement (t_kind t) \<and> can_begin_statement (t_kind (fst (hd g)))"

fun separated :: "rchar list \<Rightarrow> bool \<Rightarrow> (token \<times> token list) list \<Rightarrow> token list" where
  "separated regions marked [] = []"
| "separated regions marked ((t, breaks) # g) =
     (let regions = region_step (t_kind t) regions;
          t = (if marked then t\<lparr>nl_before := True\<rparr> else t)
      in
        if separates regions t breaks g
        then t # (hd breaks)\<lparr>blank_line := list_ex blank_line breaks\<rparr> # separated regions False g
        else t # separated regions (breaks \<noteq> []) g)"

lemma newline_region [simp]: "is_newline k \<Longrightarrow> region_step k rs = rs"
  by (auto simp: is_newline_def region_step_def split: TokenKind.splits)

lemma line_groups_drop: "line_groups (dropWhile newline_token ts) = line_groups ts"
  by (induction ts) auto

lemma line_groups_start: "dropWhile newline_token ts = u # us \<Longrightarrow> line_groups ts = (u, takeWhile newline_token us) # line_groups us"
  using line_groups_drop [of ts] by (metis dropWhile_eq_Cons_conv line_groups.simps(2))

lemma newline_loop_push: "\<not> newline_token t \<Longrightarrow> newline_loop (t # ts) rs out = newline_loop ts (region_step (t_kind t) rs) (out @ [t])"
  by (simp add: newline_loop.simps(2) Let_def)

lemma line_groups_empty: "dropWhile newline_token ts = [] \<Longrightarrow> line_groups ts = []"
  by (induction ts) (auto split: if_splits)

lemma separated_mark: "separated rs True ((t, ns) # g) = separated rs False ((t\<lparr>nl_before := True\<rparr>, ns) # g)"
  by (simp add: separates_def Let_def)

lemma newline_loop_separated:
  "\<not> newline_token t \<Longrightarrow> newline_loop (t # ts) rs out = out @ separated rs False (line_groups (t # ts))"
proof (induction "length ts" arbitrary: t ts rs out rule: less_induct)
  case less
  let ?rs = "region_step (t_kind t) rs"
  have push: "newline_loop (t # ts) rs out = newline_loop ts ?rs (out @ [t])"
    using less.prems by (rule newline_loop_push)
  show ?case
  proof (cases ts)
    case Nil
    then show ?thesis using less.prems push by (simp add: separates_def Let_def)
  next
    case (Cons n ns)
    show ?thesis
    proof (cases "newline_token n")
      case False
      then show ?thesis using less.hyps [of ns n] less.prems push Cons by (simp add: separates_def Let_def)
    next
      case nl: True
      show ?thesis
      proof (cases "dropWhile newline_token ns")
        case Nil
        then show ?thesis
          using less.prems push Cons nl by (simp add: newline_loop.simps(2) Let_def separates_def line_groups_empty del: dropWhile_eq_Nil_conv)
      next
        case rest: (Cons u us)
        then have u: "\<not> newline_token u" by (simp add: dropWhile_eq_Cons_conv)
        have len: "length us < length ts" using length_tail [OF rest] Cons by simp
        obtain g where g: "line_groups ns = g" "g = (u, takeWhile newline_token us) # line_groups us"
          using line_groups_start [OF rest] by blast
        have plain: "newline_loop (u # us) rs out = out @ separated rs False g" for rs out
          using less.hyps [OF len u] u by (simp add: g(2))
        have "newline_loop (u\<lparr>nl_before := True\<rparr> # us) rs out = out @ separated rs True g" for rs out
          using less.hyps [OF len, of "u\<lparr>nl_before := True\<rparr>"] u by (simp add: g(2) separated_mark)
        then have marked: "newline_loop us (region_step (t_kind u) rs) (out @ [u\<lparr>nl_before := True\<rparr>]) = out @ separated rs True g" for rs out
          using u by (simp add: newline_loop_push)
        have hd: "g \<noteq> []" "fst (hd g) = u" by (simp_all add: g(2))
        show ?thesis
          using less.prems push Cons nl rest plain marked hd marked [of ?rs "out @ [t]"]
          by (simp add: newline_loop.simps(2) [of n] Let_def separates_def g(1))
      qed
    qed
  qed
qed

text \<open>What the passes drop, and what they leave at a line break.\<close>

fun breaks_ok :: "bool \<Rightarrow> token list \<Rightarrow> bool" where
  "breaks_ok e [] \<longleftrightarrow> True"
| "breaks_ok e (t # ts) \<longleftrightarrow>
     (if newline_token t
      then e \<and> (case ts of [] \<Rightarrow> False | u # _ \<Rightarrow> can_begin_statement (t_kind u)) \<and> breaks_ok False ts
      else breaks_ok (can_end_statement (t_kind t)) ts)"

definition content :: "(TokenKind \<Rightarrow> bool) \<Rightarrow> token list \<Rightarrow> (TokenKind \<times> span) list" where
  "content P ts = map (\<lambda>t. (t_kind t, t_span t)) (filter (\<lambda>t. P (t_kind t)) ts)"

lemma content_simps [simp]:
  "content P [] = []" "content P (t # ts) = (if P (t_kind t) then [(t_kind t, t_span t)] else []) @ content P ts"
  "content P (xs @ ys) = content P xs @ content P ys"
  by (simp_all add: content_def)

lemma begins_not_newline: "can_begin_statement k \<Longrightarrow> \<not> is_newline k"
  by (auto simp: can_begin_statement_def is_newline_def split: TokenKind.splits)

lemma ends_not_newline: "can_end_statement k \<Longrightarrow> \<not> is_newline k"
  by (auto simp: can_end_statement_def is_newline_def split: TokenKind.splits)

lemma comma_breaks: "is_comma k \<Longrightarrow> \<not> can_end_statement k \<and> \<not> can_begin_statement k \<and> \<not> is_newline k"
  by (auto simp: is_comma_def can_begin_statement_def can_end_statement_def is_newline_def split: TokenKind.splits)

lemma closing_breaks: "closes_group k \<Longrightarrow> \<not> is_newline k"
  by (auto simp: closes_group_def is_newline_def split: TokenKind.splits)

definition well_grouped :: "(token \<times> token list) list \<Rightarrow> bool" where
  "well_grouped g \<longleftrightarrow> (\<forall>(t, breaks) \<in> set g. \<not> newline_token t \<and> (\<forall>n \<in> set breaks. newline_token n))"

lemma line_groups_well: "well_grouped (line_groups ts)"
  by (induction ts) (auto simp: well_grouped_def dest: set_takeWhileD)

lemma separated_breaks_ok: "well_grouped g \<Longrightarrow> breaks_ok e (separated rs m g)"
proof (induction g arbitrary: e rs m)
  case (Cons a g)
  obtain t ns where a: "a = (t, ns)" by fastforce
  have g: "well_grouped g" and t: "\<not> newline_token t" and ns: "\<And>n. n \<in> set ns \<Longrightarrow> newline_token n"
    using Cons.prems by (auto simp: a well_grouped_def)
  note IH = Cons.IH [OF g]
  have head: "g \<noteq> [] \<Longrightarrow> (case separated rs' False g of [] \<Rightarrow> False | u # _ \<Rightarrow> P (t_kind u)) \<longleftrightarrow> P (t_kind (fst (hd g)))" for rs' P
    by (cases g) (auto simp: Let_def split: if_splits)
  show ?case
    using t ns [of "hd ns"] IH by (auto simp: a Let_def separates_def head)
qed simp

lemma separated_content: "well_grouped g \<Longrightarrow> (\<And>k. is_newline k \<Longrightarrow> \<not> P k) \<Longrightarrow> content P (separated rs m g) = content P (map fst g)"
proof (induction g arbitrary: rs m)
  case (Cons a g)
  obtain t ns where a: "a = (t, ns)" by fastforce
  have g: "well_grouped g" and ns: "\<And>n. n \<in> set ns \<Longrightarrow> newline_token n"
    using Cons.prems(1) by (auto simp: a well_grouped_def)
  show ?case
    using Cons.IH [OF g Cons.prems(2)] ns [of "hd ns"] Cons.prems(2) [of "t_kind (hd ns)"] by (auto simp: a Let_def separates_def)
qed simp

lemma line_groups_content: "(\<And>k. is_newline k \<Longrightarrow> \<not> P k) \<Longrightarrow> content P (map fst (line_groups ts)) = content P ts"
  by (induction ts) auto

lemma drop_commas_breaks: "breaks_ok e ts \<Longrightarrow> breaks_ok e (drop_trailing_commas ts)"
proof (induction ts arbitrary: e rule: drop_trailing_commas.induct)
  case (2 t ts)
  show ?case
  proof (cases "is_comma (t_kind t) \<and> (case ts of [] \<Rightarrow> False | n # _ \<Rightarrow> nl_before n \<and> closes_group (t_kind n))")
    case True
    then obtain n ns where ts: "ts = n # ns" "closes_group (t_kind n)" by (cases ts) auto
    have "breaks_ok e ts" using 2(3) True comma_breaks [of "t_kind t"] closing_breaks [OF ts(2)] by (auto simp: ts(1))
    then show ?thesis using 2(1) [OF True] True by simp
  next
    case False
    have "breaks_ok (if newline_token t then False else can_end_statement (t_kind t)) (drop_trailing_commas ts)"
      using 2(2) [OF False] 2(3) by (auto split: if_splits)
    moreover have "(case drop_trailing_commas ts of [] \<Rightarrow> False | u # _ \<Rightarrow> can_begin_statement (t_kind u))"
      if "(case ts of [] \<Rightarrow> False | u # _ \<Rightarrow> can_begin_statement (t_kind u))"
      using that comma_breaks by (cases ts) auto
    ultimately show ?thesis using False 2(3) by (auto split: if_splits)
  qed
qed simp

lemma newline_rule_aux:
  "drop_non_separating_newlines ts = separated [] (case ts of [] \<Rightarrow> False | t # _ \<Rightarrow> newline_token t) (line_groups ts)"
proof (cases "dropWhile newline_token ts")
  case Nil
  then show ?thesis
    by (cases ts) (auto simp: drop_non_separating_newlines_def newline_loop.simps(2) Let_def line_groups_empty in_group_def
                        simp del: dropWhile_eq_Nil_conv)
next
  case (Cons u us)
  then have u: "\<not> newline_token u" by (simp add: dropWhile_eq_Cons_conv)
  show ?thesis
    using Cons u newline_loop_separated [of u us "[]" "[]"] newline_loop_separated [of "u\<lparr>nl_before := True\<rparr>" us "[]" "[]"] line_groups_start [OF Cons]
    by (cases ts)
       (auto simp: drop_non_separating_newlines_def newline_loop.simps(2) newline_loop_push Let_def in_group_def separated_mark split: if_splits)
qed

lemma post_content:
  assumes "\<And>k. is_newline k \<or> is_semi k \<or> is_comma k \<Longrightarrow> \<not> P k"
  shows "content P (post_process ts) = content P ts"
proof -
  have "content P (drop_trailing_commas us) = content P us" for us
    using assms by (induction us rule: drop_trailing_commas.induct) auto
  moreover have "content P (drop_semi_before_else us) = content P us" for us
    using assms by (induction us) auto
  ultimately show ?thesis
    using assms by (simp add: post_process_def newline_rule_aux separated_content line_groups_well line_groups_content)
qed

lemma separates_mark [simp]: "separates rs (t\<lparr>nl_before := b\<rparr>) ns g = separates rs t ns g"
  by (simp add: separates_def)

section \<open>Properties\<close>

text \<open>
  C33: the line-break pass is nsc's rule, gap by gap: between two tokens the breaks become one separator exactly
  when the innermost open bracket is not a parenthesis or a square bracket, the token before can end a statement and the
  one after can begin one; where they do not, the token after is marked.
\<close>

theorem newline_rule:
  "drop_non_separating_newlines ts = separated [] (case ts of [] \<Rightarrow> False | t # _ \<Rightarrow> newline_token t) (line_groups ts)"
  by (rule newline_rule_aux)

text \<open>
  C34: after the three passes every line break left stands between a token that can end a statement and one that
  can begin one, so none is first, last or next to another.
\<close>

theorem breaks_separate: "breaks_ok False (post_process ts)"
  by (simp add: post_process_def newline_rule_aux drop_commas_breaks separated_breaks_ok line_groups_well)

text \<open>
  C35: the passes drop only line breaks, semicolons and commas: every other token is there after them, with its
  span, in order.
\<close>

theorem tokens_survive:
  "content (\<lambda>k. \<not> is_newline k \<and> \<not> is_semi k \<and> \<not> is_comma k) (post_process ts) =
   content (\<lambda>k. \<not> is_newline k \<and> \<not> is_semi k \<and> \<not> is_comma k) ts"
  by (rule post_content) auto

end
