(* ===== verification/Lexer.thy ===== *)
theory Lexer
  imports LexChars LexPost
begin

text \<open>
  The scanner of \<open>crates/lexer/src/lib.rs\<close>.  Its position is kept as the text before it and the text after it, so
  that a position is always between characters; a saved position is a saved state.  Positions are cast to \<open>u32\<close> as
  they become spans; the three casts the other way, \<open>lo as usize\<close> where an \<open>_\<close> starts a name (\<open>lex_underscore\<close>),
  \<open>id_lo as usize\<close> (\<open>ident_hole\<close>) and \<open>at as usize\<close> (\<open>ends_blank_line\<close>), are taken to be exact, which they are for
  sources under 4 GiB and not beyond.  The brace depth and the depth of comments, \<open>i32\<close>s, count characters and are
  numbers, which is exact for sources under 2 GiB.  A vector used as a stack has its top first.
\<close>

section \<open>The state\<close>

datatype InterpEscapes = Esc_Standard | Esc_Unicode | Esc_Verbatim

record interp_frame =
  fr_triple :: bool
  hole_brace :: int
  fr_escapes :: InterpEscapes

record lexer =
  lx_file :: nat
  lx_before :: str
  lx_rest :: str
  lx_tokens :: "token list"
  lx_diags :: "diagnostic list"
  brace_depth :: int
  interp_stack :: "interp_frame list"
  unicode_escapes_raw :: bool

definition lexer_new :: "source_file \<Rightarrow> nat \<Rightarrow> lexer" where
  "lexer_new source file =
     \<lparr>lx_file = file, lx_before = [], lx_rest = sf_src source, lx_tokens = [], lx_diags = [], brace_depth = 0,
      interp_stack = [], unicode_escapes_raw = False\<rparr>"

definition lx_pos :: "lexer \<Rightarrow> nat" where
  "lx_pos lx = str_len (lx_before lx)"

definition lx_src :: "lexer \<Rightarrow> str" where
  "lx_src lx = lx_before lx @ lx_rest lx"

text \<open>\<open>&self.src[start..self.pos]\<close>, where \<open>start\<close> is the position of an earlier state\<close>

definition text_since :: "lexer \<Rightarrow> lexer \<Rightarrow> str" where
  "text_since start lx = drop (length (lx_before start)) (lx_before lx)"

definition peek :: "lexer \<Rightarrow> rchar option" where
  "peek lx = (case lx_rest lx of [] \<Rightarrow> None | c # _ \<Rightarrow> Some c)"

definition peek_at :: "nat \<Rightarrow> lexer \<Rightarrow> rchar option" where
  "peek_at n lx = (case split_bytes n (lx_rest lx) of Some (_, c # _) \<Rightarrow> Some c | _ \<Rightarrow> None)"

text \<open>\<open>bump\<close>, for its effect; the character is the one \<open>peek\<close> shows.\<close>

definition advance :: "lexer \<Rightarrow> lexer" where
  "advance lx = (case lx_rest lx of [] \<Rightarrow> lx | c # cs \<Rightarrow> lx\<lparr>lx_before := lx_before lx @ [c], lx_rest := cs\<rparr>)"

definition bump :: "lexer \<Rightarrow> rchar option \<times> lexer" where
  "bump lx = (peek lx, advance lx)"

definition lx_starts_with :: "lexer \<Rightarrow> str \<Rightarrow> bool" where
  "lx_starts_with lx s = starts_with (lx_rest lx) s"

text \<open>\<open>while self.peek().is_some_and(P) { self.bump(); }\<close>\<close>

definition eat_while :: "(rchar \<Rightarrow> bool) \<Rightarrow> lexer \<Rightarrow> lexer" where
  "eat_while P lx = lx\<lparr>lx_before := lx_before lx @ takeWhile P (lx_rest lx), lx_rest := dropWhile P (lx_rest lx)\<rparr>"

definition peek_is :: "(rchar \<Rightarrow> bool) \<Rightarrow> lexer \<Rightarrow> bool" where
  "peek_is P lx = (case peek lx of None \<Rightarrow> False | Some c \<Rightarrow> P c)"

lemma eat_while_loop: "eat_while P lx = (if peek_is P lx then eat_while P (advance lx) else lx)"
  by (cases "lx_rest lx") (simp_all add: eat_while_def peek_is_def peek_def advance_def)

section \<open>Tokens and diagnostics\<close>

fun blank_scan :: "bytes \<Rightarrow> bool" where
  "blank_scan [] \<longleftrightarrow> False"
| "blank_scan (b # bs) \<longleftrightarrow> (if b \<in> {0x20, 0x09, 0x0D, 0x0C} then blank_scan bs else b = 0x0A)"

definition ends_blank_line :: "nat \<Rightarrow> lexer \<Rightarrow> bool" where
  "ends_blank_line pos lx = blank_scan (rev (take pos (as_bytes (lx_src lx))))"

definition lx_emit :: "TokenKind \<Rightarrow> nat \<Rightarrow> nat \<Rightarrow> lexer \<Rightarrow> lexer" where
  "lx_emit kind l h lx =
     lx\<lparr>lx_tokens := lx_tokens lx @
        [\<lparr>t_kind = kind, t_span = span_new (of_nat l) (of_nat h), nl_before = False,
          blank_line = (is_newline kind \<and> ends_blank_line l lx)\<rparr>]\<rparr>"

definition lx_error :: "nat \<Rightarrow> nat \<Rightarrow> str \<Rightarrow> lexer \<Rightarrow> lexer" where
  "lx_error l h msg lx = lx\<lparr>lx_diags := lx_diags lx @ [diag_error (lx_file lx) (span_new (of_nat l) (of_nat h)) msg]\<rparr>"

text \<open>An error from a position to the current one, and a token likewise.\<close>

definition error_here :: "nat \<Rightarrow> str \<Rightarrow> lexer \<Rightarrow> lexer" where
  "error_here l msg lx = lx_error l (lx_pos lx) msg lx"

definition emit_here :: "TokenKind \<Rightarrow> nat \<Rightarrow> lexer \<Rightarrow> lexer" where
  "emit_here kind l lx = lx_emit kind l (lx_pos lx) lx"

text \<open>The bytes of the longest common prefix.\<close>

fun common_prefix :: "str \<Rightarrow> str \<Rightarrow> nat" where
  "common_prefix (a # s) (b # t) = (if a = b then len_utf8 a + common_prefix s t else 0)"
| "common_prefix _ _ = 0"

definition unicode_escape_deprecation :: "str \<Rightarrow> str \<Rightarrow> nat \<Rightarrow> str \<Rightarrow> Phase \<Rightarrow> lexer \<Rightarrow> lexer" where
  "unicode_escape_deprecation raw processed content_lo msg phase lx =
     (if raw = processed then lx
      else
        let p = content_lo + common_prefix raw processed in
        lx\<lparr>lx_diags := lx_diags lx @
          [in_phase phase (with_category (Cat_Deprecation (lit ''2.13.2''))
             (diag_warning (lx_file lx) (span_new (of_nat p) (of_nat (p + 1))) msg))]\<rparr>)"

section \<open>Comments\<close>

definition skip_line_comment :: "lexer \<Rightarrow> lexer" where
  "skip_line_comment lx = eat_while (\<lambda>c. c \<noteq> 10) lx"

lemma advance_rest [simp]: "lx_rest (advance lx) = tl (lx_rest lx)"
  by (simp add: advance_def split: list.split)

lemma starts_with_length: "lx_starts_with lx s \<Longrightarrow> length s \<le> length (lx_rest lx)"
  by (auto simp: lx_starts_with_def strip_prefix_Some)

lemma starts_with_empty [simp]: "lx_rest lx = [] \<Longrightarrow> lx_starts_with lx (c # s) \<longleftrightarrow> False"
  by (simp add: lx_starts_with_def)

function comment_loop :: "nat \<Rightarrow> nat \<Rightarrow> lexer \<Rightarrow> lexer" where
  "comment_loop l depth lx =
     (if depth = 0 then lx
      else if lx_rest lx = [] then error_here l (lit ''unterminated block comment'') lx
      else if lx_starts_with lx (lit ''/*'') then comment_loop l (depth + 1) (advance (advance lx))
      else if lx_starts_with lx (lit ''*/'') then comment_loop l (depth - 1) (advance (advance lx))
      else comment_loop l depth (advance lx))"
  by pat_completeness auto
termination
  by (relation "measure (\<lambda>(l, depth, lx). length (lx_rest lx))")
     (auto simp: neq_Nil_conv)

declare comment_loop.simps [simp del]

definition skip_block_comment :: "lexer \<Rightarrow> lexer" where
  "skip_block_comment lx = comment_loop (lx_pos lx) 1 (advance (advance lx))"

section \<open>Escapes\<close>

text \<open>The simple escapes of a character: \<open>b t n f r " ' \\<close> after a backslash.\<close>

definition simple_escape :: "rchar \<Rightarrow> rchar option" where
  "simple_escape c =
     (if c = chr CHR ''b'' then Some 8
      else if c = chr CHR ''t'' then Some 9
      else if c = chr CHR ''n'' then Some 10
      else if c = chr CHR ''f'' then Some 12
      else if c = chr CHR ''r'' then Some 13
      else if c = 0x22 \<or> c = 0x27 \<or> c = 0x5C then Some c
      else None)"

fun read_hex :: "nat \<Rightarrow> nat \<Rightarrow> str \<Rightarrow> lexer \<Rightarrow> str option \<times> lexer" where
  "read_hex l 0 hex lx = (Some hex, lx)"
| "read_hex l (Suc n) hex lx =
     (case peek lx of
        Some c \<Rightarrow>
          if is_ascii_hexdigit c then read_hex l n (hex @ [c]) (advance lx)
          else (None, error_here l (lit ''invalid unicode escape'') lx)
      | None \<Rightarrow> (None, error_here l (lit ''invalid unicode escape'') lx))"

definition read_escape :: "nat \<Rightarrow> lexer \<Rightarrow> rchar option \<times> lexer" where
  "read_escape l lx =
     (case bump lx of
        (None, lx) \<Rightarrow> (None, error_here l (lit ''unterminated escape'') lx)
      | (Some c, lx) \<Rightarrow>
          (case simple_escape c of
             Some d \<Rightarrow> (Some d, lx)
           | None \<Rightarrow>
               if c = chr CHR ''u'' then
                 (case read_hex l 4 [] lx of
                    (None, lx) \<Rightarrow> (None, lx)
                  | (Some hex, lx) \<Rightarrow>
                      (case from_hex (2 ^ 32 - 1) hex of
                         None \<Rightarrow> (None, lx)
                       | Some cp \<Rightarrow>
                           (case char_from_u32 cp of
                              Some d \<Rightarrow> (Some d, lx)
                            | None \<Rightarrow> (None, error_here l (lit ''invalid unicode code point'') lx))))
               else (Some c, error_here l (lit ''invalid escape '' @ [0x5C, c]) lx)))"

text \<open>
  A text of the source that has backslashes, quotes or apostrophes: they are written as a backquote, a
  circumflex and a tilde.
\<close>

definition msg :: "string \<Rightarrow> str" where
  "msg s = map (\<lambda>c. if c = 0x60 then 0x5C else if c = 0x5E then 0x22 else if c = 0x7E then 0x27 else c) (lit s)"

text \<open>Four hexadecimal digits, as a character.\<close>

definition decode_hex :: "str \<Rightarrow> rchar option" where
  "decode_hex hex =
     (if str_len hex = 4 \<and> list_all is_ascii_hexdigit hex then Option.bind (from_hex (2 ^ 32 - 1) hex) char_from_u32 else None)"

lemma length_dropWhile_Suc: "length (dropWhile P xs) < Suc (length xs)"
  by (simp add: le_imp_less_Suc length_dropWhile_le)

lemma length_drop_dropWhile: "length (dropWhile P xs) - n < Suc (length xs)"
  using length_dropWhile_Suc [of P xs] by linarith

function escapes_loop :: "str \<Rightarrow> nat \<Rightarrow> nat \<Rightarrow> str \<Rightarrow> str \<Rightarrow> lexer \<Rightarrow> str \<times> lexer" where
  "escapes_loop s l i [] out lx = (out, lx)"
| "escapes_loop s l i (c # cs) out lx =
     (if c \<noteq> 0x5C then escapes_loop s l (i + 1) cs (out @ [c]) lx
      else case cs of
        [] \<Rightarrow>
          (out, error_here l (lit ''invalid escape at terminal index '' @ dec_str i @ msg '' in ^'' @ s @ msg ''^. Use `` for literal `.'') lx)
      | d # ds \<Rightarrow>
          (case simple_escape d of
             Some e \<Rightarrow> escapes_loop s l (i + 2) ds (out @ [e]) lx
           | None \<Rightarrow>
               if d = chr CHR ''u'' then
                 let after = dropWhile (\<lambda>c. c = chr CHR ''u'') ds;
                     j = i + 2 + (length ds - length after)
                 in
                   case decode_hex (take 4 after) of
                     Some e \<Rightarrow> escapes_loop s l (j + 4) (drop 4 after) (out @ [e]) lx
                   | None \<Rightarrow> (out, error_here l (lit ''invalid unicode escape'') lx)
               else
                 (out, error_here l
                    (msg ''invalid escape ~`'' @ [d] @
                     msg ''~ not one of [`b, `t, `n, `f, `r, ``, `^, `~, `uxxxx] at index '' @ dec_str i @ msg '' in ^'' @ s @
                     msg ''^. Use `` for literal `.'') lx)))"
  by pat_completeness auto
termination
  by (relation "measure (\<lambda>(s, l, i, chars, out, lx). length chars)") (auto intro: less_SucI length_drop_dropWhile)

definition process_escapes :: "str \<Rightarrow> nat \<Rightarrow> lexer \<Rightarrow> str \<times> lexer" where
  "process_escapes s l lx = (if 0x5C \<notin> set s then (s, lx) else escapes_loop s l 0 s [] lx)"

lemma length_dropWhile_dropWhile: "length (dropWhile Q (dropWhile P xs)) - n < Suc (length xs)"
  using length_dropWhile_le [of Q "dropWhile P xs"] length_dropWhile_le [of P xs] by linarith

function unicode_loop :: "nat \<Rightarrow> str \<Rightarrow> str \<Rightarrow> lexer \<Rightarrow> str \<times> lexer" where
  "unicode_loop l [] out lx = (out, lx)"
| "unicode_loop l (c # cs) out lx =
     (if c \<noteq> 0x5C then unicode_loop l cs (out @ [c]) lx
      else
        let run = length (takeWhile (\<lambda>c. c = 0x5C) (c # cs));
            out = out @ replicate (run - 1) 0x5C;
            after = dropWhile (\<lambda>c. c = 0x5C) cs
        in
          if odd run \<and> (case after of [] \<Rightarrow> False | d # _ \<Rightarrow> d = chr CHR ''u'') then
            let digits = dropWhile (\<lambda>c. c = chr CHR ''u'') after in
            case decode_hex (take 4 digits) of
              Some e \<Rightarrow> unicode_loop l (drop 4 digits) (out @ [e]) lx
            | None \<Rightarrow> unicode_loop l after (out @ [0x5C]) (error_here l (lit ''invalid unicode escape'') lx)
          else unicode_loop l after (out @ [0x5C]) lx)"
  by pat_completeness auto

termination
  by (relation "measure (\<lambda>(l, chars, out, lx). length chars)")
     (auto intro: length_dropWhile_dropWhile length_dropWhile_Suc simp del: takeWhile.simps)

definition process_unicode :: "str \<Rightarrow> nat \<Rightarrow> lexer \<Rightarrow> str \<times> lexer" where
  "process_unicode s l lx = (if \<not> str_contains s (msg ''`u'') then (s, lx) else unicode_loop l s [] lx)"

section \<open>Interpolated strings\<close>

definition finish_interp_part :: "str \<Rightarrow> nat \<Rightarrow> lexer \<Rightarrow> str \<times> lexer" where
  "finish_interp_part buf l lx =
     (case interp_stack lx of
        [] \<Rightarrow> (buf, lx)
      | f # _ \<Rightarrow>
          (case fr_escapes f of
             Esc_Unicode \<Rightarrow>
               let (processed, lx) = process_unicode buf l lx in
               (processed,
                unicode_escape_deprecation buf processed l
                  (lit ''Unicode escapes in raw interpolations are deprecated; use literal characters instead'') Phase_Typer lx)
           | Esc_Standard \<Rightarrow> if fr_triple f then process_escapes buf l lx else (buf, lx)
           | Esc_Verbatim \<Rightarrow> (buf, lx)))"

definition pop_frame :: "lexer \<Rightarrow> lexer" where
  "pop_frame lx = lx\<lparr>interp_stack := tl (interp_stack lx)\<rparr>"

text \<open>\<open>self.interp_stack.last_mut().unwrap().hole_brace = b\<close>\<close>

definition set_hole :: "int \<Rightarrow> lexer \<Rightarrow> lexer" where
  "set_hole b lx =
     lx\<lparr>interp_stack := (case interp_stack lx of [] \<Rightarrow> [] | f # fs \<Rightarrow> f\<lparr>hole_brace := b\<rparr> # fs)\<rparr>"

text \<open>The end of a literal: its last part.\<close>

definition end_interp :: "str \<Rightarrow> nat \<Rightarrow> lexer \<Rightarrow> lexer" where
  "end_interp buf l lx =
     (let (part, lx) = finish_interp_part buf l lx in pop_frame (emit_here (TK_InterpEnd part) l lx))"

text \<open>The part before a hole.\<close>

definition string_part :: "str \<Rightarrow> nat \<Rightarrow> lexer \<Rightarrow> lexer" where
  "string_part buf l lx = (let (part, lx) = finish_interp_part buf l lx in emit_here (TK_StringPart part) l lx)"

definition wildcard_hole :: "str \<Rightarrow> nat \<Rightarrow> lexer \<Rightarrow> lexer" where
  "wildcard_hole buf l lx =
     (let lx = advance (string_part buf l lx); us_lo = lx_pos lx in emit_here TK_Underscore us_lo (advance lx))"

definition block_hole :: "str \<Rightarrow> nat \<Rightarrow> lexer \<Rightarrow> lexer" where
  "block_hole buf l lx =
     (let lx = advance (string_part buf l lx);
          brace_lo = lx_pos lx;
          lx = advance lx;
          lx = lx\<lparr>brace_depth := brace_depth lx + 1\<rparr>;
          lx = emit_here TK_LBrace brace_lo lx
      in set_hole (brace_depth lx) lx)"

definition ident_hole :: "std_lib \<Rightarrow> str \<Rightarrow> nat \<Rightarrow> lexer \<Rightarrow> lexer" where
  "ident_hole sl buf l lx =
     (let start = advance (string_part buf l lx);
          lx = eat_while (is_interp_id_part sl) (advance start)
      in emit_here (TK_InterpId (text_since start lx)) (lx_pos start) lx)"

definition bad_dollar :: "bool \<Rightarrow> nat \<Rightarrow> lexer \<Rightarrow> lexer" where
  "bad_dollar triple dollar lx =
     (let what = (case peek lx of
                    Some c \<Rightarrow> if triple \<and> lx_starts_with lx (msg ''^^^'') then lit ''$'' else [chr CHR ''$'', c]
                  | None \<Rightarrow> lit ''$'')
      in lx_error dollar (dollar + 1)
           (lit ''invalid string interpolation '' @ what @ msg '', expected: $$, $^, $identifier or ${expression}'') lx)"

definition unclosed_msg :: "bool \<Rightarrow> str" where
  "unclosed_msg seen =
     (if seen
      then lit ''unclosed string literal; note that '' @ [0x60, 0x5C, 0x22, 0x60] @
        lit '' no longer closes single-quoted interpolated string literals since 2.13.6, you can use a triple-quoted string instead''
      else lit ''unterminated interpolated string'')"

text \<open>What the readers do to the text: they move forward.\<close>

lemma eat_while_rest [simp]: "lx_rest (eat_while P lx) = dropWhile P (lx_rest lx)"
  by (simp add: eat_while_def)

lemma error_here_rest [simp]: "lx_rest (error_here l m lx) = lx_rest lx"
  by (simp add: error_here_def lx_error_def)

lemma lx_error_rest [simp]: "lx_rest (lx_error l h m lx) = lx_rest lx"
  by (simp add: lx_error_def)

lemma bad_dollar_rest [simp]: "lx_rest (bad_dollar t d lx) = lx_rest lx"
  by (simp add: bad_dollar_def)

lemma read_hex_rest: "length (lx_rest (snd (read_hex l n hex lx))) \<le> length (lx_rest lx)"
proof (induction n arbitrary: hex lx)
  case (Suc n)
  then show ?case by (auto simp: Let_def split: option.split intro: le_trans [OF Suc])
qed simp

lemma read_escape_rest: "length (lx_rest (snd (read_escape l lx))) \<le> length (lx_rest lx)"
  using read_hex_rest [of l 4 "[]" "advance lx"] by (auto simp: read_escape_def bump_def split: option.split prod.split)

lemma read_escape_shorter:
  "(r, lx') = read_escape l (advance lx) \<Longrightarrow> lx_rest lx \<noteq> [] \<Longrightarrow> length (lx_rest lx') < length (lx_rest lx)"
  using read_escape_rest [of l "advance lx"] by (cases "lx_rest lx") (auto simp: prod_eq_iff)

lemma tl_shorter [simp]: "xs \<noteq> [] \<Longrightarrow> length (tl xs) < length xs" "xs \<noteq> [] \<Longrightarrow> length xs - 2 < length xs"
  by (cases xs; simp)+

function interp_loop :: "std_lib \<Rightarrow> bool \<Rightarrow> nat \<Rightarrow> str \<Rightarrow> bool \<Rightarrow> lexer \<Rightarrow> lexer" where
  "interp_loop sl triple l buf seen lx =
     (case lx_rest lx of
        [] \<Rightarrow> pop_frame (error_here l (unclosed_msg seen) lx)
      | c # cs \<Rightarrow>
          if \<not> triple \<and> c = 10 then pop_frame (error_here l (unclosed_msg seen) lx)
          else if triple \<and> lx_starts_with lx (msg ''^^^'') then
            let lx = advance (advance (advance lx)) in
            end_interp (buf @ takeWhile (\<lambda>c. c = 0x22) (lx_rest lx)) l (eat_while (\<lambda>c. c = 0x22) lx)
          else if \<not> triple \<and> c = 0x22 then end_interp buf l (advance lx)
          else if c = chr CHR ''$'' then
            (case cs of
               d # _ \<Rightarrow>
                 if d = chr CHR ''$'' \<or> d = 0x22 then interp_loop sl triple l (buf @ [d]) seen (advance (advance lx))
                 else if d = chr CHR ''_'' then wildcard_hole buf l lx
                 else if d = chr CHR ''{'' then block_hole buf l lx
                 else if is_interp_id_start sl d then ident_hole sl buf l lx
                 else interp_loop sl triple l (buf @ [c]) seen (bad_dollar triple (lx_pos lx) (advance lx))
             | [] \<Rightarrow> interp_loop sl triple l (buf @ [c]) seen (bad_dollar triple (lx_pos lx) (advance lx)))
          else
            let escapes = (case interp_stack lx of [] \<Rightarrow> Esc_Verbatim | f # _ \<Rightarrow> fr_escapes f) in
            if c = 0x5C \<and> escapes = Esc_Standard \<and> \<not> triple then
              let elo = lx_pos lx;
                  lx1 = advance lx;
                  seen = (seen \<or> peek lx1 = Some 0x22)
              in
                case read_escape elo lx1 of
                  (Some ch, lx2) \<Rightarrow> interp_loop sl triple l (buf @ [ch]) seen lx2
                | (None, lx2) \<Rightarrow> lx2
            else if c = 0x5C \<and> \<not> triple then
              (case cs of
                 d # _ \<Rightarrow>
                   if d = 0x22 \<or> d = 0x5C
                   then interp_loop sl triple l (buf @ [c, d]) (seen \<or> d = 0x22) (advance (advance lx))
                   else interp_loop sl triple l (buf @ [c]) seen (advance lx)
               | [] \<Rightarrow> interp_loop sl triple l (buf @ [c]) seen (advance lx))
            else interp_loop sl triple l (buf @ [c]) seen (advance lx))"
  by pat_completeness auto
termination
  by (relation "measure (\<lambda>(sl, triple, l, buf, seen, lx). length (lx_rest lx))")
     (auto dest: read_escape_shorter)

declare interp_loop.simps [simp del]

definition lex_interp_string :: "std_lib \<Rightarrow> lexer \<Rightarrow> lexer" where
  "lex_interp_string sl lx =
     (case interp_stack lx of
        [] \<Rightarrow> lx
      | f # _ \<Rightarrow> interp_loop sl (fr_triple f) (lx_pos lx) [] False lx)"

section \<open>Strings and characters\<close>

lemma peek_Some: "peek lx = Some c \<Longrightarrow> lx_rest lx \<noteq> []"
  by (auto simp: peek_def)

function read_single_string :: "str \<Rightarrow> lexer \<Rightarrow> str option \<times> lexer" where
  "read_single_string buf lx =
     (case peek lx of
        None \<Rightarrow> (None, lx)
      | Some c \<Rightarrow>
          if c = 0x22 then (Some buf, advance lx)
          else if c = 10 then (None, lx)
          else if c = 0x5C then
            (case read_escape (lx_pos lx) (advance lx) of
               (None, lx) \<Rightarrow> (None, lx)
             | (Some ch, lx) \<Rightarrow> read_single_string (buf @ [ch]) lx)
          else read_single_string (buf @ [c]) (advance lx))"
  by pat_completeness auto

termination
  by (relation "measure (\<lambda>(buf, lx). length (lx_rest lx))") (auto dest: peek_Some read_escape_shorter)

declare read_single_string.simps [simp del]

function read_triple_string :: "str \<Rightarrow> lexer \<Rightarrow> str option \<times> lexer" where
  "read_triple_string buf lx =
     (case lx_rest lx of
        [] \<Rightarrow> (None, lx)
      | c # _ \<Rightarrow>
          if lx_starts_with lx (msg ''^^^'') then
            let lx = advance (advance (advance lx)) in
            (Some (buf @ takeWhile (\<lambda>c. c = 0x22) (lx_rest lx)), eat_while (\<lambda>c. c = 0x22) lx)
          else read_triple_string (buf @ [c]) (advance lx))"
  by pat_completeness auto
termination
  by (relation "measure (\<lambda>(buf, lx). length (lx_rest lx))") auto

declare read_triple_string.simps [simp del]

definition open_quotes :: "bool \<Rightarrow> lexer \<Rightarrow> lexer" where
  "open_quotes triple lx = (if triple then advance (advance (advance lx)) else advance lx)"

definition interp_escapes :: "bool \<Rightarrow> str \<Rightarrow> InterpEscapes" where
  "interp_escapes raw pre =
     (if pre = lit ''s'' \<or> pre = lit ''f'' then Esc_Standard
      else if pre = lit ''raw'' \<and> \<not> raw then Esc_Unicode
      else Esc_Verbatim)"

definition lex_interpolation :: "std_lib \<Rightarrow> str \<Rightarrow> lexer \<Rightarrow> lexer" where
  "lex_interpolation sl pre start =
     (let triple = lx_starts_with start (msg ''^^^'');
          lx = open_quotes triple start;
          lx = emit_here (TK_InterpStart pre triple) (lx_pos start) lx;
          frame = \<lparr>fr_triple = triple, hole_brace = -1, fr_escapes = interp_escapes (unicode_escapes_raw lx) pre\<rparr>
      in lex_interp_string sl (lx\<lparr>interp_stack := frame # interp_stack lx\<rparr>))"

definition lex_plain_string :: "lexer \<Rightarrow> lexer" where
  "lex_plain_string start =
     (let l = lx_pos start;
          triple = lx_starts_with start (msg ''^^^'');
          lx = open_quotes triple start
      in
        if triple then
          (case read_triple_string [] lx of
             (Some s, lx) \<Rightarrow>
               let (s, lx) =
                     (if unicode_escapes_raw lx then (s, lx)
                      else
                        let (processed, lx) = process_unicode s l lx in
                        (processed,
                         unicode_escape_deprecation s processed (l + 3)
                           (lit ''Unicode escapes in triple quoted strings are deprecated; use the literal character instead'')
                           Phase_Parser lx))
               in emit_here (TK_StringLit s) l lx
           | (None, lx) \<Rightarrow> error_here l (lit ''unterminated triple-quoted string'') lx)
        else
          (case read_single_string [] lx of
             (Some s, lx) \<Rightarrow> emit_here (TK_StringLit s) l lx
           | (None, lx) \<Rightarrow> error_here l (lit ''unterminated string literal'') lx))"

definition lex_string :: "std_lib \<Rightarrow> str option \<Rightarrow> lexer \<Rightarrow> lexer" where
  "lex_string sl interp_prefix lx =
     (case interp_prefix of Some pre \<Rightarrow> lex_interpolation sl pre lx | None \<Rightarrow> lex_plain_string lx)"

text \<open>A character already read, up to its closing quote.\<close>

definition close_char :: "rchar \<Rightarrow> nat \<Rightarrow> lexer \<Rightarrow> lexer" where
  "close_char ch l lx =
     (if peek lx = Some 0x27 then emit_here (TK_CharLit ch) l (advance lx)
      else error_here l (lit ''unterminated character literal'') lx)"

definition lex_char_or_symbol :: "std_lib \<Rightarrow> lexer \<Rightarrow> lexer" where
  "lex_char_or_symbol sl start =
     (let l = lx_pos start;
          saved = advance start
      in
        case bump saved of
          (None, lx) \<Rightarrow> error_here l (lit ''unterminated character literal'') lx
        | (Some c, lx) \<Rightarrow>
            if is_id_start sl c then
              (if peek lx = Some 0x27 then emit_here (TK_CharLit c) l (advance lx)
               else
                 let lx = eat_while (is_id_part sl) saved in
                 emit_here (TK_SymbolLit (text_since saved lx)) l lx)
            else if c = 0x5C then
              (case read_escape l lx of
                 (Some ch, lx) \<Rightarrow> close_char ch l lx
               | (None, lx) \<Rightarrow> lx)
            else close_char c l lx)"

section \<open>Identifiers and operators\<close>

definition lex_ident_or_kw :: "std_lib \<Rightarrow> lexer \<Rightarrow> lexer" where
  "lex_ident_or_kw sl start =
     (let lx = (if peek_is (is_id_start sl) start then advance start else start);
          lx = eat_while (is_id_part sl) lx;
          t = text_since start lx;
          lx = (if 1 < str_len t \<and> last t = chr CHR ''_'' then eat_while is_op_char lx else lx);
          text = text_since start lx
      in
        if peek lx = Some 0x22 then lex_string sl (Some text) lx
        else emit_here (case keyword_kind text of Some k \<Rightarrow> k | None \<Rightarrow> TK_Ident text) (lx_pos start) lx)"

function backtick_loop :: "nat \<Rightarrow> str \<Rightarrow> lexer \<Rightarrow> lexer" where
  "backtick_loop l text lx =
     (case peek lx of
        None \<Rightarrow> error_here l (lit ''unterminated backquoted identifier'') lx
      | Some c \<Rightarrow>
          if c = 0x60 then
            (if text = [] then error_here l (lit ''empty quoted identifier'') (advance lx)
             else emit_here (TK_Ident text) l (advance lx))
          else if c = 10 \<or> c = 13 \<or> c = 12 then error_here l (lit ''unterminated backquoted identifier'') lx
          else if c = 0x5C then
            let escape_lo = lx_pos lx;
                lx1 = advance lx
            in
              if peek lx1 = Some (chr CHR ''$'') then lx_error escape_lo (lx_pos lx1 + 1) (msg ''invalid escape `$'') lx1
              else
                case read_escape escape_lo lx1 of
                  (Some ch, lx2) \<Rightarrow> backtick_loop l (text @ [ch]) lx2
                | (None, lx2) \<Rightarrow> lx2
          else backtick_loop l (text @ [c]) (advance lx))"
  by pat_completeness auto
termination
  by (relation "measure (\<lambda>(l, text, lx). length (lx_rest lx))") (auto dest: peek_Some read_escape_shorter)

declare backtick_loop.simps [simp del]

definition lex_backtick :: "lexer \<Rightarrow> lexer" where
  "lex_backtick lx = backtick_loop (lx_pos lx) [] (advance lx)"

function operator_loop :: "lexer \<Rightarrow> lexer \<Rightarrow> lexer" where
  "operator_loop start lx =
     (case peek lx of
        None \<Rightarrow> lx
      | Some c \<Rightarrow>
          if \<not> is_op_char c then lx
          else
            let sofar = text_since start lx in
            if sofar \<noteq> [] \<and> last sofar = chr CHR ''>'' \<and> (c = chr CHR ''<'' \<or> c = chr CHR ''&'') then lx
            else if sofar \<noteq> [] \<and> c = chr CHR ''/'' \<and>
                    (case peek_at 1 lx of Some d \<Rightarrow> d = chr CHR ''/'' \<or> d = chr CHR ''*'' | None \<Rightarrow> False) then lx
            else operator_loop start (advance lx))"
  by pat_completeness auto
termination
  by (relation "measure (\<lambda>(start, lx). length (lx_rest lx))") (auto dest: peek_Some)

declare operator_loop.simps [simp del]

definition operator_kind :: "str \<Rightarrow> TokenKind" where
  "operator_kind text =
     (if text = lit ''=>'' \<or> text = [0x21D2] then TK_Arrow
      else if text = lit ''<-'' \<or> text = [0x2190] then TK_LeftArrow
      else if text = lit ''<:'' then TK_Subtype
      else if text = lit ''>:'' then TK_Supertype
      else if text = lit ''<%'' then TK_ViewBound
      else if text = lit ''='' then TK_Equals
      else if text = lit '':'' then TK_Colon
      else if text = lit ''@'' then TK_At
      else if text = lit ''#'' then TK_Hash
      else TK_Ident text)"

definition lex_operator :: "lexer \<Rightarrow> lexer" where
  "lex_operator start =
     (if peek start = Some (chr CHR ''<'') \<and> (peek_at 1 start = Some (chr CHR ''!'') \<or> peek_at 1 start = Some (chr CHR ''?''))
      then emit_here (TK_Ident (lit ''<'')) (lx_pos start) (advance start)
      else
        let lx = operator_loop start start in
        emit_here (operator_kind (text_since start lx)) (lx_pos start) lx)"

section \<open>Numbers\<close>

datatype NumSuffix = Suffix_None | Suffix_Long | Suffix_Float | Suffix_DoubleForced

definition eat_num_suffix :: "lexer \<Rightarrow> NumSuffix \<times> lexer" where
  "eat_num_suffix lx =
     (if peek_is (\<lambda>c. c = chr CHR ''l'' \<or> c = chr CHR ''L'') lx then (Suffix_Long, advance lx)
      else if peek_is (\<lambda>c. c = chr CHR ''f'' \<or> c = chr CHR ''F'') lx then (Suffix_Float, advance lx)
      else if peek_is (\<lambda>c. c = chr CHR ''d'' \<or> c = chr CHR ''D'') lx then (Suffix_DoubleForced, advance lx)
      else (Suffix_None, lx))"

text \<open>\<open>s.parse\<close> for an unsigned type with maximum \<open>m\<close>\<close>

fun dec_value :: "nat \<Rightarrow> nat \<Rightarrow> str \<Rightarrow> nat option" where
  "dec_value m v [] = Some v"
| "dec_value m v (c # cs) =
     (if is_ascii_digit c \<and> v * 10 + (c - 0x30) \<le> m then dec_value m (v * 10 + (c - 0x30)) cs else None)"

definition parse_dec :: "nat \<Rightarrow> str \<Rightarrow> nat option" where
  "parse_dec m s =
     (case s of
        [] \<Rightarrow> None
      | c # cs \<Rightarrow> if c = chr CHR ''+'' then (if cs = [] then None else dec_value m 0 cs) else dec_value m 0 s)"

definition U64_MAX :: nat where
  "U64_MAX = 2 ^ 64 - 1"

definition emit_int_from_radix :: "str \<Rightarrow> NumSuffix \<Rightarrow> nat \<Rightarrow> lexer \<Rightarrow> lexer" where
  "emit_int_from_radix digits suf l lx =
     (let bits = from_hex U64_MAX digits in
      case suf of
        Suffix_Long \<Rightarrow>
          (case bits of
             Some v \<Rightarrow> emit_here (TK_LongLit (of_nat v)) l lx
           | None \<Rightarrow> error_here l (lit ''hex literal out of range'') lx)
      | Suffix_None \<Rightarrow>
          (case bits of
             Some v \<Rightarrow>
               if v \<le> 0xFFFFFFFF then emit_here (TK_IntLit (of_nat v)) l lx
               else error_here l (lit ''hex literal out of range'') lx
           | None \<Rightarrow> error_here l (lit ''hex literal out of range'') lx)
      | _ \<Rightarrow> error_here l (lit ''invalid suffix on hex literal'') lx)"

definition underscore :: rchar where
  "underscore = chr CHR ''_''"

definition digit_or_underscore :: "rchar \<Rightarrow> bool" where
  "digit_or_underscore c \<longleftrightarrow> is_ascii_digit c \<or> c = underscore"

definition lex_hex :: "lexer \<Rightarrow> lexer" where
  "lex_hex start =
     (let digits_start = advance (advance start);
          lx = eat_while (\<lambda>c. is_ascii_hexdigit c \<or> c = underscore) digits_start
      in
        if lx_pos lx = lx_pos digits_start then error_here (lx_pos start) (lit ''invalid hex literal'') lx
        else
          let raw = filter (\<lambda>c. c \<noteq> underscore) (text_since digits_start lx);
              (suf, lx) = eat_num_suffix lx
          in emit_int_from_radix raw suf (lx_pos start) lx)"

text \<open>The digits, the fraction and the exponent.\<close>

definition eat_fraction :: "lexer \<Rightarrow> lexer" where
  "eat_fraction lx =
     (if peek lx = Some (chr CHR ''.'') \<and> (case peek_at 1 lx of Some c \<Rightarrow> is_ascii_digit c | None \<Rightarrow> False)
      then eat_while digit_or_underscore (advance lx)
      else lx)"

definition eat_exponent :: "lexer \<Rightarrow> lexer" where
  "eat_exponent lx =
     (if peek lx = Some (chr CHR ''e'') \<or> peek lx = Some (chr CHR ''E'') then
        let lx = advance lx;
            lx = (if peek lx = Some (chr CHR ''+'') \<or> peek lx = Some (chr CHR ''-'') then advance lx else lx)
        in eat_while digit_or_underscore lx
      else lx)"

definition is_num_suffix :: "rchar \<Rightarrow> bool" where
  "is_num_suffix c \<longleftrightarrow> c \<in> set (lit ''lLfFdD'')"

definition emit_number :: "std_lib \<Rightarrow> NumSuffix \<Rightarrow> str \<Rightarrow> nat \<Rightarrow> lexer \<Rightarrow> lexer" where
  "emit_number sl suf body l lx =
     (case suf of
        Suffix_Long \<Rightarrow>
          (case parse_dec U64_MAX body of
             Some v \<Rightarrow>
               if v \<le> 2 ^ 63 then emit_here (TK_LongLit (of_nat v)) l lx
               else emit_here (TK_LongLit 0) l (error_here l (lit ''integer number too large'') lx)
           | None \<Rightarrow> emit_here (TK_LongLit 0) l (error_here l (lit ''integer number too large'') lx))
      | Suffix_Float \<Rightarrow>
          (case parse_f32 sl body of
             Some v \<Rightarrow> emit_here (TK_FloatLit v) l lx
           | None \<Rightarrow> error_here l (lit ''invalid float literal'') lx)
      | _ \<Rightarrow>
          if chr CHR ''.'' \<in> set body \<or> chr CHR ''e'' \<in> set body \<or> chr CHR ''E'' \<in> set body \<or> suf = Suffix_DoubleForced then
            (case parse_f64 sl body of
               Some v \<Rightarrow> emit_here (TK_DoubleLit v) l lx
             | None \<Rightarrow> error_here l (lit ''invalid double literal'') lx)
          else
            (case parse_dec U64_MAX body of
               Some v \<Rightarrow>
                 if v \<le> 2 ^ 31 then emit_here (TK_IntLit (of_nat v)) l lx
                 else emit_here (TK_IntLit 0) l (error_here l (lit ''integer number too large'') lx)
             | None \<Rightarrow> emit_here (TK_IntLit 0) l (error_here l (lit ''integer number too large'') lx)))"

definition lex_number :: "std_lib \<Rightarrow> lexer \<Rightarrow> lexer" where
  "lex_number sl start =
     (if lx_starts_with start (lit ''0x'') \<or> lx_starts_with start (lit ''0X'') then lex_hex start
      else
        let lx = eat_exponent (eat_fraction (eat_while digit_or_underscore start));
            (suf, lx) = eat_num_suffix lx;
            body = filter (\<lambda>c. c \<noteq> underscore) (trim_end is_num_suffix (text_since start lx))
        in emit_number sl suf body (lx_pos start) lx)"

section \<open>The main loop\<close>

text \<open>A token of one character.\<close>

definition one_char :: "TokenKind \<Rightarrow> lexer \<Rightarrow> lexer" where
  "one_char kind lx = emit_here kind (lx_pos lx) (advance lx)"

definition open_brace :: "lexer \<Rightarrow> lexer" where
  "open_brace lx =
     (let lx1 = advance lx; lx1 = lx1\<lparr>brace_depth := brace_depth lx1 + 1\<rparr> in emit_here TK_LBrace (lx_pos lx) lx1)"

definition close_brace :: "lexer \<Rightarrow> lexer" where
  "close_brace lx =
     (let closes_hole = (case interp_stack lx of [] \<Rightarrow> False | f # _ \<Rightarrow> 0 \<le> hole_brace f \<and> brace_depth lx = hole_brace f);
          lx1 = advance lx;
          lx1 = lx1\<lparr>brace_depth := brace_depth lx1 - 1\<rparr>;
          lx1 = emit_here TK_RBrace (lx_pos lx) lx1
      in if closes_hole then set_hole (-1) lx1 else lx1)"

definition lex_underscore :: "std_lib \<Rightarrow> lexer \<Rightarrow> lexer" where
  "lex_underscore sl lx =
     (if peek_is (is_id_part sl) (advance lx) \<or> peek_is is_op_char (advance lx) then lex_ident_or_kw sl lx
      else one_char TK_Underscore lx)"

text \<open>\<open>@\<close> or \<open>#\<close>, alone or the start of an operator\<close>

definition lone_or_operator :: "TokenKind \<Rightarrow> lexer \<Rightarrow> lexer" where
  "lone_or_operator kind lx =
     (if (case peek_at 1 lx of Some d \<Rightarrow> is_op_char d | None \<Rightarrow> False) then lex_operator lx else one_char kind lx)"

definition lex_slash :: "lexer \<Rightarrow> lexer" where
  "lex_slash lx =
     (if lx_starts_with lx (lit ''//'') then skip_line_comment lx
      else if lx_starts_with lx (lit ''/*'') then skip_block_comment lx
      else lex_operator lx)"

definition unexpected_char :: "std_lib \<Rightarrow> rchar \<Rightarrow> lexer \<Rightarrow> lexer" where
  "unexpected_char sl c lx = error_here (lx_pos lx) (lit ''unexpected character '' @ debug_char sl c) (advance lx)"

definition lex_normal :: "std_lib \<Rightarrow> lexer \<Rightarrow> lexer" where
  "lex_normal sl lx =
     (case peek lx of
        None \<Rightarrow> lx
      | Some c \<Rightarrow>
          if c = 0x20 \<or> c = 9 \<or> c = 13 \<or> c = 12 then advance lx
          else if c = 10 then one_char TK_Newline lx
          else if c = chr CHR ''/'' then lex_slash lx
          else if c = 0x22 then lex_string sl None lx
          else if c = 0x27 then lex_char_or_symbol sl lx
          else if c = 0x60 then lex_backtick lx
          else if is_ascii_digit c then lex_number sl lx
          else if c = chr CHR ''('' then one_char TK_LParen lx
          else if c = chr CHR '')'' then one_char TK_RParen lx
          else if c = chr CHR ''['' then one_char TK_LBracket lx
          else if c = chr CHR '']'' then one_char TK_RBracket lx
          else if c = chr CHR ''{'' then open_brace lx
          else if c = chr CHR ''}'' then close_brace lx
          else if c = chr CHR '','' then one_char TK_Comma lx
          else if c = chr CHR ''.'' then one_char TK_Dot lx
          else if c = chr CHR '';'' then one_char TK_Semi lx
          else if c = underscore then lex_underscore sl lx
          else if c = chr CHR ''@'' then lone_or_operator TK_At lx
          else if c = chr CHR ''#'' then lone_or_operator TK_Hash lx
          else if is_id_start sl c then lex_ident_or_kw sl lx
          else if is_op_char c then lex_operator lx
          else unexpected_char sl c lx)"

end
