(* ===== verification/Tokenize.thy ===== *)
theory Tokenize
  imports Lexer
begin

text \<open>
  The contract of a scanning step and the main loop of \<open>crates/lexer/src/lib.rs\<close>.  A step moves forward over the text,
  adds tokens whose spans lie in order in what it moved over, and uses up weight: two for a character, one
  for an open interpolation.  The loop ends because every step does.
\<close>

section \<open>Tokens in order\<close>

definition lex_span :: "nat \<Rightarrow> nat \<Rightarrow> span" where
  "lex_span l h = span_new (of_nat l) (of_nat h)"

text \<open>A byte offset between two characters, where \<open>&src[n..]\<close> does not panic.\<close>

definition boundary :: "str \<Rightarrow> nat \<Rightarrow> bool" where
  "boundary src n \<longleftrightarrow> split_bytes n src \<noteq> None"

fun tokens_between :: "str \<Rightarrow> nat \<Rightarrow> nat \<Rightarrow> token list \<Rightarrow> bool" where
  "tokens_between src p q [] \<longleftrightarrow> p \<le> q"
| "tokens_between src p q (t # ts) \<longleftrightarrow>
     \<not> is_eof (t_kind t) \<and> \<not> nl_before t \<and>
     (\<exists>l h. t_span t = lex_span l h \<and> p \<le> l \<and> l \<le> h \<and> boundary src l \<and> boundary src h \<and> tokens_between src h q ts)"

lemma boundary_append: "boundary (x @ y) (str_len x)"
  by (auto simp: boundary_def split_bytes_Some)

lemma boundary_pos: "boundary (lx_src lx) (lx_pos lx)"
  unfolding lx_src_def lx_pos_def by (rule boundary_append)

lemma tokens_between_start: "tokens_between src p q ts \<Longrightarrow> p' \<le> p \<Longrightarrow> tokens_between src p' q ts"
  by (cases ts) (auto, fastforce)

lemma tokens_between_append: "tokens_between src p q ts \<Longrightarrow> tokens_between src q r us \<Longrightarrow> tokens_between src p r (ts @ us)"
proof (induction ts arbitrary: p)
  case (Cons t ts)
  then show ?case by auto
qed (auto intro: tokens_between_start)

section \<open>Steps\<close>

definition lx_weight :: "lexer \<Rightarrow> nat" where
  "lx_weight lx = 2 * length (lx_rest lx) + length (interp_stack lx)"

text \<open>At least \<open>n\<close> characters are read, and nothing else happens but diagnostics.\<close>

definition quiet :: "nat \<Rightarrow> lexer \<Rightarrow> lexer \<Rightarrow> bool" where
  "quiet n a b \<longleftrightarrow>
     (\<exists>cs. n \<le> length cs \<and> lx_before b = lx_before a @ cs \<and> lx_rest a = cs @ lx_rest b) \<and>
     lx_tokens b = lx_tokens a \<and> interp_stack b = interp_stack a \<and> unicode_escapes_raw b = unicode_escapes_raw a"

text \<open>At least \<open>k\<close> of the weight is used up.\<close>

definition reads :: "nat \<Rightarrow> lexer \<Rightarrow> lexer \<Rightarrow> bool" where
  "reads k a b \<longleftrightarrow>
     k + lx_weight b \<le> lx_weight a \<and>
     (\<exists>cs. lx_before b = lx_before a @ cs \<and> lx_rest a = cs @ lx_rest b) \<and>
     (\<exists>ts. lx_tokens b = lx_tokens a @ ts \<and> tokens_between (lx_src a) (lx_pos a) (lx_pos b) ts) \<and>
     unicode_escapes_raw b = unicode_escapes_raw a"

lemma quiet_refl: "quiet 0 lx lx"
  by (simp add: quiet_def)

lemma quiet_trans: "quiet m a b \<Longrightarrow> quiet n b d \<Longrightarrow> quiet (m + n) a d"
  by (auto simp: quiet_def)

lemma quiet_mono: "quiet n a b \<Longrightarrow> m \<le> n \<Longrightarrow> quiet m a b"
  by (fastforce simp: quiet_def)

lemma quiet_pos: "quiet n a b \<Longrightarrow> lx_pos a \<le> lx_pos b"
  by (auto simp: quiet_def lx_pos_def)

lemma quiet_stack: "quiet n a b \<Longrightarrow> interp_stack b = interp_stack a"
  by (simp add: quiet_def)

lemma quiet_advance: "quiet n a b \<Longrightarrow> quiet n a (advance b)"
  by (auto simp: quiet_def advance_def split: list.split)

lemma quiet_advance1: "quiet n a b \<Longrightarrow> lx_rest b \<noteq> [] \<Longrightarrow> quiet (Suc n) a (advance b)"
  by (auto simp: quiet_def advance_def split: list.split)

lemma quiet_eat: "quiet n a b \<Longrightarrow> quiet n a (eat_while P b)"
  by (auto simp: quiet_def eat_while_def)

lemma quiet_error: "quiet n a b \<Longrightarrow> quiet n a (lx_error l h m b)" "quiet n a b \<Longrightarrow> quiet n a (error_here l m b)"
  by (auto simp: quiet_def lx_error_def error_here_def)

lemma quiet_bad_dollar: "quiet n a b \<Longrightarrow> quiet n a (bad_dollar t d b)"
  by (auto simp: bad_dollar_def intro: quiet_error)

lemma quiet_deprecation: "quiet n a b \<Longrightarrow> quiet n a (unicode_escape_deprecation r p l m ph b)"
  by (auto simp: quiet_def unicode_escape_deprecation_def Let_def)

lemmas quiet_steps = quiet_advance quiet_eat quiet_error quiet_bad_dollar quiet_deprecation

lemma quiet_comment_loop: "quiet n a b \<Longrightarrow> quiet n a (comment_loop l d b)"
proof (induction l d b rule: comment_loop.induct)
  case (1 l d b)
  then show ?case by (subst comment_loop.simps) (simp add: quiet_steps)
qed

lemma quiet_read_hex: "quiet n a b \<Longrightarrow> quiet n a (snd (read_hex l m hex b))"
  by (induction m arbitrary: hex b) (auto simp: quiet_steps split: option.split)

lemma quiet_read_escape: "quiet n a b \<Longrightarrow> quiet n a (snd (read_escape l b))"
  using quiet_read_hex [OF quiet_advance, of n a b l 4 "[]"]
  by (auto simp: read_escape_def bump_def quiet_steps split: option.split prod.split)

lemma quiet_read_escape_eq: "read_escape l b = (r, d) \<Longrightarrow> quiet n a b \<Longrightarrow> quiet n a d"
  using quiet_read_escape [of n a b l] by simp

lemma quiet_escapes_loop: "quiet n a b \<Longrightarrow> quiet n a (snd (escapes_loop s l i chars out b))"
  by (induction s l i chars out b rule: escapes_loop.induct)
     (auto simp: quiet_steps Let_def split: option.split list.split)

lemma quiet_process_escapes: "quiet n a b \<Longrightarrow> quiet n a (snd (process_escapes s l b))"
  by (simp add: process_escapes_def quiet_escapes_loop)

lemma quiet_unicode_loop: "quiet n a b \<Longrightarrow> quiet n a (snd (unicode_loop l chars out b))"
  by (induction l chars out b rule: unicode_loop.induct)
     (auto simp: quiet_steps Let_def split: option.split list.split)

lemma quiet_process_unicode: "quiet n a b \<Longrightarrow> quiet n a (snd (process_unicode s l b))"
  by (simp add: process_unicode_def quiet_unicode_loop)

lemma quiet_finish: "quiet n a b \<Longrightarrow> quiet n a (snd (finish_interp_part buf l b))"
  using quiet_process_unicode [of n a b buf l] quiet_process_escapes [of n a b buf l]
  by (auto simp: finish_interp_part_def quiet_steps split: list.split InterpEscapes.split prod.split)

section \<open>Steps that add tokens\<close>

lemma reads_src: "reads n a b \<Longrightarrow> lx_src b = lx_src a"
  by (auto simp: reads_def lx_src_def)

lemma quiet_src: "quiet n a b \<Longrightarrow> lx_src b = lx_src a"
  by (auto simp: quiet_def lx_src_def)

lemma reads_quiet: "quiet n a b \<Longrightarrow> reads (2 * n) a b"
  by (auto simp: quiet_def reads_def lx_weight_def lx_pos_def)

lemma reads_refl: "reads 0 lx lx"
  using reads_quiet [OF quiet_refl, of lx] by simp

lemma reads_trans:
  assumes "reads m a b" "reads n b d"
  shows "reads (m + n) a d"
  using assms reads_src [OF assms(1)] unfolding reads_def
  by (elim conjE exE, intro conjI exI) (auto intro: tokens_between_append)

lemma reads_mono: "reads n a b \<Longrightarrow> m \<le> n \<Longrightarrow> reads m a b"
  by (auto simp: reads_def)

lemma reads_pos: "reads n a b \<Longrightarrow> lx_pos a \<le> lx_pos b"
  by (auto simp: reads_def lx_pos_def)

lemma reads_then_quiet: "reads m a b \<Longrightarrow> quiet n b d \<Longrightarrow> reads (m + 2 * n) a d"
  by (rule reads_trans [OF _ reads_quiet])

text \<open>A token from a position passed quietly.\<close>

lemma emit_reads:
  assumes "quiet n a b" "\<not> is_eof k"
  shows "reads (2 * n) a (emit_here k (lx_pos a) b)"
proof -
  obtain cs where cs: "n \<le> length cs" "lx_before b = lx_before a @ cs" "lx_rest a = cs @ lx_rest b"
    "lx_tokens b = lx_tokens a" "interp_stack b = interp_stack a" "unicode_escapes_raw b = unicode_escapes_raw a"
    using assms(1) by (auto simp: quiet_def)
  have "boundary (lx_src a) (lx_pos b)" using boundary_pos [of b] quiet_src [OF assms(1)] by simp
  then have "tokens_between (lx_src a) (lx_pos a) (lx_pos b)
      [\<lparr>t_kind = k, t_span = span_new (of_nat (lx_pos a)) (of_nat (lx_pos b)), nl_before = False, blank_line = bl\<rparr>]" for bl
    unfolding tokens_between.simps lex_span_def
    using assms(2) boundary_pos [of a] quiet_pos [OF assms(1)] by (intro conjI exI [of _ "lx_pos a"] exI [of _ "lx_pos b"]) auto
  then show ?thesis
    using cs unfolding reads_def emit_here_def lx_emit_def by (simp add: lx_weight_def lx_pos_def)
qed

lemma emit_after: "reads m a b \<Longrightarrow> quiet n b d \<Longrightarrow> \<not> is_eof k \<Longrightarrow> reads (m + 2 * n) a (emit_here k (lx_pos b) d)"
  by (rule reads_trans [OF _ emit_reads])

lemma reads_pop: "reads n a b \<Longrightarrow> interp_stack b \<noteq> [] \<Longrightarrow> reads (Suc n) a (pop_frame b)"
  by (cases "interp_stack b") (auto simp: reads_def lx_weight_def pop_frame_def lx_pos_def)

lemma reads_push: "reads (Suc n) a b \<Longrightarrow> reads n a (b\<lparr>interp_stack := f # interp_stack b\<rparr>)"
  by (auto simp: reads_def lx_weight_def lx_pos_def)

lemma reads_set_hole: "reads n a b \<Longrightarrow> reads n a (set_hole h b)"
  by (auto simp: reads_def lx_weight_def set_hole_def lx_pos_def split: list.split)

lemma reads_depth: "reads n a (b\<lparr>brace_depth := d\<rparr>) \<longleftrightarrow> reads n a b" "reads n (b\<lparr>brace_depth := d\<rparr>) a \<longleftrightarrow> reads n b a"
  "lx_pos (b\<lparr>brace_depth := d\<rparr>) = lx_pos b" "emit_here k l (b\<lparr>brace_depth := d\<rparr>) = (emit_here k l b)\<lparr>brace_depth := d\<rparr>"
  by (auto simp: reads_def lx_weight_def lx_pos_def emit_here_def lx_emit_def ends_blank_line_def lx_src_def)

lemma quiet_depth: "quiet n a (b\<lparr>brace_depth := d\<rparr>) \<longleftrightarrow> quiet n a b"
  by (auto simp: quiet_def)

lemma emit_stack [simp]: "interp_stack (emit_here k l lx) = interp_stack lx"
  by (simp add: emit_here_def lx_emit_def)

lemma emit_rest [simp]: "lx_rest (emit_here k l lx) = lx_rest lx" "lx_pos (emit_here k l lx) = lx_pos lx"
  by (simp_all add: emit_here_def lx_emit_def lx_pos_def)

lemma keyword_not_eof: "keyword_kind s = Some k \<Longrightarrow> \<not> is_eof k"
proof -
  have "list_all (\<lambda>(_, k). \<not> is_eof k) KEYWORDS" by (simp add: KEYWORDS_def is_eof_def)
  then show "keyword_kind s = Some k \<Longrightarrow> \<not> is_eof k"
    unfolding keyword_kind_def by (auto simp: list_all_iff dest!: map_of_SomeD)
qed

lemma not_eof [simp]:
  "\<not> is_eof (TK_Ident s)" "\<not> is_eof (TK_IntLit i)" "\<not> is_eof (TK_LongLit l)" "\<not> is_eof (TK_DoubleLit d)" "\<not> is_eof (TK_FloatLit f)"
  "\<not> is_eof (TK_CharLit c)" "\<not> is_eof (TK_StringLit s)" "\<not> is_eof (TK_SymbolLit s)" "\<not> is_eof (TK_InterpStart s b)"
  "\<not> is_eof (TK_StringPart s)" "\<not> is_eof (TK_InterpId s)" "\<not> is_eof (TK_InterpEnd s)" "\<not> is_eof TK_Underscore"
  "\<not> is_eof TK_LBrace" "\<not> is_eof TK_RBrace" "\<not> is_eof TK_LParen" "\<not> is_eof TK_RParen" "\<not> is_eof TK_LBracket"
  "\<not> is_eof TK_RBracket" "\<not> is_eof TK_Newline" "\<not> is_eof TK_Comma" "\<not> is_eof TK_Dot" "\<not> is_eof TK_Semi" "\<not> is_eof TK_At"
  "\<not> is_eof TK_Hash"
  by (simp_all add: is_eof_def)

lemma operator_kind_not_eof [simp]: "\<not> is_eof (operator_kind s)"
  by (simp add: operator_kind_def is_eof_def)

section \<open>Interpolations\<close>

lemma finish_stack: "interp_stack (snd (finish_interp_part buf l lx)) = interp_stack lx"
  using quiet_stack [OF quiet_finish [OF quiet_refl]] .

lemma escapes_loop_rest: "lx_rest (snd (escapes_loop s l i chars out lx)) = lx_rest lx"
  by (induction s l i chars out lx rule: escapes_loop.induct) (auto simp: Let_def split: option.split list.split)

lemma unicode_loop_rest: "lx_rest (snd (unicode_loop l chars out lx)) = lx_rest lx"
  by (induction l chars out lx rule: unicode_loop.induct) (auto simp: Let_def split: option.split list.split)

lemma finish_rest: "lx_rest (snd (finish_interp_part buf l lx)) = lx_rest lx"
  by (auto simp: finish_interp_part_def process_unicode_def process_escapes_def unicode_escape_deprecation_def case_prod_beta
        escapes_loop_rest unicode_loop_rest Let_def split: list.split InterpEscapes.split)

lemma end_interp_reads:
  assumes "quiet n a b" "interp_stack a \<noteq> []"
  shows "reads (Suc (2 * n)) a (end_interp buf (lx_pos a) b)"
proof -
  let ?f = "finish_interp_part buf (lx_pos a) b"
  have q: "quiet n a (snd ?f)" by (rule quiet_finish [OF assms(1)])
  have "reads (2 * n) a (emit_here (TK_InterpEnd (fst ?f)) (lx_pos a) (snd ?f))"
    by (rule emit_reads [OF q]) (simp_all add: quiet_pos [OF q])
  then have "reads (Suc (2 * n)) a (pop_frame (emit_here (TK_InterpEnd (fst ?f)) (lx_pos a) (snd ?f)))"
    by (rule reads_pop) (simp add: quiet_stack [OF q] assms(2))
  then show ?thesis by (simp add: end_interp_def case_prod_beta)
qed

lemma string_part_reads: "quiet 0 a b \<Longrightarrow> reads 0 a (string_part buf (lx_pos a) b) \<and> lx_rest (string_part buf (lx_pos a) b) = lx_rest b"
proof -
  assume "quiet 0 a b"
  let ?f = "finish_interp_part buf (lx_pos a) b"
  have q: "quiet 0 a (snd ?f)" by (rule quiet_finish [OF \<open>quiet 0 a b\<close>])
  have "lx_rest (snd ?f) = lx_rest b" by (rule finish_rest)
  moreover have "reads (2 * 0) a (emit_here (TK_StringPart (fst ?f)) (lx_pos a) (snd ?f))"
    by (rule emit_reads [OF q]) (simp_all add: quiet_pos [OF q])
  ultimately show ?thesis by (simp add: string_part_def case_prod_beta)
qed

lemma hole_start: "quiet 0 a b \<Longrightarrow> lx_rest b \<noteq> [] \<Longrightarrow> reads 2 a (advance (string_part buf (lx_pos a) b))"
  using reads_then_quiet [OF _ quiet_advance1 [OF quiet_refl], of 0 a "string_part buf (lx_pos a) b"] string_part_reads [of a b buf]
  by (simp add: numeral_2_eq_2)

lemma advance_pos: "lx_pos lx \<le> lx_pos (advance lx)"
  by (rule quiet_pos [OF quiet_advance [OF quiet_refl]])

lemma wildcard_hole_reads: "quiet 0 a b \<Longrightarrow> lx_rest b \<noteq> [] \<Longrightarrow> reads 1 a (wildcard_hole buf (lx_pos a) b)"
  using emit_after [OF hole_start [of a b buf] quiet_advance [OF quiet_refl]]
  by (auto simp: wildcard_hole_def Let_def advance_pos intro: reads_mono [where n = 2])

lemma block_hole_reads: "quiet 0 a b \<Longrightarrow> lx_rest b \<noteq> [] \<Longrightarrow> reads 1 a (block_hole buf (lx_pos a) b)"
  using emit_after [OF hole_start [of a b buf] quiet_advance [OF quiet_refl]]
  by (auto simp: block_hole_def Let_def advance_pos reads_depth intro!: reads_set_hole intro: reads_mono [where n = 2])

lemma ident_hole_reads: "quiet 0 a b \<Longrightarrow> lx_rest b \<noteq> [] \<Longrightarrow> reads 1 a (ident_hole sl buf (lx_pos a) b)"
  using emit_after [OF hole_start [of a b buf] quiet_eat [OF quiet_advance [OF quiet_refl]]]
  by (auto simp: ident_hole_def Let_def quiet_pos [OF quiet_eat [OF quiet_advance [OF quiet_refl]]] intro: reads_mono [where n = 2])

lemma interp_loop_reads:
  assumes "interp_stack a \<noteq> []"
  shows "quiet 0 a lx \<Longrightarrow> reads 1 a (interp_loop sl triple (lx_pos a) buf seen lx)"
proof (induction "length (lx_rest lx)" arbitrary: triple buf seen lx rule: less_induct)
  case less
  note q = less.prems and adv = quiet_advance [OF less.prems]
  have pop: "reads 1 a (pop_frame (error_here (lx_pos a) (unclosed_msg seen) lx))"
    using reads_pop [OF reads_quiet [OF quiet_error(2) [OF q]]] assms quiet_stack [OF quiet_error(2) [OF q]] by simp
  have fin: "quiet 0 a b \<Longrightarrow> reads 1 a (end_interp buf' (lx_pos a) b)" for b buf'
    using end_interp_reads [OF _ assms, of 0 b buf'] by simp
  have next_loop: "reads 1 a (interp_loop sl t (lx_pos a) buf' seen' lx')"
    if "length (lx_rest lx') < length (lx_rest lx)" "quiet 0 a lx'" for t buf' seen' lx'
    by (rule less.hyps [OF that])
  have esc: "reads 1 a (interp_loop sl t (lx_pos a) buf' seen' lx') \<and> reads 1 a lx'"
    if "read_escape (lx_pos lx) (advance lx) = (r, lx')" "lx_rest lx \<noteq> []" for r lx' t buf' seen'
  proof
    have shorter: "length (lx_rest lx') < length (lx_rest lx)" by (rule read_escape_shorter [OF that(1) [symmetric] that(2)])
    show "reads 1 a (interp_loop sl t (lx_pos a) buf' seen' lx')"
      by (rule next_loop [OF shorter quiet_read_escape_eq [OF that(1) adv]])
    have "quiet (Suc 0) a lx'" by (rule quiet_read_escape_eq [OF that(1) quiet_advance1 [OF q that(2)]])
    then show "reads 1 a lx'" using reads_quiet [of "Suc 0" a lx'] by (auto intro: reads_mono)
  qed
  show ?case
  proof (cases "lx_rest lx")
    case Nil
    then show ?thesis using pop by (subst interp_loop.simps) simp
  next
    case (Cons c cs)
    have ne: "lx_rest lx \<noteq> []" using Cons by simp
    obtain r lx' where e: "read_escape (lx_pos lx) (advance lx) = (r, lx')" by fastforce
    have one: "reads 1 a (interp_loop sl t (lx_pos a) buf' seen' (advance lx))" for t buf' seen'
      by (rule next_loop) (use Cons in \<open>simp_all add: adv\<close>)
    have two: "reads 1 a (interp_loop sl t (lx_pos a) buf' seen' (advance (advance lx)))" for t buf' seen'
      by (rule next_loop) (use Cons in \<open>simp_all add: adv quiet_advance\<close>)
    have bad: "reads 1 a (interp_loop sl t (lx_pos a) buf' seen' (bad_dollar t' d (advance lx)))" for t t' buf' seen' d
      by (rule next_loop) (use Cons in \<open>simp_all add: adv quiet_bad_dollar\<close>)
    have close: "reads 1 a (end_interp buf' (lx_pos a) (advance lx))"
      "reads 1 a (end_interp buf' (lx_pos a) (eat_while P (advance (advance (advance lx)))))" for buf' P
      by (rule fin, simp add: quiet_advance quiet_eat q)+
    note steps = one two bad close wildcard_hole_reads [OF q ne] block_hole_reads [OF q ne] ident_hole_reads [OF q ne] esc [OF e ne] pop
    show ?thesis
      by (subst interp_loop.simps) (simp add: Cons e Let_def steps [simplified] del: advance_rest split: list.split option.split)
  qed
qed

lemma lex_interp_string_reads: "interp_stack lx \<noteq> [] \<Longrightarrow> reads 1 lx (lex_interp_string sl lx)"
  using interp_loop_reads [OF _ quiet_refl] by (auto simp: lex_interp_string_def split: list.split)

section \<open>The other tokens\<close>

lemma quiet1_reads: "quiet (Suc 0) a b \<Longrightarrow> reads 1 a b"
  using reads_quiet [of "Suc 0" a b] by (auto intro: reads_mono)

lemma error1_reads: "quiet (Suc 0) a b \<Longrightarrow> reads 1 a (error_here l m b)" "quiet (Suc 0) a b \<Longrightarrow> reads 1 a (lx_error l h m b)"
  by (rule quiet1_reads, erule quiet_error)+

lemma emit1_reads: "quiet (Suc 0) a b \<Longrightarrow> \<not> is_eof k \<Longrightarrow> reads 1 a (emit_here k (lx_pos a) b)"
  using emit_reads [of "Suc 0" a b k] by (auto intro: reads_mono simp: quiet_pos)

lemma emit_error1_reads: "quiet (Suc 0) a b \<Longrightarrow> \<not> is_eof k \<Longrightarrow> reads 1 a (emit_here k (lx_pos a) (error_here l m b))"
  by (intro emit1_reads quiet_error)

lemmas step1 = quiet1_reads error1_reads emit1_reads emit_error1_reads

lemma first_char: "lx_rest lx \<noteq> [] \<Longrightarrow> quiet (Suc 0) lx (advance lx)"
  by (rule quiet_advance1 [OF quiet_refl])

lemma quiet_read_single: "quiet n a b \<Longrightarrow> quiet n a (snd (read_single_string buf b))"
proof (induction buf b rule: read_single_string.induct)
  case (1 buf b)
  obtain r d where e: "read_escape (lx_pos b) (advance b) = (r, d)" by fastforce
  then have "quiet n a d" by (rule quiet_read_escape_eq) (rule quiet_advance [OF 1(3)])
  then show ?case using 1 e by (subst read_single_string.simps) (auto simp: quiet_steps split: option.split)
qed

lemma quiet_read_triple: "quiet n a b \<Longrightarrow> quiet n a (snd (read_triple_string buf b))"
proof (induction buf b rule: read_triple_string.induct)
  case (1 buf b)
  then show ?case by (subst read_triple_string.simps) (auto simp: quiet_steps Let_def split: list.split)
qed

lemma quiet_open: "lx_rest lx \<noteq> [] \<Longrightarrow> quiet (Suc 0) lx (open_quotes t lx)"
  by (simp add: open_quotes_def first_char quiet_advance)

lemma lex_plain_string_reads:
  assumes "lx_rest lx \<noteq> []"
  shows "reads 1 lx (lex_plain_string lx)"
proof -
  note o = quiet_open [OF assms]
  obtain r d where rd: "read_triple_string [] (open_quotes True lx) = (r, d)" by fastforce
  have d: "quiet (Suc 0) lx d" using quiet_read_triple [OF o, of "[]" True] rd by simp
  obtain r' d' where rd': "read_single_string [] (open_quotes False lx) = (r', d')" by fastforce
  have d': "quiet (Suc 0) lx d'" using quiet_read_single [OF o, of "[]" False] rd' by simp
  note u = quiet_process_unicode [OF d]
  show ?thesis
    using rd rd' d d'
    by (auto simp: lex_plain_string_def Let_def case_prod_beta intro!: emit1_reads [simplified] error1_reads [simplified] quiet_deprecation u split: option.split)
qed

lemma lex_interpolation_reads:
  assumes "quiet 0 a lx" "lx_rest lx \<noteq> []"
  shows "reads 1 a (lex_interpolation sl pre lx)"
proof -
  let ?t = "lx_starts_with lx (msg ''^^^'')"
  let ?e = "emit_here (TK_InterpStart pre ?t) (lx_pos lx) (open_quotes ?t lx)"
  let ?f = "\<lparr>fr_triple = ?t, hole_brace = -1, fr_escapes = interp_escapes (unicode_escapes_raw ?e) pre\<rparr>"
  have "reads (Suc 1) lx ?e"
    using emit_reads [OF quiet_open [OF assms(2)], where k = "TK_InterpStart pre ?t"] quiet_pos [OF quiet_open [OF assms(2)]]
    by (simp add: numeral_2_eq_2)
  then have "reads 1 lx (?e\<lparr>interp_stack := ?f # interp_stack ?e\<rparr>)" by (rule reads_push)
  then have "reads (1 + 1) lx (lex_interp_string sl (?e\<lparr>interp_stack := ?f # interp_stack ?e\<rparr>))"
    by (rule reads_trans) (simp add: lex_interp_string_reads [simplified])
  then have "reads (2 * 0 + (1 + 1)) a (lex_interp_string sl (?e\<lparr>interp_stack := ?f # interp_stack ?e\<rparr>))"
    by (rule reads_trans [OF reads_quiet [OF assms(1)]])
  then show ?thesis by (auto simp: lex_interpolation_def Let_def intro: reads_mono)
qed

lemma quiet_close_char: "quiet (Suc 0) a b \<Longrightarrow> reads 1 a (close_char ch (lx_pos a) b)"
  using emit1_reads [OF quiet_advance, of a b] error1_reads(1) [of a b] by (simp add: close_char_def)

lemma lex_char_reads:
  assumes "lx_rest lx \<noteq> []"
  shows "reads 1 lx (lex_char_or_symbol sl lx)"
proof -
  note q = first_char [OF assms]
  note qq = quiet_advance [OF q]
  obtain r d where rd: "read_escape (lx_pos lx) (advance (advance lx)) = (r, d)" by fastforce
  have d: "quiet (Suc 0) lx d" by (rule quiet_read_escape_eq [OF rd qq])
  show ?thesis
    using rd
    by (auto simp: lex_char_or_symbol_def bump_def Let_def q qq quiet_advance d quiet_eat step1 [simplified] quiet_close_char [simplified]
             split: option.split)
qed

lemma lex_ident_reads:
  assumes "lx_rest lx \<noteq> []" "peek_is (is_id_start sl) lx"
  shows "reads 1 lx (lex_ident_or_kw sl lx)"
proof -
  note q = quiet_eat [OF first_char [OF assms(1)], of "is_id_part sl"]
  have s: "reads 1 lx (lex_string sl (Some t) b)" if "quiet (Suc 0) lx b" "peek b = Some 0x22" for t b
    using lex_interpolation_reads [OF quiet_mono [OF that(1)], of sl t] that(2) by (auto simp: lex_string_def dest: peek_Some)
  show ?thesis
    using assms(2)
    by (auto simp: lex_ident_or_kw_def Let_def q quiet_eat s [simplified] emit1_reads [simplified] keyword_not_eof split: option.split)
qed

lemma backtick_loop_reads: "quiet (Suc 0) a b \<Longrightarrow> reads 1 a (backtick_loop (lx_pos a) tx b)"
proof (induction "length (lx_rest b)" arbitrary: tx b rule: less_induct)
  case less
  note adv = quiet_advance [OF less.prems]
  obtain r d where e: "read_escape (lx_pos b) (advance b) = (r, d)" by fastforce
  have d: "quiet (Suc 0) a d" by (rule quiet_read_escape_eq [OF e adv])
  show ?case
  proof (cases "peek b")
    case None
    then show ?thesis using error1_reads(1) [OF less.prems] by (subst backtick_loop.simps) simp
  next
    case (Some c)
    have one: "reads 1 a (backtick_loop (lx_pos a) t (advance b))" for t
      by (rule less.hyps) (use Some adv in \<open>auto dest: peek_Some\<close>)
    have esc: "reads 1 a (backtick_loop (lx_pos a) t d)" for t
      by (rule less.hyps [OF read_escape_shorter [OF e [symmetric] peek_Some [OF Some]] d])
    show ?thesis
      by (subst backtick_loop.simps)
         (simp add: Some e Let_def one [simplified] esc [simplified] step1 [simplified] adv d less.prems split: option.split)
  qed
qed

lemma quiet_operator_loop: "quiet n a b \<Longrightarrow> quiet n a (operator_loop start b)"
proof (induction start b rule: operator_loop.induct)
  case (1 start b)
  then show ?case by (subst operator_loop.simps) (auto simp: quiet_steps Let_def split: option.split)
qed

lemma operator_reads:
  assumes "peek lx = Some c" "is_op_char c"
  shows "reads 1 lx (lex_operator lx)"
proof -
  note q = first_char [OF peek_Some [OF assms(1)]]
  have "operator_loop lx lx = operator_loop lx (advance lx)"
    using assms by (subst operator_loop.simps) (simp add: text_since_def)
  then show ?thesis
    using quiet_operator_loop [OF q, of lx] by (auto simp: lex_operator_def Let_def emit1_reads [simplified] q)
qed

lemma quiet_num_suffix: "quiet n a b \<Longrightarrow> quiet n a (snd (eat_num_suffix b))"
  by (auto simp: eat_num_suffix_def quiet_advance)

lemma quiet_fraction: "quiet n a b \<Longrightarrow> quiet n a (eat_fraction b)"
  by (auto simp: eat_fraction_def quiet_advance quiet_eat)

lemma quiet_exponent: "quiet n a b \<Longrightarrow> quiet n a (eat_exponent b)"
  by (auto simp: eat_exponent_def Let_def quiet_advance quiet_eat)

lemma emit_radix_reads: "quiet (Suc 0) a b \<Longrightarrow> reads 1 a (emit_int_from_radix ds suf (lx_pos a) b)"
  by (auto simp: emit_int_from_radix_def Let_def step1 [simplified] split: NumSuffix.split option.split)

lemma emit_number_reads: "quiet (Suc 0) a b \<Longrightarrow> reads 1 a (emit_number sl suf body (lx_pos a) b)"
  by (auto simp: emit_number_def step1 [simplified] split: NumSuffix.split option.split)

lemma number_reads:
  assumes "peek lx = Some c" "is_ascii_digit c"
  shows "reads 1 lx (lex_number sl lx)"
proof -
  note q = first_char [OF peek_Some [OF assms(1)]]
  have eat: "eat_while digit_or_underscore lx = eat_while digit_or_underscore (advance lx)"
    using assms by (subst eat_while_loop) (simp add: peek_is_def digit_or_underscore_def)
  note body = quiet_num_suffix [OF quiet_exponent [OF quiet_fraction [OF quiet_eat [OF q]]]]
  note hex = quiet_num_suffix [OF quiet_eat [OF quiet_advance [OF q]]]
  show ?thesis
    using emit_number_reads [OF body, of sl] emit_radix_reads [OF hex] error1_reads(1) [OF quiet_eat [OF quiet_advance [OF q]]]
    by (auto simp: lex_number_def lex_hex_def Let_def eat case_prod_beta)
qed

section \<open>The contract of a step\<close>

text \<open>
  What the main loop relies on in the two steps it takes: where a step is ready it reads.  The clients'
  facts, that a step can follow what has been read and that the weight goes down, are proved here once.
\<close>

locale scan_step =
  fixes ready :: "lexer \<Rightarrow> bool" and step :: "lexer \<Rightarrow> lexer"
  assumes step_reads: "ready lx \<Longrightarrow> reads 1 lx (step lx)"
begin

lemma lighter: "ready lx \<Longrightarrow> lx_weight (step lx) < lx_weight lx"
  using step_reads [of lx] by (simp add: reads_def)

lemma follows: "reads n a lx \<Longrightarrow> ready lx \<Longrightarrow> reads n a (step lx)"
  using reads_trans [OF _ step_reads, of n a lx] by (auto intro: reads_mono)

end

lemma one_char_reads: "lx_rest lx \<noteq> [] \<Longrightarrow> \<not> is_eof k \<Longrightarrow> reads 1 lx (one_char k lx)"
  unfolding one_char_def by (rule emit1_reads [OF first_char])

lemma brace_reads:
  assumes "lx_rest lx \<noteq> []"
  shows "reads 1 lx (open_brace lx)" "reads 1 lx (close_brace lx)"
  using emit1_reads [OF first_char [OF assms], of TK_LBrace] emit1_reads [OF first_char [OF assms], of TK_RBrace]
  by (simp_all add: open_brace_def close_brace_def Let_def reads_depth reads_set_hole)

lemma peek_is_peek: "peek lx = Some c \<Longrightarrow> peek_is P lx = P c"
  by (simp add: peek_is_def)

lemma slash_reads:
  assumes "peek lx = Some (chr CHR ''/'')"
  shows "reads 1 lx (lex_slash lx)"
proof -
  note q = first_char [OF peek_Some [OF assms]]
  have "eat_while (\<lambda>c. c \<noteq> 10) lx = eat_while (\<lambda>c. c \<noteq> 10) (advance lx)"
    using assms by (subst eat_while_loop) (simp add: peek_is_def)
  moreover have "reads 1 lx (lex_operator lx)" by (rule operator_reads [OF assms]) (simp add: is_op_char_def)
  ultimately show ?thesis
    using quiet1_reads [OF quiet_eat [OF q]] quiet1_reads [OF quiet_comment_loop [OF quiet_advance [OF q]]]
    by (simp add: lex_slash_def skip_line_comment_def skip_block_comment_def)
qed

lemma lone_reads: "peek lx = Some c \<Longrightarrow> is_op_char c \<Longrightarrow> \<not> is_eof k \<Longrightarrow> reads 1 lx (lone_or_operator k lx)"
  unfolding lone_or_operator_def using operator_reads [of lx c] one_char_reads [of lx k] peek_Some [of lx c] by auto

lemma underscore_reads: "peek lx = Some underscore \<Longrightarrow> reads 1 lx (lex_underscore sl lx)"
  unfolding lex_underscore_def
  using lex_ident_reads [of lx sl] one_char_reads [of lx TK_Underscore] peek_Some [of lx] peek_is_peek [of lx underscore]
  by (simp add: is_id_start_def underscore_def)

interpretation normal: scan_step "\<lambda>lx. lx_rest lx \<noteq> []" "lex_normal sl" for sl
proof
  fix lx :: lexer
  assume ne: "lx_rest lx \<noteq> []"
  then obtain c where c: "peek lx = Some c" by (auto simp: peek_def neq_Nil_conv)
  have op: "is_op_char (chr CHR ''@'')" "is_op_char (chr CHR ''#'')" by (simp_all add: is_op_char_def)
  have slash: "c = chr CHR ''/'' \<Longrightarrow> reads 1 lx (lex_slash lx)" using slash_reads c by simp
  have str: "reads 1 lx (lex_string sl None lx)" using lex_plain_string_reads [OF ne] by (simp add: lex_string_def)
  have tick: "reads 1 lx (lex_backtick lx)" unfolding lex_backtick_def by (rule backtick_loop_reads [OF first_char [OF ne]])
  have num: "is_ascii_digit c \<Longrightarrow> reads 1 lx (lex_number sl lx)" by (rule number_reads [OF c])
  have us: "c = underscore \<Longrightarrow> reads 1 lx (lex_underscore sl lx)" using underscore_reads c by simp
  have lone: "c = chr CHR ''@'' \<Longrightarrow> reads 1 lx (lone_or_operator TK_At lx)" "c = chr CHR ''#'' \<Longrightarrow> reads 1 lx (lone_or_operator TK_Hash lx)"
    using lone_reads [OF c] op by simp_all
  have ident: "is_id_start sl c \<Longrightarrow> reads 1 lx (lex_ident_or_kw sl lx)"
    using lex_ident_reads [OF ne, of sl] peek_is_peek [OF c] by simp
  have oper: "is_op_char c \<Longrightarrow> reads 1 lx (lex_operator lx)" by (rule operator_reads [OF c])
  have unex: "reads 1 lx (unexpected_char sl c lx)" unfolding unexpected_char_def by (rule error1_reads [OF first_char [OF ne]])
  show "reads 1 lx (lex_normal sl lx)"
    unfolding lex_normal_def c option.case
    by (intro if_split [of "reads 1 lx", THEN iffD2] conjI impI)
       (assumption | rule quiet1_reads [OF first_char [OF ne]] one_char_reads [OF ne] slash str lex_char_reads [OF ne] tick num
          brace_reads [OF ne] us lone ident oper unex | simp)+
qed

interpretation interpolated: scan_step "\<lambda>lx. interp_stack lx \<noteq> []" "lex_interp_string sl" for sl
  by unfold_locales (rule lex_interp_string_reads)

section \<open>The main loop\<close>

function tokenize_loop :: "std_lib \<Rightarrow> lexer \<Rightarrow> lexer" where
  "tokenize_loop sl lx =
     (if lx_rest lx = [] \<and> interp_stack lx = [] then lx
      else if (case interp_stack lx of [] \<Rightarrow> False | f # _ \<Rightarrow> hole_brace f < 0)
      then tokenize_loop sl (lex_interp_string sl lx)
      else if lx_rest lx = [] then lx
      else tokenize_loop sl (lex_normal sl lx))"
  by pat_completeness auto
termination
  by (relation "measure (\<lambda>(sl, lx). lx_weight lx)")
     (auto split: list.splits intro: normal.lighter [simplified] interpolated.lighter [simplified])

declare tokenize_loop.simps [simp del]

definition tokenize_all :: "std_lib \<Rightarrow> lexer \<Rightarrow> lexer" where
  "tokenize_all sl lx = (let lx = tokenize_loop sl lx in emit_here TK_Eof (lx_pos lx) lx)"

definition tokenize_opts :: "std_lib \<Rightarrow> source_file \<Rightarrow> nat \<Rightarrow> bool \<Rightarrow> token list \<times> diagnostic list" where
  "tokenize_opts sl source file raw =
     (let lx = tokenize_all sl ((lexer_new source file)\<lparr>unicode_escapes_raw := raw\<rparr>) in
      (post_process (lx_tokens lx), lx_diags lx))"

definition tokenize :: "std_lib \<Rightarrow> source_file \<Rightarrow> nat \<Rightarrow> token list \<times> diagnostic list" where
  "tokenize sl source file = tokenize_opts sl source file False"

lemma tokenize_loop_reads: "reads 0 a lx \<Longrightarrow> reads 0 a (tokenize_loop sl lx)"
proof (induction sl lx rule: tokenize_loop.induct)
  case (1 sl lx)
  show ?case
    using 1 normal.follows [OF 1(3)] interpolated.follows [OF 1(3)]
    by (subst tokenize_loop.simps) (auto split: list.splits)
qed

lemma tokenize_loop_ends: "lx_rest (tokenize_loop sl lx) = []"
proof (induction sl lx rule: tokenize_loop.induct)
  case (1 sl lx)
  then show ?case by (subst tokenize_loop.simps) auto
qed

end
