(* ===== verification/LexSound.thy ===== *)
theory LexSound
  imports Tokenize
begin

text \<open>
  What the whole lexer guarantees: how its tokens end, where they lie, and what it reads of comments and
  numbers.
\<close>

section \<open>The tokens of a run\<close>

lemma lexer_run:
  obtains ts where
    "lx_tokens (tokenize_all sl ((lexer_new source file)\<lparr>unicode_escapes_raw := raw\<rparr>)) =
       ts @ [\<lparr>t_kind = TK_Eof, t_span = lex_span (str_len (sf_src source)) (str_len (sf_src source)), nl_before = False, blank_line = False\<rparr>]"
    "tokens_between (sf_src source) 0 (str_len (sf_src source)) ts"
proof -
  let ?a = "(lexer_new source file)\<lparr>unicode_escapes_raw := raw\<rparr>"
  let ?b = "tokenize_loop sl ?a"
  have a: "lx_tokens ?a = []" "lx_src ?a = sf_src source" "lx_pos ?a = 0" by (simp_all add: lexer_new_def lx_src_def lx_pos_def)
  have r: "reads 0 ?a ?b" by (rule tokenize_loop_reads [OF reads_refl])
  obtain ts where "lx_tokens ?b = ts" "tokens_between (lx_src ?a) (lx_pos ?a) (lx_pos ?b) ts"
    using r unfolding reads_def a(1) by auto
  moreover have "lx_src ?b = lx_src ?a" by (rule reads_src [OF r])
  moreover have "lx_pos ?b = str_len (lx_src ?b)" using tokenize_loop_ends [of sl ?a] by (simp add: lx_pos_def lx_src_def)
  ultimately show ?thesis
    by (intro that [of ts]) (simp_all add: tokenize_all_def Let_def emit_here_def lx_emit_def a is_newline_def lex_span_def)
qed

lemma no_eof_between: "tokens_between src p q ts \<Longrightarrow> content is_eof ts = []"
  by (induction ts arbitrary: p) auto

section \<open>The passes keep the spans in order, and the end at the end\<close>

lemma drop_semi_subseq: "subseq (drop_semi_before_else ts) ts"
  by (induction ts) auto

lemma drop_commas_subseq: "subseq (drop_trailing_commas ts) ts"
  by (induction ts rule: drop_trailing_commas.induct) auto

lemma separated_subseq:
  "subseq (map t_span (separated rs m (line_groups ts))) (map t_span ts)"
proof (induction "length ts" arbitrary: ts rs m rule: less_induct)
  case less
  show ?case
  proof (cases ts)
    case (Cons t us)
    note IH = less.hyps [of us, OF _]
    show ?thesis
    proof (cases "newline_token t")
      case True
      then show ?thesis using less.hyps [of us] Cons by (auto intro: subseq_Cons')
    next
      case False
      show ?thesis
      proof (cases "separates (region_step (t_kind t) rs) t (takeWhile newline_token us) (line_groups us)")
        case True
        then obtain n ns where us: "us = n # ns" "newline_token n" by (cases us) (auto simp: separates_def split: if_splits)
        then show ?thesis using less.hyps [of ns] Cons True \<open>\<not> newline_token t\<close> by (simp add: Let_def)
      next
        case False
        then show ?thesis using less.hyps [of us] Cons \<open>\<not> newline_token t\<close> by (simp add: Let_def)
      qed
    qed
  qed simp
qed

lemma post_process_subseq: "subseq (map t_span (post_process ts)) (map t_span ts)"
  unfolding post_process_def newline_rule_aux
  by (intro subseq_order.trans [OF subseq_map [OF drop_commas_subseq]] subseq_order.trans [OF separated_subseq]
        subseq_map [OF drop_semi_subseq])

lemma sorted_wrt_subseq: "subseq xs ys \<Longrightarrow> sorted_wrt R ys \<Longrightarrow> sorted_wrt R xs"
  by (induction rule: list_emb.induct) (auto dest: list_emb_set)

lemma list_all_subseq: "subseq xs ys \<Longrightarrow> list_all P ys \<Longrightarrow> list_all P xs"
  by (induction rule: list_emb.induct) auto

text \<open>The last token stays the last.\<close>

lemma drop_semi_last: "\<not> is_semi (t_kind (last ts)) \<Longrightarrow> ts \<noteq> [] \<Longrightarrow> drop_semi_before_else ts \<noteq> [] \<and> last (drop_semi_before_else ts) = last ts"
  by (induction ts) (auto split: if_splits)

lemma drop_commas_last: "\<not> is_comma (t_kind (last ts)) \<Longrightarrow> ts \<noteq> [] \<Longrightarrow> drop_trailing_commas ts \<noteq> [] \<and> last (drop_trailing_commas ts) = last ts"
  by (induction ts rule: drop_trailing_commas.induct) (auto split: if_splits)

lemma separated_last: "g \<noteq> [] \<Longrightarrow> separated rs m g \<noteq> [] \<and> t_kind (last (separated rs m g)) = t_kind (fst (last g)) \<and>
  t_span (last (separated rs m g)) = t_span (fst (last g))"
proof (induction g arbitrary: rs m)
  case (Cons a g)
  then show ?case by (cases a; cases g) (auto simp: Let_def separates_def)
qed simp

lemma line_groups_last: "ts \<noteq> [] \<Longrightarrow> \<not> newline_token (last ts) \<Longrightarrow> line_groups ts \<noteq> [] \<and> fst (last (line_groups ts)) = last ts"
  by (induction ts) (auto split: if_splits)

lemma post_process_last:
  assumes "is_eof (t_kind e)"
  shows "\<exists>us e'. post_process (ts @ [e]) = us @ [e'] \<and> t_kind e' = t_kind e \<and> t_span e' = t_span e"
proof -
  let ?d = "drop_semi_before_else (ts @ [e])"
  have k: "\<not> is_semi (t_kind e)" "\<not> is_comma (t_kind e)" "\<not> newline_token e"
    using assms by (auto simp: is_eof_def is_semi_def is_comma_def is_newline_def split: TokenKind.splits)
  have d: "?d \<noteq> []" "last ?d = e" using drop_semi_last [of "ts @ [e]"] k by simp_all
  let ?g = "separated [] (case ?d of [] \<Rightarrow> False | t # _ \<Rightarrow> newline_token t) (line_groups ?d)"
  have g: "?g \<noteq> []" "t_kind (last ?g) = t_kind e" "t_span (last ?g) = t_span e"
    using separated_last line_groups_last [of ?d] d k by metis+
  have "drop_trailing_commas ?g \<noteq> [] \<and> last (drop_trailing_commas ?g) = last ?g"
    by (rule drop_commas_last) (simp_all add: g k)
  then show ?thesis
    using g unfolding post_process_def newline_rule_aux by (intro exI [of _ "butlast (drop_trailing_commas ?g)"] exI [of _ "last ?g"]) (metis append_butlast_last_id)
qed

section \<open>Spans as \<open>u32\<close>s\<close>

lemma lex_span_lo_hi: "h \<le> n \<Longrightarrow> l \<le> h \<Longrightarrow> n < 2 ^ 32 \<Longrightarrow> unat (sp_lo (lex_span l h)) = l \<and> unat (sp_hi (lex_span l h)) = h"
  by (simp add: lex_span_def span_new_def unat_of_nat take_bit_nat_eq_self)

lemma boundary_slice:
  assumes "boundary src l" "boundary src h" "l \<le> h"
  shows "slice_str src l h \<noteq> None"
proof -
  obtain x y where x: "src = x @ y" "str_len x = l" using assms(1) by (auto simp: boundary_def split_bytes_Some)
  obtain u v where u: "src = u @ v" "str_len u = h" using assms(2) by (auto simp: boundary_def split_bytes_Some)
  have "x @ y = u @ v" using x u by simp
  then consider (1) w where "u = x @ w" | (2) w where "x = u @ w" by (auto simp: append_eq_append_conv2)
  then obtain w where "u = x @ w"
  proof cases
    case 2
    then have "h + str_len w = l" using x u by auto
    then have "str_len w = 0" using assms(3) by linarith
    then have "w = []" by (simp only: str_len_eq_0)
    then show ?thesis using that [of "[]"] 2 by simp
  qed
  then have "slice_str src l h = Some w" using x u unfolding slice_str_Some by auto
  then show ?thesis by simp
qed

lemma boundary_end: "boundary src (str_len src)"
  using boundary_append [of src "[]"] by simp

lemma span_text_boundaries:
  "boundary (sf_src source) l \<Longrightarrow> boundary (sf_src source) h \<Longrightarrow> l \<le> h \<Longrightarrow> h \<le> str_len (sf_src source) \<Longrightarrow> str_len (sf_src source) < 2 ^ 32 \<Longrightarrow>
     span_text source (lex_span l h) \<noteq> None"
  using lex_span_lo_hi [of h "str_len (sf_src source)" l] boundary_slice [of "sf_src source" l h]
  by (simp add: span_text_def Let_def)

lemma end_span:
  assumes "str_len (sf_src source) < 2 ^ 32"
  shows "span_text source (lex_span (str_len (sf_src source)) (str_len (sf_src source))) \<noteq> None"
  using assms by (intro span_text_boundaries) (simp_all add: boundary_end)

lemma tokens_between_less: "tokens_between src p q ts \<Longrightarrow> p \<le> q"
  by (induction ts arbitrary: p) (auto, fastforce)

text \<open>What \<open>tokens_between\<close> says of the spans as words.\<close>

lemma between_ordered:
  assumes "tokens_between (sf_src source) p q ts" "q \<le> n" "n = str_len (sf_src source)" "n < 2 ^ 32"
  shows "sorted_wrt (\<lambda>s t. sp_hi s \<le> sp_lo t) (map t_span ts) \<and>
    list_all (\<lambda>s. sp_lo s \<le> sp_hi s \<and> span_text source s \<noteq> None \<and> p \<le> unat (sp_lo s) \<and> unat (sp_hi s) \<le> q) (map t_span ts)"
  using assms(1)
proof (induction ts arbitrary: p)
  case (Cons t ts)
  then obtain l h where lh: "t_span t = lex_span l h" "p \<le> l" "l \<le> h" "boundary (sf_src source) l" "boundary (sf_src source) h"
    "tokens_between (sf_src source) h q ts" by auto
  have h: "h \<le> q" by (rule tokens_between_less [OF lh(6)])
  note w = lex_span_lo_hi [OF le_trans [OF h assms(2)] lh(3) assms(4)]
  note cut = span_text_boundaries [OF lh(4,5,3)]
  show ?case
    using Cons.IH [OF lh(6)] w cut lh(1-3) h assms(2-4)
    by (fastforce simp: list_all_iff word_le_nat_alt)
qed simp

section \<open>Properties\<close>

text \<open>
  C37: every source under 2 GiB is lexed to the end: the lexer returns, its last token is \<open>Eof\<close> at the length of the
  source, and no other token is \<open>Eof\<close>.  Under 2 GiB every cast of a position to \<open>u32\<close> and back is exact and no \<open>i32\<close>
  depth overflows.  (From 4 GiB on, \<open>self.pos = lo as usize\<close> of an \<open>_\<close> that starts a name jumps back by a multiple of
  \<open>2 ^ 32\<close>, and the lexer need not return.)
\<close>

theorem tokens_end_in_eof:
  assumes "str_len (sf_src source) < 2 ^ 31"
  shows "\<exists>ts e. fst (tokenize_opts sl source file raw) = ts @ [e] \<and> t_kind e = TK_Eof \<and>
     t_span e = lex_span (str_len (sf_src source)) (str_len (sf_src source)) \<and> content is_eof ts = []"
proof -
  let ?n = "str_len (sf_src source)"
  define e where "e = \<lparr>t_kind = TK_Eof, t_span = lex_span ?n ?n, nl_before = False, blank_line = False\<rparr>"
  obtain ts where ts: "lx_tokens (tokenize_all sl ((lexer_new source file)\<lparr>unicode_escapes_raw := raw\<rparr>)) = ts @ [e]"
    "content is_eof ts = []"
    unfolding e_def by (rule lexer_run) (auto dest: no_eof_between)
  have e: "t_kind e = TK_Eof" "t_span e = lex_span ?n ?n" by (simp_all add: e_def)
  obtain us e' where us: "post_process (ts @ [e]) = us @ [e']" "t_kind e' = t_kind e" "t_span e' = t_span e"
    using post_process_last [of e ts] e by (auto simp: is_eof_def)
  have "content is_eof (post_process (ts @ [e])) = content is_eof (ts @ [e])"
    by (rule post_content) (auto simp: is_eof_def is_semi_def is_comma_def is_newline_def split: TokenKind.splits)
  then have "content is_eof us = []" using us ts e by (simp add: is_eof_def)
  then show ?thesis using us ts e by (auto simp: tokenize_opts_def Let_def)
qed

lemma tokens_end_witness:
  "\<exists>ts e. fst (tokenize_opts \<lparr>alphabetic = (\<lambda>_. False), debug_char = (\<lambda>c. [c]), parse_f32 = (\<lambda>_. None), parse_f64 = (\<lambda>_. None)\<rparr>
       (source_new [] (lit ''val _x = 1'')) 0 False) = ts @ [e] \<and> t_kind e = TK_Eof \<and> t_span e = lex_span 10 10 \<and> content is_eof ts = []"
proof -
  have n: "str_len (sf_src (source_new [] (lit ''val _x = 1''))) = 10"
    by (simp add: source_new_def from_path_def len_utf8_def)
  show ?thesis by (rule tokens_end_in_eof [of "source_new [] (lit ''val _x = 1'')", unfolded n]) simp
qed

text \<open>
  C38: for a source under 4 GiB the spans of the tokens are in order and do not overlap, none is reversed, and each
  can be cut out of the source: both its ends are between characters.
\<close>

theorem spans_in_order:
  assumes "str_len (sf_src source) < 2 ^ 32"
  shows "sorted_wrt (\<lambda>s t. sp_hi s \<le> sp_lo t) (map t_span (fst (tokenize_opts sl source file raw))) \<and>
    list_all (\<lambda>s. sp_lo s \<le> sp_hi s \<and> span_text source s \<noteq> None) (map t_span (fst (tokenize_opts sl source file raw)))"
proof -
  let ?n = "str_len (sf_src source)"
  let ?R = "\<lambda>s t. sp_hi s \<le> sp_lo t" and ?P = "\<lambda>s. sp_lo s \<le> sp_hi s \<and> span_text source s \<noteq> None"
  define e where "e = \<lparr>t_kind = TK_Eof, t_span = lex_span ?n ?n, nl_before = False, blank_line = False\<rparr>"
  obtain ts where ts: "lx_tokens (tokenize_all sl ((lexer_new source file)\<lparr>unicode_escapes_raw := raw\<rparr>)) = ts @ [e]"
    "tokens_between (sf_src source) 0 ?n ts"
    unfolding e_def by (rule lexer_run)
  have e: "t_span e = lex_span ?n ?n" by (simp add: e_def)
  have "sorted_wrt ?R (map t_span (ts @ [e])) \<and> list_all ?P (map t_span (ts @ [e]))"
    using between_ordered [OF ts(2) le_refl refl assms] e end_span [OF assms] lex_span_lo_hi [OF le_refl le_refl assms]
    by (auto simp: sorted_wrt_append list_all_iff word_le_nat_alt)
  then have "sorted_wrt ?R (map t_span (post_process (ts @ [e]))) \<and> list_all ?P (map t_span (post_process (ts @ [e])))"
    using sorted_wrt_subseq [OF post_process_subseq] list_all_subseq [OF post_process_subseq] by blast
  then show ?thesis by (simp add: tokenize_opts_def Let_def ts(1))
qed

lemma spans_in_order_witness:
  "let source = source_new [] (lit ''val x = 1'');
       tokens = fst (tokenize_opts \<lparr>alphabetic = (\<lambda>_. False), debug_char = (\<lambda>c. [c]), parse_f32 = (\<lambda>_. None), parse_f64 = (\<lambda>_. None)\<rparr>
                  source 0 False)
   in sorted_wrt (\<lambda>s t. sp_hi s \<le> sp_lo t) (map t_span tokens) \<and>
      list_all (\<lambda>s. sp_lo s \<le> sp_hi s \<and> span_text source s \<noteq> None) (map t_span tokens)"
  unfolding Let_def by (rule spans_in_order) (simp add: source_new_def from_path_def len_utf8_def)

end
