(* ===== verification/LexText.thy ===== *)
theory LexText
  imports LexSound
begin

text \<open>
  What the lexer makes of given texts: a decimal number, a word.  Each is a run of the whole lexer, from the
  source to the tokens the parser gets.
\<close>

section \<open>A run of one token\<close>

text \<open>A source that one step reads to its end.\<close>

lemma one_token:
  assumes "lex_normal sl ((lexer_new (source_new name (c # cs)) file)\<lparr>unicode_escapes_raw := raw\<rparr>) = lx"
    and "lx_rest lx = []" "interp_stack lx = []" "lx_tokens lx = [t]"
    and "\<not> is_newline (t_kind t)" "\<not> is_semi (t_kind t)" "\<not> is_comma (t_kind t)"
  shows "map t_kind (fst (tokenize_opts sl (source_new name (c # cs)) file raw)) = [t_kind t, TK_Eof] \<and>
    snd (tokenize_opts sl (source_new name (c # cs)) file raw) = lx_diags lx"
proof -
  let ?a = "(lexer_new (source_new name (c # cs)) file)\<lparr>unicode_escapes_raw := raw\<rparr>"
  have a: "lx_rest ?a = c # cs" "interp_stack ?a = []" by (simp_all add: lexer_new_def source_new_def from_path_def)
  have "tokenize_loop sl ?a = tokenize_loop sl lx" using a assms(1) by (subst tokenize_loop.simps) simp
  also have "\<dots> = lx" using assms(2,3) by (subst tokenize_loop.simps) simp
  finally have run: "tokenize_loop sl ?a = lx" .
  have eof: "\<not> is_newline TK_Eof" "\<not> is_semi TK_Eof" "\<not> is_comma TK_Eof" by (simp_all add: is_newline_def is_semi_def is_comma_def)
  show ?thesis
    using assms(4-7) eof
    by (simp add: tokenize_opts_def Let_def tokenize_all_def run emit_here_def lx_emit_def post_process_def newline_rule_aux separates_def)
qed

section \<open>Decimal numbers\<close>

lemma digit_small: "d < 10 \<Longrightarrow> is_ascii_digit (0x30 + d)"
  by (simp add: is_ascii_digit_def)

lemma dec_str_digits: "list_all is_ascii_digit (dec_str n)"
proof (induction n rule: dec_str.induct)
  case (1 n)
  then show ?case by (subst dec_str.simps) (simp add: digit_small)
qed

lemma dec_str_nonempty: "dec_str n \<noteq> []"
  by (subst dec_str.simps) simp

lemma dec_value_append: "dec_value m v (xs @ ys) = Option.bind (dec_value m v xs) (\<lambda>w. dec_value m w ys)"
  by (induction xs arbitrary: v) auto

lemma dec_value_dec_str: "dec_value m 0 (dec_str n) = (if n \<le> m then Some n else None)"
proof (induction n rule: dec_str.induct)
  case (1 n)
  show ?case
  proof (cases "n < 10")
    case True
    then show ?thesis by (subst dec_str.simps) (simp add: is_ascii_digit_def)
  next
    case False
    then have "dec_value m 0 (dec_str (n div 10)) = (if n div 10 \<le> m then Some (n div 10) else None)" by (rule 1)
    moreover have "n div 10 * 10 + n mod 10 = n" "n div 10 \<le> n" by simp_all
    ultimately show ?thesis
      using False by (subst dec_str.simps) (auto simp: dec_value_append is_ascii_digit_def)
  qed
qed

lemma digits_plain:
  assumes "list_all is_ascii_digit ds" "ds \<noteq> []"
  shows "trim_end is_num_suffix ds = ds" "filter (\<lambda>c. c \<noteq> underscore) ds = ds" "takeWhile digit_or_underscore ds = ds"
    "dropWhile digit_or_underscore ds = []" "chr CHR ''.'' \<notin> set ds" "chr CHR ''e'' \<notin> set ds" "chr CHR ''E'' \<notin> set ds"
    "parse_dec m ds = dec_value m 0 ds" "\<not> starts_with ds (lit ''0x'')" "\<not> starts_with ds (lit ''0X'')"
proof -
  have d: "c \<in> set ds \<Longrightarrow> is_ascii_digit c" for c using assms(1) by (simp add: list_all_iff)
  obtain c cs where rev: "rev ds = c # cs" using assms(2) by (cases "rev ds") auto
  then have "c \<in> set ds" using set_rev [of ds] by simp
  then have c: "\<not> is_num_suffix c" using d [of c] by (auto simp: is_num_suffix_def is_ascii_digit_def)
  have "trim_end is_num_suffix ds = rev (c # cs)" using c by (simp add: trim_end_def rev)
  then show "trim_end is_num_suffix ds = ds" by (simp add: rev [symmetric])
  show "filter (\<lambda>c. c \<noteq> underscore) ds = ds" using d by (fastforce simp: filter_id_conv underscore_def is_ascii_digit_def)
  show "takeWhile digit_or_underscore ds = ds" using d by (simp add: takeWhile_eq_all_conv digit_or_underscore_def)
  show "dropWhile digit_or_underscore ds = []" using d by (simp add: digit_or_underscore_def)
  show "chr CHR ''.'' \<notin> set ds" "chr CHR ''e'' \<notin> set ds" "chr CHR ''E'' \<notin> set ds" using d by (fastforce simp: is_ascii_digit_def)+
  show "parse_dec m ds = dec_value m 0 ds" using d assms(2) by (cases ds) (auto simp: parse_dec_def is_ascii_digit_def)
  show "\<not> starts_with ds (lit ''0x'')" "\<not> starts_with ds (lit ''0X'')"
    using d [of "chr CHR ''x''"] d [of "chr CHR ''X''"] by (auto simp: strip_prefix_Some is_ascii_digit_def)
qed

text \<open>Scanning digits to the end of the source.\<close>

lemma lex_number_digits:
  assumes "list_all is_ascii_digit ds" "ds \<noteq> []" "lx_before lx = []" "lx_rest lx = ds"
  shows "lex_number sl lx = emit_number sl Suffix_None ds 0 (lx\<lparr>lx_before := ds, lx_rest := []\<rparr>)"
proof -
  note plain = digits_plain [OF assms(1,2)]
  have e: "eat_while digit_or_underscore lx = lx\<lparr>lx_before := ds, lx_rest := []\<rparr>"
    using assms(3,4) by (simp add: eat_while_def plain)
  show ?thesis
    unfolding lex_number_def e
    using assms(3,4) plain
    by (simp add: lx_starts_with_def eat_fraction_def eat_exponent_def eat_num_suffix_def peek_is_def peek_def Let_def text_since_def
          lx_pos_def)
qed

lemma lex_normal_digit: "peek lx = Some c \<Longrightarrow> is_ascii_digit c \<Longrightarrow> lex_normal sl lx = lex_number sl lx"
  by (auto simp: lex_normal_def is_ascii_digit_def)

section \<open>Words\<close>

lemma keyword_plain: "keyword_kind s = Some k \<Longrightarrow> \<not> is_newline k \<and> \<not> is_semi k \<and> \<not> is_comma k"
proof -
  have "list_all (\<lambda>(_, k). \<not> is_newline k \<and> \<not> is_semi k \<and> \<not> is_comma k) KEYWORDS"
    by (simp add: KEYWORDS_def is_newline_def is_semi_def is_comma_def)
  then show "keyword_kind s = Some k \<Longrightarrow> \<not> is_newline k \<and> \<not> is_semi k \<and> \<not> is_comma k"
    unfolding keyword_kind_def by (auto simp: list_all_iff dest!: map_of_SomeD)
qed

definition word_kind :: "str \<Rightarrow> TokenKind" where
  "word_kind s = (case keyword_kind s of Some k \<Rightarrow> k | None \<Rightarrow> TK_Ident s)"

lemma word_plain: "\<not> is_newline (word_kind s)" "\<not> is_semi (word_kind s)" "\<not> is_comma (word_kind s)"
  using keyword_plain [of s] by (auto simp: word_kind_def is_newline_def is_semi_def is_comma_def split: option.split)

lemma lex_ident_word:
  assumes "is_id_start sl c" "list_all (is_id_part sl) cs" "lx_before lx = []" "lx_rest lx = c # cs"
  shows "lex_ident_or_kw sl lx = emit_here (word_kind (c # cs)) 0 (lx\<lparr>lx_before := c # cs, lx_rest := []\<rparr>)"
proof -
  have "takeWhile (is_id_part sl) cs = cs" "dropWhile (is_id_part sl) cs = []"
    using assms(2) by (simp_all add: list_all_iff takeWhile_eq_all_conv)
  then have "eat_while (is_id_part sl) (advance lx) = lx\<lparr>lx_before := c # cs, lx_rest := []\<rparr>"
    using assms(3,4) by (simp add: eat_while_def advance_def)
  moreover have "(if peek_is (is_id_start sl) lx then advance lx else lx) = advance lx"
    using assms(1,4) by (simp add: peek_is_def peek_def)
  moreover have "(if P then eat_while is_op_char (lx\<lparr>lx_before := c # cs, lx_rest := []\<rparr>) else lx\<lparr>lx_before := c # cs, lx_rest := []\<rparr>) =
      lx\<lparr>lx_before := c # cs, lx_rest := []\<rparr>" for P
    by (simp add: eat_while_def)
  moreover have "text_since lx (lx\<lparr>lx_before := c # cs, lx_rest := []\<rparr>) = c # cs"
    using assms(3) by (simp add: text_since_def)
  ultimately show ?thesis
    unfolding lex_ident_or_kw_def Let_def using assms(3) by (simp only:) (simp add: peek_def word_kind_def lx_pos_def)
qed

lemma lex_normal_word:
  assumes "is_id_start sl c" "list_all (is_id_part sl) cs" "c # cs \<noteq> lit ''_''" "lx_rest lx = c # cs"
  shows "lex_normal sl lx = lex_ident_or_kw sl lx"
proof (cases "c = underscore")
  case True
  then obtain d ds where "cs = d # ds" "is_id_part sl d" using assms(2,3) by (cases cs) (auto simp: underscore_def)
  then have "peek_is (is_id_part sl) (advance lx)" using assms(4) by (simp add: peek_is_def peek_def)
  then show ?thesis using True assms(4) by (simp add: lex_normal_def peek_def lex_underscore_def underscore_def is_ascii_digit_def)
next
  case False
  then have "is_ascii_alphabetic c \<or> c = chr CHR ''$'' \<or> 0x80 \<le> c" using assms(1) by (auto simp: is_id_start_def underscore_def)
  then show ?thesis
    using False assms(1,4) by (elim disjE) (auto simp: lex_normal_def peek_def is_ascii_alphabetic_def is_ascii_digit_def underscore_def)
qed

section \<open>Properties\<close>

text \<open>
  C39: a decimal number that is the whole source is one token, the \<open>Int\<close> of that value up to \<open>2 ^ 31\<close>, which wraps to
  the least \<open>Int\<close> because the parser may negate it; a larger one is reported, over its whole length, and read as 0.
\<close>

theorem decimal_literal:
  "map t_kind (fst (tokenize_opts sl (source_new name (dec_str n)) file raw)) = [TK_IntLit (if n \<le> 2 ^ 31 then of_nat n else 0), TK_Eof] \<and>
   snd (tokenize_opts sl (source_new name (dec_str n)) file raw) =
     (if n \<le> 2 ^ 31 then []
      else [diag_error file (span_new 0 (of_nat (str_len (dec_str n)))) (lit ''integer number too large'')])"
proof -
  let ?ds = "dec_str n"
  let ?a = "(lexer_new (source_new name ?ds) file)\<lparr>unicode_escapes_raw := raw\<rparr>"
  let ?b = "?a\<lparr>lx_before := ?ds, lx_rest := []\<rparr>"
  obtain c cs where ds: "?ds = c # cs" using dec_str_nonempty by (cases ?ds) auto
  have c: "is_ascii_digit c" using dec_str_digits [of n] by (simp add: ds)
  have a: "lx_before ?a = []" "lx_rest ?a = ?ds" by (simp_all add: lexer_new_def source_new_def from_path_def)
  have step: "lex_normal sl ?a = emit_number sl Suffix_None ?ds 0 ?b"
    using lex_normal_digit [of ?a c sl] lex_number_digits [OF dec_str_digits dec_str_nonempty a] c a(2) by (simp add: peek_def ds)
  note plain = digits_plain [OF dec_str_digits [of n] dec_str_nonempty]
  define lx where "lx = emit_number sl Suffix_None ?ds 0 ?b"
  have big: "U64_MAX < n \<Longrightarrow> \<not> n \<le> 2 ^ 31" by (simp add: U64_MAX_def)
  have num: "lx = (if n \<le> 2 ^ 31 then emit_here (TK_IntLit (of_nat n)) 0 ?b
      else emit_here (TK_IntLit 0) 0 (error_here 0 (lit ''integer number too large'') ?b))"
    using big unfolding lx_def emit_number_def plain(8) dec_value_dec_str by (auto simp: plain(5-7) [simplified])
  let ?t = "\<lparr>t_kind = TK_IntLit (if n \<le> 2 ^ 31 then of_nat n else 0), t_span = span_new 0 (of_nat (str_len ?ds)), nl_before = False,
      blank_line = False\<rparr>"
  have lx: "lx_rest lx = []" "interp_stack lx = []" "lx_tokens lx = [?t]"
    "lx_diags lx = (if n \<le> 2 ^ 31 then []
      else [diag_error file (span_new 0 (of_nat (str_len ?ds))) (lit ''integer number too large'')])"
    by (simp_all add: num emit_here_def lx_emit_def error_here_def lx_error_def lexer_new_def lx_pos_def is_newline_def)
  have run: "lex_normal sl ((lexer_new (source_new name (c # cs)) file)\<lparr>unicode_escapes_raw := raw\<rparr>) = lx"
    using step unfolding lx_def ds .
  have plain_kind: "\<not> is_newline (t_kind ?t)" "\<not> is_semi (t_kind ?t)" "\<not> is_comma (t_kind ?t)"
    by (simp_all add: is_newline_def is_semi_def is_comma_def)
  show ?thesis
    using one_token [OF run lx(1-3) plain_kind] unfolding lx(4) ds by simp
qed

text \<open>
  C40: a word that is the whole source, letters, digits, \<open>_\<close> and \<open>$\<close> but not a lone \<open>_\<close>, is one token without
  diagnostics: its keyword if it is one, otherwise the identifier of that text.
\<close>

theorem word_token:
  assumes "is_id_start sl c" "list_all (is_id_part sl) cs" "c # cs \<noteq> lit ''_''"
  shows "map t_kind (fst (tokenize_opts sl (source_new name (c # cs)) file raw)) =
      [case keyword_kind (c # cs) of Some k \<Rightarrow> k | None \<Rightarrow> TK_Ident (c # cs), TK_Eof] \<and>
    snd (tokenize_opts sl (source_new name (c # cs)) file raw) = []"
proof -
  let ?a = "(lexer_new (source_new name (c # cs)) file)\<lparr>unicode_escapes_raw := raw\<rparr>"
  let ?t = "\<lparr>t_kind = word_kind (c # cs), t_span = span_new 0 (of_nat (str_len (c # cs))), nl_before = False, blank_line = False\<rparr>"
  define lx where "lx = emit_here (word_kind (c # cs)) 0 (?a\<lparr>lx_before := c # cs, lx_rest := []\<rparr>)"
  have a: "lx_before ?a = []" "lx_rest ?a = c # cs" by (simp_all add: lexer_new_def source_new_def from_path_def)
  have run: "lex_normal sl ?a = lx"
    unfolding lx_def lex_normal_word [OF assms a(2)] by (rule lex_ident_word [OF assms(1,2) a])
  have lx: "lx_rest lx = []" "interp_stack lx = []" "lx_tokens lx = [?t]" "lx_diags lx = []"
    by (simp_all add: lx_def emit_here_def lx_emit_def lexer_new_def lx_pos_def word_plain)
  show ?thesis
    using one_token [OF run lx(1-3)] word_plain [of "c # cs"] unfolding lx(4) by (simp add: word_kind_def)
qed

lemma word_token_witness:
  "map t_kind (fst (tokenize_opts \<lparr>alphabetic = (\<lambda>_. False), debug_char = (\<lambda>c. [c]), parse_f32 = (\<lambda>_. None), parse_f64 = (\<lambda>_. None)\<rparr>
     (source_new [] (lit ''val'')) 0 False)) = [TK_Val, TK_Eof]"
proof -
  let ?sl = "\<lparr>alphabetic = (\<lambda>_. False), debug_char = (\<lambda>c. [c]), parse_f32 = (\<lambda>_. None), parse_f64 = (\<lambda>_. None)\<rparr>"
  have w: "is_id_start ?sl (chr CHR ''v'')" "list_all (is_id_part ?sl) (lit ''al'')" "chr CHR ''v'' # lit ''al'' \<noteq> lit ''_''"
    by (simp_all add: is_id_start_def is_id_part_def is_ascii_alphabetic_def)
  have k: "keyword_kind (chr CHR ''v'' # lit ''al'') = Some TK_Val" by (simp add: keyword_kind_def KEYWORDS_def)
  have v: "lit ''val'' = chr CHR ''v'' # lit ''al''" by simp
  show ?thesis
    unfolding v using word_token [OF w, THEN conjunct1] unfolding k option.case by this
qed

end
