(* ===== verification/Spec2Isabelle.thy ===== *)
theory Spec2Isabelle
  imports Codec Names ClassfileReader Pool ClassWriterParams PickleNames PickleBuf PickleRefsSound PatmatModels LexText
begin

text \<open>
  A verification library for \<open>scala-rs\<close>, a Scala 2.13 compiler in Rust.  The compiler is a pipeline of crates
  under \<open>src/crates\<close>: \<open>lexer\<close> and \<open>parser\<close> read sources, \<open>typer\<close> checks and rewrites the tree, \<open>backend\<close>
  writes class files, and \<open>pickle\<close> reads the class files of the class path.  A Scala class carries its
  interface as a pickle, a table of entries, which travels in a Java annotation of the class file, recoded so that
  it is a legal string constant.  Writing a class and reading it again in a later compilation is the
  longest path through the program whose two ends are both in the repository; it is the spine of this
  library.  Beside it stand the exhaustivity solver of the typer and the collections it imitates.

  Parts, the theories that model them, and what the lemmas show.

  Prelude holds the integer widths, indexing that may panic (\<open>option\<close>), Rust's results with the panic as a
  third outcome (\<open>result\<close>), characters and strings, and slices at byte offsets.

  Codec is \<open>pickle/src/codec.rs\<close>: the recoding of bytes from eight bits to seven and back, loop by loop,
  with the buffer the source overwrites in place.  The loops are shown equal to streams (\<open>enc7\<close>, \<open>dec7\<close>), the
  streams to a sequence of bits, and encoding then decoding to the identity, with no index out of range.

  Names (with JavaParts) is \<open>pickle/src/names.rs\<close> and \<open>java_identifier_parts.rs\<close>: operator names as JVM
  identifiers.  Encoded names are identifiers, encoding is idempotent, and decoding inverts it; the
  rewriting of nested class names is equal to a definition over tokens.

  ClassfileReader is \<open>pickle/src/classfile.rs\<close> as it is written: a cursor, the constant pool, element values and the walk
  to the signature, with the panics of indexing, slicing and writing out of range apart from the \<open>None\<close> of the source,
  and the recursion of \<open>read_element_value\<close> as a partial function, so that not returning is a value.  Classfile is the
  format it reads, as functions into \<open>option\<close>: the locales \<open>cursor_reader\<close> and \<open>local_reader\<close> are the contract of a part of the
  format, which lies ahead of the cursor, inside the file, and does not depend on what follows; every part is an
  interpretation.  The lemmas \<open>reads_format\<close> show that each step of the reader reads the part of the format at the
  cursor, so the reader neither panics nor runs on.  The depth of the call stack is not bounded in the model.

  Pool is the constant pool of \<open>backend/src/classfile.rs\<close>.  The locale \<open>pool_operation\<close> is the contract of an
  operation that interns: the bytes stay those of a readable pool and what was interned keeps its index.  Every
  operation is an interpretation, and sequences of operations are operations again.  The pool that is
  written is parsed back by the reader of ClassfileReader, text by text, up to characters above \<open>U+FFFF\<close>.

  ClassWriter is the rest of that file, \<open>ClassEmit::write_with_pool\<close> with annotations, members and
  attributes: it interns everything in the order of the source (\<open>intern_head\<close>, \<open>intern_names\<close>, \<open>intern_signature\<close>,
  \<open>intern_nesting\<close>, \<open>annotation_attrs\<close>, \<open>intern_methods\<close>) and then writes (\<open>write_class\<close>).  ClassWriterOps interprets
  \<open>pool_operation\<close> on each of them; ClassWriterRead has the reader's steps on the bytes of a value, between
  what is read and what is left; ClassWriterSound puts codec, pool, writer and reader together: the signature that was put
  in is the one that is found.  Descriptors has the grammar of descriptors and the writer's two loops over them, exact on
  it; ClassWriterParams what the format asks of \<open>MethodParameters\<close> and the writer's errors.

  Pickle, PickleSound, PickleRefs, PickleTable, PickleBuf and PickleNames are \<open>pickle/src/read.rs\<close> and the buffer
  and entry index of \<open>backend/src/pickle.rs\<close>: the reader with its errors and its one panic, well-formed results, names that are
  computed on demand and memoised, numbers of variable length, the table of entries and the growth of the
  writer's index as a step relation with its invariant (PickleRefsSound).

  ScalaColl is \<open>typer/src/scala_coll.rs\<close>: the sets of the Scala library in their iteration order, small, hashed or
  listed, refined to sets.

  PatmatProp, PatmatSem and PatmatSimp are the propositions of \<open>typer/src/warn_patmat_logic.rs\<close> and their simplifier;
  PatmatCnf the conversion to clauses, PatmatDpll the search; PatmatForms, PatmatConvert, PatmatTseitin and
  PatmatSolve show the clauses equisatisfiable with the proposition, PatmatDpllSound and PatmatLoop the search correct and
  terminating, and PatmatModels that the models found are all there are.

  SpanLoc and Report are \<open>span/src/lib.rs\<close> and \<open>report.rs\<close>: the line table of a source file, whose bisection is shown to
  count line feeds, and the reporting of diagnostics.  The loop of \<open>finish_diagnostics\<close> threads its local
  variables as a record; its table of what was shown at each point is refined away, the errors in the report are
  characterised, and its order is shown to be the documented one, which is stated without the code's sort key.

  Search is the binary search of Rust's slices.  LexToken, LexChars, LexPost, Lexer and Tokenize are the lexer,
  \<open>lexer/src\<close>: the tokens and keywords; the character classes with the table of symbols, searched by it; the passes over the tokens; the scanner with its interpolations;
  and its main loop.  A \<open>lexer\<close> is the Rust struct with its position kept as the text before it and after
  it.  The locale \<open>scan_step\<close> is the contract of a step, that it moves forward, adds tokens in what it
  moved over and uses up weight, and both steps of the loop are interpretations; the loop terminates by it.  LexSound
  concludes that tokens end in \<open>Eof\<close> and that their spans are in order and can be cut out of the source; LexPost states
  the line-break pass as a rule on gaps and shows them equal; LexText runs the whole lexer on numbers and
  words.  What Rust's library decides by Unicode tables of the toolchain, and the parsing of floats, is a
  parameter, \<open>std_lib\<close>.

  Bounds.  \<open>MAX_DPLL_DEPTH\<close> (20) is the source's: it cuts the list of models off, and the theorem about
  \<open>find_all_models\<close> says which side of it a result is on.  \<open>dpll_loop\<close> is a partial function, so that not returning is
  \<open>None\<close>; a weight on its stack shows that it returns.  Counts and lengths a class file stores in two or four
  bytes are hypotheses of the theorems that read them back.  The lexer's casts of positions to \<open>u32\<close> and back are
  exact for sources under 4 GiB, its \<open>i32\<close> depths for sources under 2 GiB, and that it ends is stated for those.  The
  \<open>i32\<close> counter of literals of the exhaustivity solver is a number.  Floats are their bits.

  Not modelled: the parser and the tree, the symbol table and the checker on top of it, implicit search, macros,
  the tree transformers, the code generator, and the driver; they work on one data structure, the typed
  tree with its symbols, of which no part stands alone.  File and archive access, and the processes macros run in, are
  input and output.  The tables of library signatures are data.
\<close>

end
